(* ===== verification/Prelude.thy ===== *)
theory Prelude
  imports Main "HOL-Library.Word"
begin

text \<open>
  Shared vocabulary of the development: byte strings, Rust slices and
  \<open>copy_from_slice\<close>, fixed-width integer encodings (\<open>to_le_bytes\<close>,
  \<open>to_be_bytes\<close> and their inverses), the outcome type of code that may panic,
  checked and saturating \<open>usize\<close> arithmetic, and the source of randomness.

  Conventions used by every theory that imports this one:
  \<^item> a \<open>u8\<close> is an \<open>8 word\<close>, \<open>[u8; N]\<close>, \<open>&[u8]\<close> and \<open>Vec<u8>\<close> are lists
    of them (the length of an array type is a hypothesis where it matters);
  \<^item> \<open>usize\<close> values are natural numbers; where an operation of the source is checked
    or saturating its bound is written out, with the pointer width as a parameter, since
    the program is shipped for 32-bit routers as well as for 64-bit hosts;
  \<^item> arithmetic on \<open>u16\<close>, \<open>u32\<close> and \<open>i16\<close> is word arithmetic and wraps, as
    in the release profile of the build;
  \<^item> \<open>Panic\<close> is the outcome of a failed \<open>expect\<close>, an out-of-range slice or an
    arithmetic underflow.
\<close>

unbundle bit_operations_syntax

named_theorems byte_simps \<open>slices, overwrites and integer encodings of byte strings\<close>
named_theorems exec_simps \<open>outcomes of code that may panic\<close>

type_synonym byte = "8 word"
type_synonym bytes = "8 word list"
type_synonym u16 = "16 word"
type_synonym i16 = "16 word"
type_synonym u32 = "32 word"

section \<open>Outcomes\<close>

datatype 'a exec = Panic | Ret 'a

fun exec_bind :: "'a exec \<Rightarrow> ('a \<Rightarrow> 'b exec) \<Rightarrow> 'b exec" where
  "exec_bind Panic f = Panic"
| "exec_bind (Ret x) f = f x"

lemma exec_bind_eq_Ret [exec_simps]:
  "exec_bind m f = Ret y \<longleftrightarrow> (\<exists>x. m = Ret x \<and> f x = Ret y)"
  by (cases m) auto

lemma exec_bind_eq_Panic [exec_simps]:
  "exec_bind m f = Panic \<longleftrightarrow> m = Panic \<or> (\<exists>x. m = Ret x \<and> f x = Panic)"
  by (cases m) auto

section \<open>Slices\<close>

definition slice_of :: "'a list \<Rightarrow> nat \<Rightarrow> nat \<Rightarrow> 'a list" where
  "slice_of xs a b = take (b - a) (drop a xs)"

definition put :: "'a list \<Rightarrow> nat \<Rightarrow> 'a list \<Rightarrow> 'a list" where
  "put xs i ys = take i xs @ ys @ drop (i + length ys) xs"

text \<open>Indexing and slicing as the source writes them, with the bounds check that panics.\<close>

definition index_at :: "'a list \<Rightarrow> nat \<Rightarrow> 'a exec" where
  "index_at xs i = (if i < length xs then Ret (xs ! i) else Panic)"

definition slice_at :: "'a list \<Rightarrow> nat \<Rightarrow> nat \<Rightarrow> 'a list exec" where
  "slice_at xs a b = (if a \<le> b \<and> b \<le> length xs then Ret (slice_of xs a b) else Panic)"

lemma index_at_Ret [exec_simps]: "i < length xs \<Longrightarrow> index_at xs i = Ret (xs ! i)"
  by (simp add: index_at_def)

lemma index_at_eq_Panic [exec_simps]: "index_at xs i = Panic \<longleftrightarrow> length xs \<le> i"
  by (simp add: index_at_def)

lemma slice_at_Ret [exec_simps]: "a \<le> b \<Longrightarrow> b \<le> length xs \<Longrightarrow> slice_at xs a b = Ret (slice_of xs a b)"
  by (simp add: slice_at_def)

lemma length_slice [byte_simps, simp]:
  "b \<le> length xs \<Longrightarrow> length (slice_of xs a b) = b - a"
  by (simp add: slice_of_def)

lemma nth_slice [byte_simps]:
  "i < b - a \<Longrightarrow> b \<le> length xs \<Longrightarrow> slice_of xs a b ! i = xs ! (a + i)"
  by (simp add: slice_of_def)

lemma length_put [byte_simps, simp]:
  "i + length ys \<le> length xs \<Longrightarrow> length (put xs i ys) = length xs"
  by (simp add: put_def)

lemma slice_put_same [byte_simps]:
  "i + length ys \<le> length xs \<Longrightarrow> b = i + length ys \<Longrightarrow> slice_of (put xs i ys) i b = ys"
  by (simp add: slice_of_def put_def)

lemma slice_put_before [byte_simps]:
  "b \<le> i \<Longrightarrow> i \<le> length xs \<Longrightarrow> slice_of (put xs i ys) a b = slice_of xs a b"
  by (simp add: slice_of_def put_def drop_take min_absorb1)

lemma slice_put_after [byte_simps]:
  "i + length ys \<le> a \<Longrightarrow> i + length ys \<le> length xs \<Longrightarrow>
   slice_of (put xs i ys) a b = slice_of xs a b"
  by (simp add: slice_of_def put_def min_def)

lemma nth_put:
  assumes "i + length ys \<le> length xs" and "j < length xs"
  shows "put xs i ys ! j = (if i \<le> j \<and> j < i + length ys then ys ! (j - i) else xs ! j)"
  using assms by (auto simp: put_def nth_append min_def)

lemma slice_append_left [byte_simps]:
  "b \<le> length xs \<Longrightarrow> slice_of (xs @ ys) a b = slice_of xs a b"
  by (simp add: slice_of_def)

lemma slice_append_right [byte_simps]:
  "length xs \<le> a \<Longrightarrow> slice_of (xs @ ys) a b = slice_of ys (a - length xs) (b - length xs)"
  by (simp add: slice_of_def)

lemma slice_full [byte_simps]: "length xs \<le> b \<Longrightarrow> slice_of xs 0 b = xs"
  by (simp add: slice_of_def)

lemma take_slice: "k \<le> b - a \<Longrightarrow> take k (slice_of xs a b) = slice_of xs a (a + k)"
  by (simp add: slice_of_def min_def)

lemma drop_slice: "drop k (slice_of xs a b) = slice_of xs (a + k) b"
  by (simp add: slice_of_def drop_take add.commute)

lemma xor_eq_zero_iff [byte_simps]: "(a XOR b = 0) = (a = (b :: 'a :: len word))"
  by (metis xor.assoc xor.left_neutral xor.right_neutral xor_self_eq)

section \<open>Lists with equal cuts\<close>

lemma concat_eq_same_lengths:
  assumes "concat xss = concat yss" and "map length xss = map length yss"
  shows "xss = yss"
  using assms
proof (induction xss arbitrary: yss)
  case Nil
  then show ?case by simp
next
  case (Cons xs xss)
  then obtain ys zss where yss: "yss = ys # zss" by (cases yss) auto
  with Cons show ?case by auto
qed

section \<open>Integer encodings\<close>

definition to_le_bytes16 :: "16 word \<Rightarrow> bytes" where
  "to_le_bytes16 w = [ucast w, ucast (drop_bit 8 w)]"

definition from_le_bytes16 :: "byte \<Rightarrow> byte \<Rightarrow> 16 word" where
  "from_le_bytes16 b0 b1 = ucast b0 OR push_bit 8 (ucast b1)"

definition to_be_bytes16 :: "16 word \<Rightarrow> bytes" where
  "to_be_bytes16 w = [ucast (drop_bit 8 w), ucast w]"

definition from_be_bytes16 :: "byte \<Rightarrow> byte \<Rightarrow> 16 word" where
  "from_be_bytes16 b0 b1 = push_bit 8 (ucast b0) OR ucast b1"

definition to_le_bytes32 :: "32 word \<Rightarrow> bytes" where
  "to_le_bytes32 w =
     [ucast w, ucast (drop_bit 8 w), ucast (drop_bit 16 w), ucast (drop_bit 24 w)]"

definition from_le_bytes32 :: "byte \<Rightarrow> byte \<Rightarrow> byte \<Rightarrow> byte \<Rightarrow> 32 word" where
  "from_le_bytes32 b0 b1 b2 b3 =
     ucast b0 OR push_bit 8 (ucast b1) OR push_bit 16 (ucast b2) OR push_bit 24 (ucast b3)"

definition to_le_bytes64 :: "64 word \<Rightarrow> bytes" where
  "to_le_bytes64 w = to_le_bytes32 (ucast w) @ to_le_bytes32 (ucast (drop_bit 32 w))"

definition from_le_bytes64 :: "bytes \<Rightarrow> 64 word" where
  "from_le_bytes64 bs =
     ucast (from_le_bytes32 (bs ! 0) (bs ! 1) (bs ! 2) (bs ! 3)) OR
     push_bit 32 (ucast (from_le_bytes32 (bs ! 4) (bs ! 5) (bs ! 6) (bs ! 7)))"

lemma length_to_le_bytes16 [simp]: "length (to_le_bytes16 w) = 2"
  by (simp add: to_le_bytes16_def)

lemma length_to_be_bytes16 [simp]: "length (to_be_bytes16 w) = 2"
  by (simp add: to_be_bytes16_def)

lemma length_to_le_bytes32 [simp]: "length (to_le_bytes32 w) = 4"
  by (simp add: to_le_bytes32_def)

lemma length_to_le_bytes64 [simp]: "length (to_le_bytes64 w) = 8"
  by (simp add: to_le_bytes64_def)

lemma from_to_le_bytes16 [byte_simps]:
  "from_le_bytes16 (to_le_bytes16 w ! 0) (to_le_bytes16 w ! Suc 0) = w"
  by (rule bit_word_eqI)
    (auto simp: from_le_bytes16_def to_le_bytes16_def bit_simps)

lemma from_to_be_bytes16 [byte_simps]:
  "from_be_bytes16 (to_be_bytes16 w ! 0) (to_be_bytes16 w ! Suc 0) = w"
  by (rule bit_word_eqI)
    (auto simp: from_be_bytes16_def to_be_bytes16_def bit_simps)

lemma from_to_le_bytes32 [byte_simps]:
  "from_le_bytes32 (to_le_bytes32 w ! 0) (to_le_bytes32 w ! Suc 0)
     (to_le_bytes32 w ! 2) (to_le_bytes32 w ! 3) = w"
proof (rule bit_word_eqI)
  have third: "to_le_bytes32 w ! 2 = ucast (drop_bit 16 w)"
    and fourth: "to_le_bytes32 w ! 3 = ucast (drop_bit 24 w)"
    by (simp_all add: to_le_bytes32_def numeral_2_eq_2 numeral_3_eq_3)
  fix n
  assume "n < LENGTH(32)"
  then show "bit (from_le_bytes32 (to_le_bytes32 w ! 0) (to_le_bytes32 w ! Suc 0)
      (to_le_bytes32 w ! 2) (to_le_bytes32 w ! 3)) n = bit w n"
    unfolding third fourth
    by (cases "n < 24"; cases "n < 16") (auto simp: from_le_bytes32_def to_le_bytes32_def bit_simps)
qed

section \<open>Checked and saturating arithmetic of usize\<close>

definition usize_max :: "nat \<Rightarrow> nat" where
  "usize_max W = 2 ^ W - 1"

definition checked_mul :: "nat \<Rightarrow> nat \<Rightarrow> nat \<Rightarrow> nat option" where
  "checked_mul W a b = (if a * b \<le> usize_max W then Some (a * b) else None)"

definition checked_add :: "nat \<Rightarrow> nat \<Rightarrow> nat \<Rightarrow> nat option" where
  "checked_add W a b = (if a + b \<le> usize_max W then Some (a + b) else None)"

definition saturating_add :: "nat \<Rightarrow> nat \<Rightarrow> nat \<Rightarrow> nat" where
  "saturating_add W a b = min (usize_max W) (a + b)"

definition saturating_mul :: "nat \<Rightarrow> nat \<Rightarrow> nat \<Rightarrow> nat" where
  "saturating_mul W a b = min (usize_max W) (a * b)"

lemma usize_max_ge_32: "32 \<le> W \<Longrightarrow> 2 ^ 32 - 1 \<le> usize_max W"
  unfolding usize_max_def by (intro diff_le_mono power_increasing) auto

section \<open>Randomness\<close>

text \<open>
  The operating system's random bytes are an unconstrained infinite sequence;
  \<open>fill_bytes\<close> consumes a prefix of it.
\<close>

type_synonym rng = "nat \<Rightarrow> byte"

definition fill_bytes :: "rng \<Rightarrow> nat \<Rightarrow> bytes \<times> rng" where
  "fill_bytes g n = (map g [0..<n], \<lambda>i. g (n + i))"

definition next_u32 :: "rng \<Rightarrow> u32 \<times> rng" where
  "next_u32 g = (from_le_bytes32 (g 0) (g 1) (g 2) (g 3), \<lambda>i. g (4 + i))"

lemma length_fill_bytes [simp]: "length (fst (fill_bytes g n)) = n"
  by (simp add: fill_bytes_def)

section \<open>Byte streams\<close>

text \<open>
  The readable side of a connection is the list of bytes the peer will have sent before it
  closes; \<open>read_exact\<close> fails, having consumed everything, when it ends early. A writer is
  a function that appends to some sink and may fail.
\<close>

definition read_exact :: "nat \<Rightarrow> bytes \<Rightarrow> (bytes \<times> bytes) option" where
  "read_exact n inp = (if n \<le> length inp then Some (take n inp, drop n inp) else None)"

type_synonym 'w writer = "bytes \<Rightarrow> 'w \<Rightarrow> 'w option"

definition vec_writer :: "bytes writer" where
  "vec_writer bs out = Some (out @ bs)"

lemma read_exact_append [byte_simps]: "length xs = n \<Longrightarrow> read_exact n (xs @ ys) = Some (xs, ys)"
  by (simp add: read_exact_def)

section \<open>UTF-8\<close>

text \<open>
  A \<open>str\<close> is a byte string that \<open>str::from_utf8\<close> accepts: the well-formed sequences
  of the Unicode standard. \<open>utf8_tail\<close> is the number of continuation bytes that follow
  a lead byte, when they are there.
\<close>

definition utf8_cont :: "byte \<Rightarrow> bool" where
  "utf8_cont b \<longleftrightarrow> 0x80 \<le> b \<and> b \<le> 0xbf"

definition utf8_second :: "byte \<Rightarrow> byte \<Rightarrow> bool" where
  "utf8_second lead b \<longleftrightarrow>
     (if lead = 0xe0 then 0xa0 \<le> b \<and> b \<le> 0xbf
      else if lead = 0xed then 0x80 \<le> b \<and> b \<le> 0x9f
      else if lead = 0xf0 then 0x90 \<le> b \<and> b \<le> 0xbf
      else if lead = 0xf4 then 0x80 \<le> b \<and> b \<le> 0x8f
      else utf8_cont b)"

definition utf8_tail :: "byte \<Rightarrow> bytes \<Rightarrow> nat option" where
  "utf8_tail lead rest =
     (if lead < 0x80 then Some 0
      else
        let n = (if 0xc2 \<le> lead \<and> lead \<le> 0xdf then 1
                 else if 0xe0 \<le> lead \<and> lead \<le> 0xef then 2
                 else if 0xf0 \<le> lead \<and> lead \<le> 0xf4 then 3 else 0)
        in if n = 0 \<or> length rest < n then None
           else if utf8_second lead (rest ! 0) \<and> list_all utf8_cont (take (n - 1) (drop 1 rest))
           then Some n else None)"

fun utf8_valid :: "bytes \<Rightarrow> bool" where
  "utf8_valid [] = True"
| "utf8_valid (b # bs) =
     (case utf8_tail b bs of None \<Rightarrow> False | Some n \<Rightarrow> utf8_valid (drop n bs))"

definition from_utf8 :: "bytes \<Rightarrow> bytes option" where
  "from_utf8 bs = (if utf8_valid bs then Some bs else None)"

end
