(* ===== verification/Limits.thy ===== *)
theory Limits
  imports Text
begin

text \<open>
  Connection limits, after \<^verbatim>\<open>src/limits.rs\<close>: the soft limit of open files and the
  number of connections that fits into it. The content of \<^verbatim>\<open>/proc/self/limits\<close> is
  a parameter, \<open>None\<close> where it cannot be read; the pointer width is \<open>W\<close>.
\<close>

definition DEFAULT_NOFILE_LIMIT :: nat where "DEFAULT_NOFILE_LIMIT = 1024"
definition UNLIMITED_MAX_CONNECTIONS :: nat where "UNLIMITED_MAX_CONNECTIONS = 512"
definition RUNTIME_RESERVED_FDS :: nat where "RUNTIME_RESERVED_FDS = 32"
definition FDS_PER_CONNECTION :: nat where "FDS_PER_CONNECTION = 2"
definition FDS_PER_POOL_SLOT :: nat where "FDS_PER_POOL_SLOT = 2"
definition MIN_MAX_CONNECTIONS :: nat where "MIN_MAX_CONNECTIONS = 4"

lemmas limit_consts = DEFAULT_NOFILE_LIMIT_def UNLIMITED_MAX_CONNECTIONS_def
  RUNTIME_RESERVED_FDS_def FDS_PER_CONNECTION_def FDS_PER_POOL_SLOT_def MIN_MAX_CONNECTIONS_def

text \<open>One line of the file; \<open>None\<close> when the scan goes on.\<close>

definition nofile_line :: "nat \<Rightarrow> str \<Rightarrow> nat option" where
  "nofile_line W line =
     (let fields = split_whitespace line
      in if starts_with (lit ''Max open files'') line \<and> 3 < length fields
         then let soft = fields ! 3
              in if soft = lit ''unlimited'' then Some (usize_max W)
                 else parse_uint (usize_max W) soft
         else None)"

fun scan_limits :: "nat \<Rightarrow> str list \<Rightarrow> nat option" where
  "scan_limits W [] = None"
| "scan_limits W (l # ls) =
     (case nofile_line W l of Some n \<Rightarrow> Some n | None \<Rightarrow> scan_limits W ls)"

definition soft_nofile_limit :: "nat \<Rightarrow> str option \<Rightarrow> nat" where
  "soft_nofile_limit W content =
     (case content of
        None \<Rightarrow> DEFAULT_NOFILE_LIMIT
      | Some c \<Rightarrow> (case scan_limits W (str_lines c) of None \<Rightarrow> DEFAULT_NOFILE_LIMIT | Some n \<Rightarrow> n))"

definition auto_max_connections :: "nat \<Rightarrow> nat \<Rightarrow> nat \<Rightarrow> nat \<Rightarrow> nat" where
  "auto_max_connections W fd_limit pool_size dc_buckets =
     (if fd_limit = usize_max W then UNLIMITED_MAX_CONNECTIONS
      else
        let pool_fds = saturating_mul W (saturating_mul W pool_size dc_buckets) FDS_PER_POOL_SLOT;
            reserved = saturating_add W (saturating_add W 1 pool_fds) RUNTIME_RESERVED_FDS
        in max ((fd_limit - reserved) div FDS_PER_CONNECTION) MIN_MAX_CONNECTIONS)"

text \<open>The file descriptors a full server holds.\<close>

definition fd_use :: "nat \<Rightarrow> nat \<Rightarrow> nat \<Rightarrow> nat" where
  "fd_use pool_size dc_buckets connections =
     1 + pool_size * dc_buckets * FDS_PER_POOL_SLOT + RUNTIME_RESERVED_FDS +
     connections * FDS_PER_CONNECTION"

lemma auto_max_connections_exact:
  assumes "fd_limit < usize_max W" and "fd_use pool_size dc_buckets 4 \<le> fd_limit"
  shows "auto_max_connections W fd_limit pool_size dc_buckets =
           (fd_limit - fd_use pool_size dc_buckets 0) div 2"
proof -
  define k where "k = pool_size * dc_buckets"
  have fit: "41 + k * 2 \<le> fd_limit" "k * 2 + 33 \<le> usize_max W"
    using assms by (simp_all add: fd_use_def limit_consts k_def)
  then have "auto_max_connections W fd_limit pool_size dc_buckets = max ((fd_limit - (33 + k * 2)) div 2) 4"
    using assms(1)
    by (simp add: auto_max_connections_def saturating_mul_def saturating_add_def limit_consts
        k_def [symmetric])
  moreover have "max ((fd_limit - (33 + k * 2)) div 2) 4 = (fd_limit - (33 + k * 2)) div 2"
    using fit by linarith
  ultimately show ?thesis
    by (simp add: fd_use_def limit_consts k_def)
qed

section \<open>Properties\<close>

text \<open>
  C24: The computed number of connections fits the limit of open files, together
  with the listener, the pool at its fullest and the runtime's reserve, and one connection
  more would not. The hypothesis is that the limit leaves room for the four connections that
  are always served.
\<close>

theorem auto_max_connections_fits:
  assumes "fd_limit < usize_max W" and "fd_use pool_size dc_buckets MIN_MAX_CONNECTIONS \<le> fd_limit"
  shows "fd_use pool_size dc_buckets (auto_max_connections W fd_limit pool_size dc_buckets) \<le> fd_limit \<and>
         fd_limit < fd_use pool_size dc_buckets (auto_max_connections W fd_limit pool_size dc_buckets + 1)"
proof -
  define r where "r = fd_use pool_size dc_buckets 0"
  have use: "fd_use pool_size dc_buckets n = r + n * 2" for n
    by (simp add: r_def fd_use_def limit_consts)
  have "auto_max_connections W fd_limit pool_size dc_buckets = (fd_limit - r) div 2"
    using auto_max_connections_exact [OF assms(1)] assms(2) by (simp add: limit_consts r_def)
  then show ?thesis
    using assms(2) unfolding use limit_consts by presburger
qed

theorem auto_max_connections_fits_witness:
  "1024 < usize_max 32 \<and> fd_use 4 4 MIN_MAX_CONNECTIONS \<le> 1024 \<and>
   fd_use 4 4 (auto_max_connections 32 1024 4 4) \<le> 1024 \<and>
   1024 < fd_use 4 4 (auto_max_connections 32 1024 4 4 + 1)"
  using auto_max_connections_fits [of 1024 32 4 4]
  by (simp add: usize_max_def fd_use_def limit_consts)

end
