(* ===== verification/Address.thy ===== *)
theory Address
  imports Text
begin

text \<open>
  IP addresses of the standard library: the parser behind \<open>str::parse\<close> for
  \<open>IpAddr\<close> and \<open>Ipv6Addr\<close>, the printers of addresses, and the ASCII case folding
  that the program applies to host names. The parsers return the rest of the text, as the
  parser of the library does, and \<open>parse_all\<close> asks for the whole text to be read.
\<close>

section \<open>ASCII case\<close>

definition ascii_lower :: "nat \<Rightarrow> nat" where
  "ascii_lower c = (if 65 \<le> c \<and> c \<le> 90 then c + 32 else c)"

definition to_ascii_lowercase :: "str \<Rightarrow> str" where
  "to_ascii_lowercase s = map ascii_lower s"

definition eq_ignore_ascii_case :: "str \<Rightarrow> str \<Rightarrow> bool" where
  "eq_ignore_ascii_case a b \<longleftrightarrow> to_ascii_lowercase a = to_ascii_lowercase b"

section \<open>Addresses\<close>

datatype IpAddr = V4 "nat list" | V6 "nat list"

text \<open>Four octets, or eight groups of sixteen bits.\<close>

fun ip_ok :: "IpAddr \<Rightarrow> bool" where
  "ip_ok (V4 os) \<longleftrightarrow> length os = 4 \<and> list_all (\<lambda>b. b < 256) os"
| "ip_ok (V6 gs) \<longleftrightarrow> length gs = 8 \<and> list_all (\<lambda>g. g < 65536) gs"

fun is_loopback :: "IpAddr \<Rightarrow> bool" where
  "is_loopback (V4 os) \<longleftrightarrow> os ! 0 = 127"
| "is_loopback (V6 gs) \<longleftrightarrow> gs = [0, 0, 0, 0, 0, 0, 0, 1]"

fun is_unspecified :: "IpAddr \<Rightarrow> bool" where
  "is_unspecified (V4 os) \<longleftrightarrow> os = [0, 0, 0, 0]"
| "is_unspecified (V6 gs) \<longleftrightarrow> gs = [0, 0, 0, 0, 0, 0, 0, 0]"

fun is_link_local :: "nat list \<Rightarrow> bool" where
  "is_link_local os \<longleftrightarrow> os ! 0 = 169 \<and> os ! 1 = 254"

text \<open>A socket address: the address, the port, and the scope of an IPv6 address.\<close>

datatype SocketAddr = SocketAddr (sa_ip: IpAddr) (sa_port: nat) (sa_scope: nat)

section \<open>Parsing\<close>

type_synonym 'a reader = "str \<Rightarrow> ('a \<times> str) option"

definition hex_digit_value :: "nat \<Rightarrow> nat option" where
  "hex_digit_value c =
     (if 48 \<le> c \<and> c \<le> 57 then Some (c - 48)
      else if 97 \<le> c \<and> c \<le> 102 then Some (c - 87)
      else if 65 \<le> c \<and> c \<le> 70 then Some (c - 55)
      else None)"

text \<open>\<open>char::to_digit\<close> for the two radixes of addresses.\<close>

definition to_digit :: "nat \<Rightarrow> nat \<Rightarrow> nat option" where
  "to_digit radix c = (if radix = 16 then hex_digit_value c else digit_value c)"

text \<open>The digits of a number: at most \<open>left\<close> of them, failing on one more.\<close>

fun read_digits :: "nat \<Rightarrow> nat \<Rightarrow> nat \<Rightarrow> nat reader" where
  "read_digits radix left acc [] = Some (acc, [])"
| "read_digits radix left acc (c # cs) =
     (case to_digit radix c of
        None \<Rightarrow> Some (acc, c # cs)
      | Some d \<Rightarrow>
          (case left of 0 \<Rightarrow> None | Suc left \<Rightarrow> read_digits radix left (acc * radix + d) cs))"

definition read_number :: "nat \<Rightarrow> nat \<Rightarrow> bool \<Rightarrow> nat \<Rightarrow> nat reader" where
  "read_number radix max_digits allow_zero_prefix largest s =
     (case read_digits radix max_digits 0 s of
        None \<Rightarrow> None
      | Some (n, rest) \<Rightarrow>
          (let digit_count = length s - length rest
           in if digit_count = 0 then None
              else if \<not> allow_zero_prefix \<and> hd s = 48 \<and> 1 < digit_count then None
              else if largest < n then None
              else Some (n, rest)))"

definition read_separator :: "nat \<Rightarrow> nat \<Rightarrow> 'a reader \<Rightarrow> 'a reader" where
  "read_separator sep index inner s =
     (if 0 < index then (case s of c # cs \<Rightarrow> if c = sep then inner cs else None | [] \<Rightarrow> None)
      else inner s)"

text \<open>\<open>read_ipv4_addr\<close>: \<open>n\<close> octets are still to be read, \<open>i\<close> have been.\<close>

fun read_octets :: "nat \<Rightarrow> nat \<Rightarrow> nat list reader" where
  "read_octets 0 i s = Some ([], s)"
| "read_octets (Suc n) i s =
     (case read_separator 46 i (read_number 10 3 False 255) s of
        None \<Rightarrow> None
      | Some (b, rest) \<Rightarrow>
          (case read_octets n (i + 1) rest of None \<Rightarrow> None | Some (bs, r) \<Rightarrow> Some (b # bs, r)))"

definition read_ipv4_addr :: "nat list reader" where
  "read_ipv4_addr s = read_octets 4 0 s"

text \<open>
  \<open>read_groups\<close>: slot \<open>i\<close> of those still \<open>left\<close>; an embedded IPv4 address fills two slots
  and ends the run. The result holds the groups read and whether they end with such an address.
\<close>

fun read_groups :: "nat \<Rightarrow> nat \<Rightarrow> str \<Rightarrow> nat list \<times> bool \<times> str" where
  "read_groups 0 i s = ([], False, s)"
| "read_groups (Suc left) i s =
     (case (if 0 < left then read_separator 58 i read_ipv4_addr s else None) of
        Some (os, rest) \<Rightarrow>
          ([os ! 0 * 256 + os ! 1, os ! 2 * 256 + os ! 3], True, rest)
      | None \<Rightarrow>
          (case read_separator 58 i (read_number 16 4 True 65535) s of
             None \<Rightarrow> ([], False, s)
           | Some (g, rest) \<Rightarrow>
               (let (gs, v4, r) = read_groups left (i + 1) rest in (g # gs, v4, r))))"

definition read_ipv6_addr :: "nat list reader" where
  "read_ipv6_addr s =
     (let (head, head_ipv4, rest) = read_groups 8 0 s
      in if length head = 8 then Some (head, rest)
         else if head_ipv4 then None
         else (case rest of
             c1 # c2 # rest \<Rightarrow>
               if c1 = 58 \<and> c2 = 58
               then (let (tail, _, rest) = read_groups (8 - (length head + 1)) 0 rest
                     in Some (head @ replicate (8 - length head - length tail) 0 @ tail, rest))
               else None
           | _ \<Rightarrow> None))"

definition read_ip_addr :: "IpAddr reader" where
  "read_ip_addr s =
     (case read_ipv4_addr s of
        Some (os, rest) \<Rightarrow> Some (V4 os, rest)
      | None \<Rightarrow> (case read_ipv6_addr s of Some (gs, rest) \<Rightarrow> Some (V6 gs, rest) | None \<Rightarrow> None))"

text \<open>A decimal number of any length, for a port or a scope; overflow of its type fails.\<close>

fun read_decimal :: "nat \<Rightarrow> nat \<Rightarrow> nat reader" where
  "read_decimal largest acc [] = Some (acc, [])"
| "read_decimal largest acc (c # cs) =
     (case digit_value c of
        None \<Rightarrow> Some (acc, c # cs)
      | Some d \<Rightarrow> if largest < acc * 10 + d then None else read_decimal largest (acc * 10 + d) cs)"

definition read_field :: "nat \<Rightarrow> nat \<Rightarrow> nat reader" where
  "read_field mark largest s =
     (case s of
        [] \<Rightarrow> None
      | c # cs \<Rightarrow>
          if c \<noteq> mark then None
          else case read_decimal largest 0 cs of
              None \<Rightarrow> None
            | Some (n, rest) \<Rightarrow> if length rest = length cs then None else Some (n, rest))"

definition read_socket_addr_v4 :: "SocketAddr reader" where
  "read_socket_addr_v4 s =
     (case read_ipv4_addr s of
        None \<Rightarrow> None
      | Some (os, rest) \<Rightarrow>
          (case read_field 58 65535 rest of
             None \<Rightarrow> None
           | Some (port, rest) \<Rightarrow> Some (SocketAddr (V4 os) port 0, rest)))"

definition read_socket_addr_v6 :: "SocketAddr reader" where
  "read_socket_addr_v6 s =
     (case s of
        [] \<Rightarrow> None
      | c # cs \<Rightarrow>
          if c \<noteq> 91 then None
          else case read_ipv6_addr cs of
              None \<Rightarrow> None
            | Some (gs, rest) \<Rightarrow>
                (let (scope, rest) = (case read_field 37 4294967295 rest of
                                        Some (n, r) \<Rightarrow> (n, r)
                                      | None \<Rightarrow> (0, rest))
                 in case rest of
                      [] \<Rightarrow> None
                    | c # rest \<Rightarrow>
                        if c \<noteq> 93 then None
                        else case read_field 58 65535 rest of
                            None \<Rightarrow> None
                          | Some (port, rest) \<Rightarrow> Some (SocketAddr (V6 gs) port scope, rest)))"

definition read_socket_addr :: "SocketAddr reader" where
  "read_socket_addr s =
     (case read_socket_addr_v4 s of Some x \<Rightarrow> Some x | None \<Rightarrow> read_socket_addr_v6 s)"

definition parse_all :: "'a reader \<Rightarrow> str \<Rightarrow> 'a option" where
  "parse_all reader s = (case reader s of Some (x, []) \<Rightarrow> Some x | _ \<Rightarrow> None)"

definition parse_ip :: "str \<Rightarrow> IpAddr option" where
  "parse_ip s = parse_all read_ip_addr s"

definition parse_ipv6 :: "str \<Rightarrow> nat list option" where
  "parse_ipv6 s = parse_all read_ipv6_addr s"

definition parse_socket_addr :: "str \<Rightarrow> SocketAddr option" where
  "parse_socket_addr s = parse_all read_socket_addr s"

section \<open>Printing\<close>

fun show_ipv4 :: "nat list \<Rightarrow> str" where
  "show_ipv4 [] = []"
| "show_ipv4 [b] = show_nat b"
| "show_ipv4 (b # bs) = show_nat b @ lit ''.'' @ show_ipv4 bs"

fun show_hex :: "nat \<Rightarrow> str" where
  "show_hex n =
     (if n < 16 then [if n < 10 then 48 + n else 87 + n]
      else show_hex (n div 16) @ [if n mod 16 < 10 then 48 + n mod 16 else 87 + n mod 16])"

declare show_hex.simps [simp del]

fun show_groups :: "nat list \<Rightarrow> str" where
  "show_groups [] = []"
| "show_groups [g] = show_hex g"
| "show_groups (g # gs) = show_hex g @ lit '':'' @ show_groups gs"

text \<open>
  The first longest run of zero groups, as start and length: \<open>i\<close> is the index of the next group,
  \<open>cur\<close> the run that ends before it and \<open>best\<close> the longest so far.
\<close>

fun zero_span :: "nat \<Rightarrow> nat \<times> nat \<Rightarrow> nat \<times> nat \<Rightarrow> nat list \<Rightarrow> nat \<times> nat" where
  "zero_span i cur best [] = best"
| "zero_span i cur best (g # gs) =
     (if g = 0
      then let cur = (if snd cur = 0 then (i, 1) else (fst cur, snd cur + 1))
           in zero_span (i + 1) cur (if snd best < snd cur then cur else best) gs
      else zero_span (i + 1) (0, 0) best gs)"

definition show_ipv6 :: "nat list \<Rightarrow> str" where
  "show_ipv6 gs =
     (if take 6 gs = [0, 0, 0, 0, 0, 65535]
      then lit ''::ffff:'' @
           show_ipv4 [gs ! 6 div 256, gs ! 6 mod 256, gs ! 7 div 256, gs ! 7 mod 256]
      else let (start, n) = zero_span 0 (0, 0) (0, 0) gs
           in if 1 < n then show_groups (take start gs) @ lit ''::'' @ show_groups (drop (start + n) gs)
              else show_groups gs)"

fun show_ip :: "IpAddr \<Rightarrow> str" where
  "show_ip (V4 os) = show_ipv4 os"
| "show_ip (V6 gs) = show_ipv6 gs"

section \<open>Numbers and lists as text\<close>

definition is_digit_char :: "nat \<Rightarrow> bool" where
  "is_digit_char c \<longleftrightarrow> 48 \<le> c \<and> c \<le> 57"

lemma show_nat_digits: "list_all is_digit_char (show_nat n)"
  by (induction n rule: show_nat.induct) (subst show_nat.simps, auto simp: is_digit_char_def [abs_def])

lemma show_nat_nonempty [simp]: "show_nat n \<noteq> []"
  by (subst show_nat.simps) simp

lemma digit_value_char [simp]: "d < 10 \<Longrightarrow> digit_value (48 + d) = Some d"
  by (simp add: digit_value_def)

lemma parse_digits_append:
  "parse_digits m acc (a @ b) =
     (case parse_digits m acc a of None \<Rightarrow> None | Some n \<Rightarrow> parse_digits m n b)"
  by (induction a arbitrary: acc) (auto split: option.splits)

lemma parse_digits_show: "n \<le> m \<Longrightarrow> parse_digits m 0 (show_nat n) = Some n"
proof (induction n rule: show_nat.induct)
  case (1 n)
  then show ?case
    by (subst show_nat.simps) (auto simp: parse_digits_append)
qed

lemma hd_show_nat: "48 \<le> hd (show_nat n) \<and> hd (show_nat n) \<le> 57"
  using show_nat_digits [of n] by (cases "show_nat n") (auto simp: is_digit_char_def)

lemma parse_uint_show [simp]: "n \<le> m \<Longrightarrow> parse_uint m (show_nat n) = Some n"
  using hd_show_nat [of n] parse_digits_show [of n m]
  by (cases "show_nat n") (auto simp: parse_uint_def)

lemma split_at_last: "list_all (\<lambda>c. \<not> p c) a \<Longrightarrow> split_at p a = [a]"
  by (induction a) auto

lemma split_at_cons: "list_all (\<lambda>c. \<not> p c) a \<Longrightarrow> p d \<Longrightarrow> split_at p (a @ d # b) = a # split_at p b"
  by (induction a) auto

lemma trim_id: "list_all (\<lambda>c. \<not> is_whitespace c) s \<Longrightarrow> trim s = s"
proof -
  assume a: "list_all (\<lambda>c. \<not> is_whitespace c) s"
  then have "dropWhile is_whitespace s = s" by (cases s) auto
  moreover have "dropWhile is_whitespace (rev s) = rev s"
    using a by (cases "rev s") (auto simp: list_all_iff dest: arg_cong [where f = set])
  ultimately show ?thesis by (simp add: trim_def trim_start_def trim_end_matches_def)
qed

lemma starts_with_append [simp]: "starts_with p (p @ s)"
  by (simp add: starts_with_def)

lemma strip_prefix_append [simp]: "strip_prefix p (p @ s) = Some s"
  by (simp add: strip_prefix_def)

section \<open>Printed IPv4 addresses\<close>

text \<open>What follows a number in an address is not another digit.\<close>

definition no_digit_next :: "str \<Rightarrow> bool" where
  "no_digit_next rest \<longleftrightarrow> (case rest of [] \<Rightarrow> True | c # _ \<Rightarrow> \<not> is_digit_char c)"

lemma read_digits_stop: "no_digit_next rest \<Longrightarrow> read_digits 10 left acc rest = Some (acc, rest)"
  by (cases rest) (auto simp: no_digit_next_def to_digit_def digit_value_def is_digit_char_def)

lemma read_octet_digits:
  assumes "n < 256" and "no_digit_next rest"
  shows "read_digits 10 3 0 (show_nat n @ rest) = Some (n, rest)"
    and "length (show_nat n) \<le> 3"
    and "hd (show_nat n) = 48 \<Longrightarrow> length (show_nat n) = 1"
proof -
  consider "n < 10" | "10 \<le> n" "n < 100" | "100 \<le> n" by linarith
  then have all: "read_digits 10 3 0 (show_nat n @ rest) = Some (n, rest) \<and> length (show_nat n) \<le> 3 \<and>
    (hd (show_nat n) = 48 \<longrightarrow> length (show_nat n) = 1)"
  proof cases
    case 1
    then have s: "show_nat n = [48 + n]" by (subst show_nat.simps) simp
    then have "length (show_nat n) = 1" by simp
    moreover have "read_digits 10 3 0 (show_nat n @ rest) = Some (n, rest)"
      using 1 assms s by (simp add: to_digit_def read_digits_stop numeral_3_eq_3)
    ultimately show ?thesis by simp
  next
    case 2
    then have s: "show_nat n = [48 + n div 10, 48 + n mod 10]"
      by (subst show_nat.simps, subst show_nat.simps) simp
    have "0 < n div 10" "n div 10 < 10" using 2 by auto
    then show ?thesis using assms s by (simp add: to_digit_def read_digits_stop numeral_3_eq_3)
  next
    case 3
    then have b: "\<not> n < 10" "\<not> n div 10 < 10" "0 < n div 10 div 10" "n div 10 div 10 < 10"
      using assms(1) by linarith+
    then have s: "show_nat n = [48 + n div 10 div 10, 48 + n div 10 mod 10, 48 + n mod 10]"
      by (simp only: show_nat.simps [of n] show_nat.simps [of "n div 10"]
          show_nat.simps [of "n div 10 div 10"] if_True if_False append.simps)
    note b(3,4)
    then show ?thesis using assms s by (simp add: to_digit_def read_digits_stop numeral_3_eq_3)
  qed
  then show "read_digits 10 3 0 (show_nat n @ rest) = Some (n, rest)"
    and "length (show_nat n) \<le> 3" and "hd (show_nat n) = 48 \<Longrightarrow> length (show_nat n) = 1"
    by auto
qed

lemma read_number_show:
  assumes "n < 256" and "no_digit_next rest"
  shows "read_number 10 3 False 255 (show_nat n @ rest) = Some (n, rest)"
  using assms read_octet_digits [OF assms] by (simp add: read_number_def)

lemma read_octets_show:
  assumes "list_all (\<lambda>b. b < 256) os" and "os \<noteq> []" and "no_digit_next rest"
  shows "read_octets (length os) i ((if 0 < i then [46] else []) @ show_ipv4 os @ rest) = Some (os, rest)"
  using assms
proof (induction os arbitrary: i rule: show_ipv4.induct)
  case (3 b c cs)
  have dot: "no_digit_next (46 # show_ipv4 (c # cs) @ rest)"
    by (simp add: no_digit_next_def is_digit_char_def)
  have one: "read_separator 46 i (read_number 10 3 False 255)
      ((if 0 < i then [46] else []) @ show_ipv4 (b # c # cs) @ rest) =
    Some (b, 46 # show_ipv4 (c # cs) @ rest)"
    using 3 read_number_show [OF _ dot, of b] by (simp add: read_separator_def lit_def)
  have rest: "read_octets (length (c # cs)) (i + 1) (46 # show_ipv4 (c # cs) @ rest) = Some (c # cs, rest)"
    using 3 "3.IH" [of "i + 1"] by (simp del: read_octets.simps)
  have len: "length (b # c # cs) = Suc (length (c # cs))" by simp
  show ?case
    unfolding len read_octets.simps one option.case prod.case rest by simp
qed (simp_all add: read_separator_def read_number_show)

lemma parse_ip_show:
  assumes "list_all (\<lambda>b. b < 256) os" and "length os = 4"
  shows "parse_ip (show_ipv4 os) = Some (V4 os)"
proof -
  have "read_octets 4 0 (show_ipv4 os) = Some (os, [])"
    using read_octets_show [OF assms(1), of "[]" 0] assms(2)
    by (cases os) (simp_all add: no_digit_next_def del: read_octets.simps)
  then show ?thesis
    by (simp add: parse_ip_def parse_all_def read_ip_addr_def read_ipv4_addr_def)
qed

section \<open>IPv6 text\<close>

lemmas read_groups_8 = read_groups.simps(2) [of 7, simplified]

lemmas read_octets_4 = read_octets.simps(2) [of 3, simplified]

lemma parse_ipv6_ip:
  assumes "parse_ipv6 t = Some gs"
  shows "parse_ip t = Some (V6 gs)"
proof -
  have r: "read_ipv6_addr t = Some (gs, [])"
    using assms by (auto simp: parse_ipv6_def parse_all_def split: option.splits prod.splits list.splits)
  have "read_ipv4_addr t = None"
  proof (rule ccontr)
    assume "read_ipv4_addr t \<noteq> None"
    then obtain os rest where "read_ipv4_addr t = Some (os, rest)" by auto
    then have "read_groups 8 0 t = ([os ! 0 * 256 + os ! 1, os ! 2 * 256 + os ! 3], True, rest)"
      by (simp add: read_groups_8 read_separator_def)
    then show False using r by (simp add: read_ipv6_addr_def)
  qed
  then show ?thesis
    using r by (simp add: parse_ip_def parse_all_def read_ip_addr_def)
qed

text \<open>A host that starts with neither a digit of an address nor a colon is not an address.\<close>

lemma parse_ip_none:
  assumes "hex_digit_value c = None" and "c \<noteq> 58"
  shows "parse_ip (c # cs) = None"
proof -
  have d: "digit_value c = None"
    using assms(1) by (auto simp: hex_digit_value_def digit_value_def split: if_splits)
  have n: "read_number 10 3 False 255 (c # cs) = None" "read_number 16 4 True 65535 (c # cs) = None"
    using assms(1) d by (simp_all add: read_number_def to_digit_def)
  have v4: "read_ipv4_addr (c # cs) = None"
    using n by (simp add: read_ipv4_addr_def read_octets_4 read_separator_def)
  have "read_groups 8 0 (c # cs) = ([], False, c # cs)"
    using n v4 by (simp add: read_groups_8 read_separator_def)
  then show ?thesis
    using v4 assms(2)
    by (simp add: parse_ip_def parse_all_def read_ip_addr_def read_ipv6_addr_def split: list.splits)
qed

section \<open>Socket addresses\<close>

lemma read_decimal_append:
  "parse_digits m acc s = Some n \<Longrightarrow> read_decimal m acc s = Some (n, [])"
  by (induction s arbitrary: acc) (auto split: option.splits if_splits)

lemma read_field_show: "n \<le> m \<Longrightarrow> read_field mark m (mark # show_nat n) = Some (n, [])"
  using read_decimal_append [OF parse_digits_show] by (simp add: read_field_def)

lemma parse_socket_addr_v4:
  assumes "list_all (\<lambda>b. b < 256) os" and "length os = 4" and "port \<le> 65535"
  shows "parse_socket_addr (show_ipv4 os @ lit '':'' @ show_nat port) = Some (SocketAddr (V4 os) port 0)"
proof -
  have "no_digit_next (58 # show_nat port)" by (simp add: no_digit_next_def is_digit_char_def)
  from read_octets_show [OF assms(1) _ this, of 0]
  have "read_octets 4 0 (show_ipv4 os @ 58 # show_nat port) = Some (os, 58 # show_nat port)"
    using assms(2) by (cases os) (simp_all del: read_octets.simps)
  then show ?thesis
    using read_field_show [OF assms(3), of 58]
    by (simp add: parse_socket_addr_def parse_all_def read_socket_addr_def read_socket_addr_v4_def
        read_ipv4_addr_def lit_def)
qed

text \<open>A text that starts with neither a digit nor a bracket is no socket address.\<close>

lemma parse_socket_addr_none:
  assumes "\<not> is_digit_char c" and "c \<noteq> 91"
  shows "parse_socket_addr (c # cs) = None"
proof -
  have "digit_value c = None" using assms(1) by (auto simp: digit_value_def is_digit_char_def)
  then have "read_number 10 3 False 255 (c # cs) = None"
    by (simp add: read_number_def to_digit_def)
  then have "read_ipv4_addr (c # cs) = None"
    by (simp add: read_ipv4_addr_def read_octets_4 read_separator_def)
  then show ?thesis
    using assms(2)
    by (simp add: parse_socket_addr_def parse_all_def read_socket_addr_def read_socket_addr_v4_def
        read_socket_addr_v6_def)
qed

end
