(* ===== verification/Outbound.thy ===== *)
theory Outbound
  imports Address
begin

text \<open>
  Outgoing TCP connections through an optional proxy, after
  \<^verbatim>\<open>src/outbound/config.rs\<close> and \<^verbatim>\<open>src/outbound/connector.rs\<close>: the choice
  of the proxy from the options and the environment, the list of hosts that bypass it, and the
  connector itself. The crates \<^verbatim>\<open>url\<close>, \<^verbatim>\<open>percent-encoding\<close> and
  \<^verbatim>\<open>ipnet\<close> are the fields of \<open>outbound_libs\<close>; the network is the record
  \<open>outbound_net\<close>, whose answers are missing where the deadline passes first.
\<close>

section \<open>Strings\<close>

fun contains_str :: "str \<Rightarrow> str \<Rightarrow> bool" where
  "contains_str p [] \<longleftrightarrow> p = []"
| "contains_str p (c # cs) \<longleftrightarrow> starts_with p (c # cs) \<or> contains_str p cs"

text \<open>\<open>s.get(start..)\<close>, where \<open>start\<close> counts bytes and must be a character boundary.\<close>

fun str_get_from :: "str \<Rightarrow> nat \<Rightarrow> str option" where
  "str_get_from s 0 = Some s"
| "str_get_from [] (Suc n) = None"
| "str_get_from (c # cs) (Suc n) =
     (let k = length (utf8_char c) in if k \<le> Suc n then str_get_from cs (Suc n - k) else None)"

definition comma_entries :: "str \<Rightarrow> str list" where
  "comma_entries raw = filter (\<lambda>e. e \<noteq> []) (map trim (split_at (\<lambda>c. c = 44) raw))"

section \<open>Data\<close>

record url =
  url_scheme :: str
  url_path :: str
  url_query :: "str option"
  url_fragment :: "str option"
  url_host :: "str option"
  url_port :: "nat option"
  url_username :: str
  url_password :: "str option"

record 'n outbound_libs =
  ol_url :: "str \<Rightarrow> url option"
  ol_percent :: "str \<Rightarrow> str option"
  ol_net :: "str \<Rightarrow> 'n option"
  ol_contains :: "'n \<Rightarrow> IpAddr \<Rightarrow> bool"

datatype ProxyKind = Http | Socks5 (remote_dns: bool)

record ProxyConfig =
  px_kind :: ProxyKind
  px_host :: str
  px_port :: nat
  px_username :: "str option"
  px_password :: "str option"

datatype 'n NoProxyMatcher =
    Address IpAddr nat
  | Network 'n
  | Host (nm_suffix: str) (nm_port: nat) (nm_include_apex: bool)
  | Wildcard

record 'n OutboundConfig =
  oc_proxy :: "ProxyConfig option"
  oc_no_proxy :: "'n NoProxyMatcher list option"

section \<open>The bypass list\<close>

definition strip_subdomain_mark :: "str \<Rightarrow> str option" where
  "strip_subdomain_mark host =
     (case strip_prefix (lit ''*.'') host of Some h \<Rightarrow> Some h | None \<Rightarrow> strip_prefix (lit ''.'') host)"

definition expect_port :: "str \<Rightarrow> nat exec" where
  "expect_port s = (case parse_uint 65535 s of Some p \<Rightarrow> Ret p | None \<Rightarrow> Panic)"

text \<open>The host and port of an entry; the \<open>expect\<close> calls panic on an entry that was not validated.\<close>

definition entry_host_port :: "str \<Rightarrow> (str \<times> nat) exec" where
  "entry_host_port entry =
     (case strip_prefix (lit ''['') entry of
        Some bracketed \<Rightarrow>
          (case split_once 93 bracketed of
             None \<Rightarrow> Panic
           | Some (host, rest) \<Rightarrow>
               (case strip_prefix (lit '':'') rest of
                  None \<Rightarrow> Ret (host, 0)
                | Some port \<Rightarrow> exec_bind (expect_port port) (\<lambda>p. Ret (host, p))))
      | None \<Rightarrow>
          if 58 \<in> set entry
          then (case rsplit_once 58 entry of
                  None \<Rightarrow> Panic
                | Some (host, port) \<Rightarrow> exec_bind (expect_port port) (\<lambda>p. Ret (host, p)))
          else Ret (entry, 0))"

definition host_matcher :: "str \<Rightarrow> nat \<Rightarrow> 'n NoProxyMatcher" where
  "host_matcher host port =
     (case parse_ip host of
        Some ip \<Rightarrow> Address ip port
      | None \<Rightarrow>
          (case strip_subdomain_mark host of
             Some suffix \<Rightarrow> Host suffix port False
           | None \<Rightarrow> Host host port True))"

definition parse_no_proxy_matcher :: "'n outbound_libs \<Rightarrow> str \<Rightarrow> 'n NoProxyMatcher exec" where
  "parse_no_proxy_matcher lib entry =
     (if entry = lit ''*'' then Ret Wildcard
      else case ol_net lib entry of
          Some network \<Rightarrow> Ret (Network network)
        | None \<Rightarrow> exec_bind (entry_host_port entry) (\<lambda>(host, port). Ret (host_matcher host port)))"

fun parse_matchers :: "'n outbound_libs \<Rightarrow> str list \<Rightarrow> 'n NoProxyMatcher list exec" where
  "parse_matchers lib [] = Ret []"
| "parse_matchers lib (e # es) =
     exec_bind (parse_no_proxy_matcher lib e)
       (\<lambda>m. exec_bind (parse_matchers lib es) (\<lambda>ms. Ret (m # ms)))"

definition from_validated :: "'n outbound_libs \<Rightarrow> str \<Rightarrow> 'n NoProxyMatcher list exec" where
  "from_validated lib raw = parse_matchers lib (comma_entries raw)"

definition host_matches :: "str \<Rightarrow> str \<Rightarrow> bool \<Rightarrow> bool" where
  "host_matches host suffix include_apex =
     (if include_apex \<and> eq_ignore_ascii_case host suffix then True
      else
        (let h = utf8_encode host; n = length (utf8_encode suffix)
         in if length h < n then False
            else
              (let start = length h - n
               in 0 < start \<and> h ! (start - 1) = 46 \<and>
                  (case str_get_from host start of
                     None \<Rightarrow> False
                   | Some tail \<Rightarrow> eq_ignore_ascii_case tail suffix))))"

definition strip_brackets :: "str \<Rightarrow> str" where
  "strip_brackets host =
     (case strip_prefix (lit ''['') host of
        None \<Rightarrow> host
      | Some h \<Rightarrow> (case strip_suffix (lit '']'') h of None \<Rightarrow> host | Some h \<Rightarrow> h))"

fun matcher_matches ::
    "'n outbound_libs \<Rightarrow> str \<Rightarrow> IpAddr option \<Rightarrow> nat \<Rightarrow> 'n NoProxyMatcher \<Rightarrow> bool" where
  "matcher_matches lib host target_ip target_port (Address ip port) \<longleftrightarrow>
     Some ip = target_ip \<and> (port = 0 \<or> port = target_port)"
| "matcher_matches lib host target_ip target_port (Network network) \<longleftrightarrow>
     (case target_ip of Some ip \<Rightarrow> ol_contains lib network ip | None \<Rightarrow> False)"
| "matcher_matches lib host target_ip target_port (Host suffix port include_apex) \<longleftrightarrow>
     (port = 0 \<or> port = target_port) \<and> host_matches host suffix include_apex"
| "matcher_matches lib host target_ip target_port Wildcard \<longleftrightarrow> True"

definition no_proxy_matches ::
    "'n outbound_libs \<Rightarrow> 'n NoProxyMatcher list \<Rightarrow> str \<Rightarrow> nat \<Rightarrow> bool" where
  "no_proxy_matches lib matchers target_host target_port =
     (let host = strip_brackets target_host; target_ip = parse_ip host
      in if (case target_ip of Some ip \<Rightarrow> is_loopback ip | None \<Rightarrow> False) then True
         else list_ex (matcher_matches lib host target_ip target_port) matchers)"

section \<open>Validation\<close>

definition validate_no_proxy_port :: "str \<Rightarrow> str + unit" where
  "validate_no_proxy_port port =
     (if port = [] \<or> parse_uint 65535 port = None then Inl (lit ''invalid NO_PROXY entry port'')
      else Inr ())"

definition label_ok :: "str \<Rightarrow> bool" where
  "label_ok label \<longleftrightarrow>
     label \<noteq> [] \<and> \<not> starts_with (lit ''-'') label \<and> \<not> ends_with (lit ''-'') label \<and>
     list_all (\<lambda>b. 48 \<le> b \<and> b \<le> 57 \<or> 65 \<le> b \<and> b \<le> 90 \<or> 97 \<le> b \<and> b \<le> 122 \<or> b = 45) label"

definition validate_hostname_no_proxy :: "str \<Rightarrow> str + unit" where
  "validate_hostname_no_proxy host =
     (let host = (case strip_subdomain_mark host of Some h \<Rightarrow> h | None \<Rightarrow> host)
      in if host = [] \<or> list_ex (\<lambda>c. c \<in> set (lit ''/[]:'')) host \<or>
            list_ex (\<lambda>label. \<not> label_ok label) (split_at (\<lambda>c. c = 46) host)
         then Inl (lit ''invalid NO_PROXY host entry'')
         else Inr ())"

definition validate_bracketed_ipv6_no_proxy :: "str \<Rightarrow> str + unit" where
  "validate_bracketed_ipv6_no_proxy entry =
     (case split_once 93 entry of
        None \<Rightarrow> Inl (lit ''invalid bracketed IPv6 NO_PROXY entry'')
      | Some (front, rest) \<Rightarrow>
          (case parse_ipv6 (drop 1 front) of
             None \<Rightarrow> Inl (lit ''invalid bracketed IPv6 NO_PROXY entry'')
           | Some _ \<Rightarrow>
               if rest = [] then Inr ()
               else (case strip_prefix (lit '':'') rest of
                   None \<Rightarrow> Inl (lit ''invalid bracketed IPv6 NO_PROXY entry'')
                 | Some port \<Rightarrow> validate_no_proxy_port port)))"

definition validate_no_proxy_entry :: "'n outbound_libs \<Rightarrow> str \<Rightarrow> str + unit" where
  "validate_no_proxy_entry lib entry =
     (if entry = lit ''*'' then Inr ()
      else if contains_str (lit ''://'') entry
      then Inl (lit ''NO_PROXY entries must not include a URL scheme'')
      else if ol_net lib entry \<noteq> None then Inr ()
      else if starts_with (lit ''['') entry then validate_bracketed_ipv6_no_proxy entry
      else if 47 \<in> set entry then Inl (lit ''invalid NO_PROXY CIDR entry'')
      else if 58 \<in> set entry
      then (case rsplit_once 58 entry of
              None \<Rightarrow> Inl (lit ''invalid NO_PROXY entry'')
            | Some (host, port) \<Rightarrow>
                if 58 \<in> set host
                then Inl (lit ''IPv6 NO_PROXY entries with ports must use brackets'')
                else (case validate_hostname_no_proxy host of
                    Inl e \<Rightarrow> Inl e
                  | Inr _ \<Rightarrow> validate_no_proxy_port port))
      else validate_hostname_no_proxy entry)"

fun validate_entries :: "'n outbound_libs \<Rightarrow> str list \<Rightarrow> str + unit" where
  "validate_entries lib [] = Inr ()"
| "validate_entries lib (e # es) =
     (case validate_no_proxy_entry lib e of Inl err \<Rightarrow> Inl err | Inr _ \<Rightarrow> validate_entries lib es)"

definition validate_no_proxy :: "'n outbound_libs \<Rightarrow> str \<Rightarrow> str + unit" where
  "validate_no_proxy lib raw = validate_entries lib (comma_entries raw)"

section \<open>The proxy URL\<close>

definition default_port :: "ProxyKind \<Rightarrow> nat" where
  "default_port kind = (case kind of Http \<Rightarrow> 80 | Socks5 _ \<Rightarrow> 1080)"

definition decode_required_userinfo :: "'n outbound_libs \<Rightarrow> str \<Rightarrow> str + str" where
  "decode_required_userinfo lib value =
     (case ol_percent lib value of
        Some v \<Rightarrow> Inr v
      | None \<Rightarrow> Inl (lit ''proxy URL userinfo is not valid UTF-8''))"

definition decode_userinfo :: "'n outbound_libs \<Rightarrow> str \<Rightarrow> str + str option" where
  "decode_userinfo lib value =
     (if value = [] then Inr None
      else case decode_required_userinfo lib value of Inl e \<Rightarrow> Inl e | Inr v \<Rightarrow> Inr (Some v))"

definition decode_password :: "'n outbound_libs \<Rightarrow> str option \<Rightarrow> str + str option" where
  "decode_password lib password =
     (case password of
        None \<Rightarrow> Inr None
      | Some p \<Rightarrow>
          (case decode_required_userinfo lib p of Inl e \<Rightarrow> Inl e | Inr v \<Rightarrow> Inr (Some v)))"

definition validate_proxy_url_shape :: "url \<Rightarrow> str + unit" where
  "validate_proxy_url_shape u =
     (if \<not> (url_path u = [] \<or> url_path u = lit ''/'') \<or> url_query u \<noteq> None \<or> url_fragment u \<noteq> None
      then Inl (lit ''outbound proxy URL must not include a path, query string or fragment'')
      else Inr ())"

definition proxy_kind :: "str \<Rightarrow> str + ProxyKind" where
  "proxy_kind scheme =
     (let s = to_ascii_lowercase scheme
      in if s = lit ''http'' then Inr Http
         else if s = lit ''socks5'' then Inr (Socks5 False)
         else if s = lit ''socks5h'' then Inr (Socks5 True)
         else if s = lit ''https''
         then Inl (lit ''HTTPS outbound proxy URLs are not supported; use an http:// CONNECT proxy'')
         else Inl (lit ''unsupported outbound proxy scheme: '' @ s))"

definition result_bind :: "'e + 'a \<Rightarrow> ('a \<Rightarrow> 'e + 'b) \<Rightarrow> 'e + 'b" where
  "result_bind r f = (case r of Inl e \<Rightarrow> Inl e | Inr x \<Rightarrow> f x)"

definition parse_proxy :: "'n outbound_libs \<Rightarrow> str \<Rightarrow> str + ProxyConfig" where
  "parse_proxy lib raw =
     (case ol_url lib raw of
        None \<Rightarrow> Inl (lit ''invalid outbound proxy URL'')
      | Some u \<Rightarrow>
          result_bind (validate_proxy_url_shape u) (\<lambda>_.
          result_bind (proxy_kind (url_scheme u)) (\<lambda>kind.
          case url_host u of
            None \<Rightarrow> Inl (lit ''outbound proxy URL must include a host'')
          | Some host \<Rightarrow>
              (let port = (case url_port u of Some p \<Rightarrow> p | None \<Rightarrow> default_port kind)
               in result_bind (decode_userinfo lib (url_username u)) (\<lambda>username.
                  result_bind (decode_password lib (url_password u)) (\<lambda>password.
                  if username = None \<and> password \<noteq> None
                  then Inl (lit ''proxy URL password requires a username'')
                  else Inr \<lparr>px_kind = kind, px_host = host, px_port = port,
                            px_username = username, px_password = password\<rparr>))))))"

definition authority :: "str \<Rightarrow> nat \<Rightarrow> str" where
  "authority host port =
     (if 58 \<in> set host \<and> \<not> starts_with (lit ''['') host
      then lit ''['' @ host @ lit '']:'' @ show_nat port
      else host @ lit '':'' @ show_nat port)"

definition proxy_summary :: "ProxyConfig \<Rightarrow> str" where
  "proxy_summary p =
     (let scheme = (case px_kind p of
                      Http \<Rightarrow> lit ''http''
                    | Socks5 remote \<Rightarrow> if remote then lit ''socks5h'' else lit ''socks5'');
          auth = authority (px_host p) (px_port p)
      in if px_username p \<noteq> None then scheme @ lit ''://user:***@'' @ auth
         else scheme @ lit ''://'' @ auth)"

section \<open>Sources of the configuration\<close>

definition is_direct_marker :: "str \<Rightarrow> bool" where
  "is_direct_marker value \<longleftrightarrow>
     to_ascii_lowercase (trim value) \<in> {lit ''direct'', lit ''none'', lit ''off''}"

text \<open>The loop over the variables, with the first error seen so far.\<close>

fun env_proxy_loop ::
    "'n outbound_libs \<Rightarrow> str option \<Rightarrow> (str \<times> str option) list \<Rightarrow> str + ProxyConfig option" where
  "env_proxy_loop lib first_error [] =
     (case first_error of
        Some err \<Rightarrow> Inl (lit ''no supported outbound proxy URL found in environment ('' @ err @ lit '')'')
      | None \<Rightarrow> Inr None)"
| "env_proxy_loop lib first_error ((name, None) # vs) = env_proxy_loop lib first_error vs"
| "env_proxy_loop lib first_error ((name, Some value) # vs) =
     (let value = trim value
      in if value = [] then env_proxy_loop lib first_error vs
         else if is_direct_marker value then Inr None
         else case parse_proxy lib value of
             Inr proxy \<Rightarrow> Inr (Some proxy)
           | Inl err \<Rightarrow>
               env_proxy_loop lib
                 (case first_error of
                    Some e \<Rightarrow> Some e
                  | None \<Rightarrow> Some (name @ lit '': '' @ err)) vs)"

definition select_env_proxy ::
    "'n outbound_libs \<Rightarrow> (str \<times> str option) list \<Rightarrow> str + ProxyConfig option" where
  "select_env_proxy lib values = env_proxy_loop lib None values"

definition PROXY_VARIABLES :: "str list" where
  "PROXY_VARIABLES =
     [lit ''HTTPS_PROXY'', lit ''https_proxy'', lit ''ALL_PROXY'', lit ''all_proxy'',
      lit ''HTTP_PROXY'', lit ''http_proxy'']"

definition select_proxy ::
    "'n outbound_libs \<Rightarrow> str option \<Rightarrow> bool \<Rightarrow> (str \<Rightarrow> str option) \<Rightarrow> str + ProxyConfig option" where
  "select_proxy lib explicit use_env env_get =
     (let value = (case explicit of Some v \<Rightarrow> trim v | None \<Rightarrow> [])
      in if value \<noteq> []
         then (if is_direct_marker value then Inr None
               else result_bind (parse_proxy lib value) (\<lambda>p. Inr (Some p)))
         else if \<not> use_env then Inr None
         else select_env_proxy lib (map (\<lambda>name. (name, env_get name)) PROXY_VARIABLES))"

fun first_non_empty :: "str option list \<Rightarrow> str option" where
  "first_non_empty [] = None"
| "first_non_empty (None # vs) = first_non_empty vs"
| "first_non_empty (Some v # vs) = (if trim v \<noteq> [] then Some (trim v) else first_non_empty vs)"

definition select_no_proxy :: "str option \<Rightarrow> bool \<Rightarrow> (str \<Rightarrow> str option) \<Rightarrow> str option" where
  "select_no_proxy explicit use_env env_get =
     (case explicit of
        Some value \<Rightarrow> Some (trim value)
      | None \<Rightarrow>
          if \<not> use_env then None
          else first_non_empty [env_get (lit ''NO_PROXY''), env_get (lit ''no_proxy'')])"

definition bypass_list ::
    "'n outbound_libs \<Rightarrow> str option \<Rightarrow> (str + 'n NoProxyMatcher list option) exec" where
  "bypass_list lib source =
     (case source of
        None \<Rightarrow> Ret (Inr None)
      | Some raw \<Rightarrow>
          if raw = [] then Ret (Inr None)
          else case validate_no_proxy lib raw of
              Inl e \<Rightarrow> Ret (Inl e)
            | Inr _ \<Rightarrow> exec_bind (from_validated lib raw) (\<lambda>ms. Ret (Inr (Some ms))))"

definition from_sources_with_env ::
    "'n outbound_libs \<Rightarrow> str option \<Rightarrow> str option \<Rightarrow> bool \<Rightarrow> (str \<Rightarrow> str option) \<Rightarrow>
     (str + 'n OutboundConfig) exec" where
  "from_sources_with_env lib outbound_proxy no_proxy use_env env_get =
     (case select_proxy lib outbound_proxy use_env env_get of
        Inl e \<Rightarrow> Ret (Inl e)
      | Inr None \<Rightarrow> Ret (Inr \<lparr>oc_proxy = None, oc_no_proxy = None\<rparr>)
      | Inr (Some proxy) \<Rightarrow>
          exec_bind (bypass_list lib (select_no_proxy no_proxy use_env env_get))
            (\<lambda>r. Ret (result_bind r
               (\<lambda>ms. Inr \<lparr>oc_proxy = Some proxy, oc_no_proxy = ms\<rparr>))))"

section \<open>The connector\<close>

record OutboundError =
  oe_reason :: str
  oe_timed_out :: bool

datatype TargetAddr = TargetIp IpAddr nat | TargetDomain str nat

type_synonym credentials = "(str \<times> str) option"

text \<open>
  The operations of the network the connector awaits: a TCP connect, a CONNECT request on an
  open stream, a SOCKS5 connection, and a name lookup. An answer is missing when the deadline
  of the surrounding timeout passes first.
\<close>

record 'w outbound_net =
  on_tcp :: "str \<Rightarrow> nat \<Rightarrow> 'w \<Rightarrow> (str + nat) option \<times> 'w"
  on_http :: "nat \<Rightarrow> str \<Rightarrow> nat \<Rightarrow> credentials \<Rightarrow> 'w \<Rightarrow> (str + unit) option \<times> 'w"
  on_socks :: "str \<Rightarrow> nat \<Rightarrow> TargetAddr \<Rightarrow> credentials \<Rightarrow> 'w \<Rightarrow> (str + nat) option \<times> 'w"
  on_lookup :: "str \<Rightarrow> nat \<Rightarrow> 'w \<Rightarrow> (str + (IpAddr \<times> nat) list) option \<times> 'w"

datatype net_op =
    TcpConnect str nat
  | HttpConnect nat str nat credentials
  | SocksConnect str nat TargetAddr credentials
  | LookupHost str nat

text \<open>A future: its result (\<open>None\<close> when cut off), the operations it has begun, and the world.\<close>

type_synonym ('w, 'a) dialing = "'w \<Rightarrow> (str + 'a) option \<times> net_op list \<times> 'w"

definition await :: "net_op \<Rightarrow> ('w \<Rightarrow> (str + 'a) option \<times> 'w) \<Rightarrow> ('w, 'a) dialing" where
  "await op f w = (let (r, w) = f w in (r, [op], w))"

definition dial_return :: "str + 'a \<Rightarrow> ('w, 'a) dialing" where
  "dial_return r w = (Some r, [], w)"

definition dial_bind :: "('w, 'a) dialing \<Rightarrow> ('a \<Rightarrow> ('w, 'b) dialing) \<Rightarrow> ('w, 'b) dialing" where
  "dial_bind m f w =
     (case m w of
        (None, ops, w) \<Rightarrow> (None, ops, w)
      | (Some (Inl e), ops, w) \<Rightarrow> (Some (Inl e), ops, w)
      | (Some (Inr x), ops, w) \<Rightarrow> (let (r, ops', w) = f x w in (r, ops @ ops', w)))"

definition dial_map_err :: "(str \<Rightarrow> str) \<Rightarrow> ('w, 'a) dialing \<Rightarrow> ('w, 'a) dialing" where
  "dial_map_err g m w =
     (case m w of (Some (Inl e), ops, w) \<Rightarrow> (Some (Inl (g e)), ops, w) | r \<Rightarrow> r)"

definition connect_tcp :: "'w outbound_net \<Rightarrow> str \<Rightarrow> nat \<Rightarrow> ('w, nat) dialing" where
  "connect_tcp net host port =
     dial_map_err (\<lambda>e. lit ''TCP connect: '' @ e) (await (TcpConnect host port) (on_tcp net host port))"

definition proxy_auth :: "ProxyConfig \<Rightarrow> credentials" where
  "proxy_auth p =
     (case px_username p of
        None \<Rightarrow> None
      | Some u \<Rightarrow> Some (u, case px_password p of Some pw \<Rightarrow> pw | None \<Rightarrow> []))"

definition connect_http_proxy ::
    "'w outbound_net \<Rightarrow> ProxyConfig \<Rightarrow> str \<Rightarrow> nat \<Rightarrow> ('w, nat) dialing" where
  "connect_http_proxy net p target_host target_port =
     dial_bind (connect_tcp net (px_host p) (px_port p)) (\<lambda>stream.
       let target_host = (if 58 \<in> set target_host \<and> \<not> starts_with (lit ''['') target_host
                          then lit ''['' @ target_host @ lit '']'' else target_host)
       in dial_bind (await (HttpConnect stream target_host target_port (proxy_auth p))
                       (on_http net stream target_host target_port (proxy_auth p)))
            (\<lambda>_. dial_return (Inr stream)))"

definition socks5_target :: "'w outbound_net \<Rightarrow> str \<Rightarrow> nat \<Rightarrow> bool \<Rightarrow> ('w, TargetAddr) dialing" where
  "socks5_target net host port remote =
     (if remote
      then dial_return (Inr (case parse_ip host of
                               Some ip \<Rightarrow> TargetIp ip port
                             | None \<Rightarrow> TargetDomain host port))
      else dial_bind
             (dial_map_err (\<lambda>e. lit ''SOCKS5 local DNS lookup: '' @ e)
                (await (LookupHost host port) (on_lookup net host port)))
             (\<lambda>addrs. dial_return
                (case addrs of
                   (ip, q) # _ \<Rightarrow> Inr (TargetIp ip q)
                 | [] \<Rightarrow> Inl (lit ''SOCKS5 local DNS lookup returned no addresses''))))"

definition connect_socks5_proxy ::
    "'w outbound_net \<Rightarrow> ProxyConfig \<Rightarrow> str \<Rightarrow> nat \<Rightarrow> bool \<Rightarrow> ('w, nat) dialing" where
  "connect_socks5_proxy net p target_host target_port remote =
     dial_bind (socks5_target net target_host target_port remote) (\<lambda>target.
       await (SocksConnect (px_host p) (px_port p) target (proxy_auth p))
         (on_socks net (px_host p) (px_port p) target (proxy_auth p)))"

definition connect_via_proxy ::
    "'w outbound_net \<Rightarrow> ProxyConfig \<Rightarrow> str \<Rightarrow> nat \<Rightarrow> ('w, nat) dialing" where
  "connect_via_proxy net p target_host target_port =
     (case px_kind p of
        Http \<Rightarrow>
          dial_map_err (\<lambda>e. lit ''HTTP proxy '' @ proxy_summary p @ lit '': '' @ e)
            (connect_http_proxy net p target_host target_port)
      | Socks5 remote \<Rightarrow>
          dial_map_err (\<lambda>e. lit ''SOCKS5 proxy '' @ proxy_summary p @ lit '': '' @ e)
            (connect_socks5_proxy net p target_host target_port remote))"

text \<open>\<open>tokio::time::timeout\<close> around a future, with the reason given when it elapses.\<close>

definition with_timeout ::
    "str \<Rightarrow> ('w, 'a) dialing \<Rightarrow> 'w \<Rightarrow> (OutboundError + 'a) \<times> net_op list \<times> 'w" where
  "with_timeout reason m w =
     (case m w of
        (None, ops, w) \<Rightarrow> (Inl \<lparr>oe_reason = reason, oe_timed_out = True\<rparr>, ops, w)
      | (Some (Inl e), ops, w) \<Rightarrow> (Inl \<lparr>oe_reason = e, oe_timed_out = False\<rparr>, ops, w)
      | (Some (Inr x), ops, w) \<Rightarrow> (Inr x, ops, w))"

definition connect_direct ::
    "'w outbound_net \<Rightarrow> str \<Rightarrow> nat \<Rightarrow> 'w \<Rightarrow> (OutboundError + nat) \<times> net_op list \<times> 'w" where
  "connect_direct net host port = with_timeout (lit ''TCP connect timed out'') (connect_tcp net host port)"

definition direct_connector :: "'n OutboundConfig" where
  "direct_connector = \<lparr>oc_proxy = None, oc_no_proxy = None\<rparr>"

definition connector_summary :: "'n OutboundConfig \<Rightarrow> str option" where
  "connector_summary c = map_option proxy_summary (oc_proxy c)"

definition should_bypass :: "'n outbound_libs \<Rightarrow> 'n OutboundConfig \<Rightarrow> str \<Rightarrow> nat \<Rightarrow> bool" where
  "should_bypass lib c target_host target_port =
     (case oc_no_proxy c of
        None \<Rightarrow> False
      | Some ms \<Rightarrow> no_proxy_matches lib ms target_host target_port)"

definition connects_directly :: "'n outbound_libs \<Rightarrow> 'n OutboundConfig \<Rightarrow> str \<Rightarrow> nat \<Rightarrow> bool" where
  "connects_directly lib c target_host target_port \<longleftrightarrow>
     oc_proxy c = None \<or> should_bypass lib c target_host target_port"

definition connect ::
    "'n outbound_libs \<Rightarrow> 'w outbound_net \<Rightarrow> 'n OutboundConfig \<Rightarrow> str \<Rightarrow> nat \<Rightarrow> 'w \<Rightarrow>
     (OutboundError + nat) \<times> net_op list \<times> 'w" where
  "connect lib net c target_host target_port w =
     (case oc_proxy c of
        None \<Rightarrow> connect_direct net target_host target_port w
      | Some p \<Rightarrow>
          if should_bypass lib c target_host target_port
          then connect_direct net target_host target_port w
          else with_timeout (lit ''proxy '' @ proxy_summary p @ lit '' handshake timed out'')
                 (connect_via_proxy net p target_host target_port) w)"

section \<open>Host names\<close>

lemma utf8_encode_append [simp]: "utf8_encode (a @ b) = utf8_encode a @ utf8_encode b"
  by (simp add: utf8_encode_def)

lemma utf8_encode_Cons [simp]: "utf8_encode (c # s) = utf8_char c @ utf8_encode s"
  by (simp add: utf8_encode_def)

lemma utf8_encode_Nil [simp]: "utf8_encode [] = []"
  by (simp add: utf8_encode_def)

lemma utf8_char_length: "0 < length (utf8_char c)"
  by (simp add: utf8_char_def)

lemma str_get_from_Some:
  "str_get_from s n = Some t \<longleftrightarrow> (\<exists>q. s = q @ t \<and> length (utf8_encode q) = n)"
proof (induction s n rule: str_get_from.induct)
  case (1 s)
  have "length (utf8_encode q) = 0 \<longleftrightarrow> q = []" for q
    using utf8_char_length by (cases q) auto
  then show ?case by auto
next
  case (3 c cs n)
  have "(\<exists>q. c # cs = q @ t \<and> length (utf8_encode q) = Suc n) \<longleftrightarrow>
    (\<exists>q. cs = q @ t \<and> length (utf8_char c) + length (utf8_encode q) = Suc n)"
    by (metis (no_types, lifting) Cons_eq_append_conv Zero_not_Suc append_Cons length_append
        list.size(3) utf8_encode_Cons utf8_encode_Nil)
  also have "\<dots> \<longleftrightarrow> str_get_from (c # cs) (Suc n) = Some t"
    using 3 [OF refl] by (auto simp: Let_def)
  finally show ?case by simp
qed simp

text \<open>The last byte of a character is a dot only if the character is.\<close>

lemma length_byte: "2 ^ LENGTH(8) = (256 :: nat)"
  by simp

lemma word8_nat_eq: "n < 256 \<Longrightarrow> m < 256 \<Longrightarrow> (word_of_nat n :: byte) = word_of_nat m \<longleftrightarrow> n = m"
  by (metis mod_less unat_of_nat length_byte)

lemma utf8_char_dot: "last (utf8_char c) = 46 \<longleftrightarrow> c = 46"
proof -
  have m: "128 + c mod 64 < 256" by (simp add: order.strict_trans [OF mod_less_divisor])
  have "word_of_nat (128 + c mod 64) \<noteq> (46 :: byte)"
    using word8_nat_eq [OF m, of 46] by simp
  moreover have "c < 128 \<Longrightarrow> word_of_nat c = (46 :: byte) \<longleftrightarrow> c = 46"
    using word8_nat_eq [of c 46] by simp
  ultimately show ?thesis by (simp add: utf8_char_def)
qed

lemma utf8_encode_last:
  assumes "q \<noteq> []"
  shows "utf8_encode q ! (length (utf8_encode q) - 1) = last (utf8_char (last q))"
proof -
  have "q = butlast q @ [last q]" using assms by simp
  then have e: "utf8_encode q = utf8_encode (butlast q) @ utf8_char (last q)"
    by (metis append.right_neutral utf8_encode_Cons utf8_encode_Nil utf8_encode_append)
  have "utf8_char (last q) \<noteq> []" using utf8_char_length by auto
  then have "last (utf8_encode q) = last (utf8_char (last q))" "utf8_encode q \<noteq> []"
    by (simp_all add: e)
  then show ?thesis by (simp add: last_conv_nth)
qed

lemma utf8_length_lower: "length (utf8_char (ascii_lower c)) = length (utf8_char c)"
  by (simp add: ascii_lower_def utf8_char_def)

lemma eq_ignore_case_length:
  assumes "eq_ignore_ascii_case a b"
  shows "length (utf8_encode a) = length (utf8_encode b)"
proof -
  have "length (utf8_encode s) = length (utf8_encode (to_ascii_lowercase s))" for s
    by (induction s) (simp_all add: to_ascii_lowercase_def utf8_length_lower)
  then show ?thesis using assms by (metis eq_ignore_ascii_case_def)
qed

text \<open>What a name of the list means: the host itself where asked for, and every host below it.\<close>

definition below_domain :: "str \<Rightarrow> str \<Rightarrow> bool" where
  "below_domain host domain \<longleftrightarrow> (\<exists>sub t. host = sub @ 46 # t \<and> eq_ignore_ascii_case t domain)"

lemma host_matches_iff:
  "host_matches host suffix apex \<longleftrightarrow> apex \<and> eq_ignore_ascii_case host suffix \<or> below_domain host suffix"
proof -
  have below: "below_domain host suffix" if start: "str_get_from host n = Some t" "0 < n"
    "utf8_encode host ! (n - 1) = 46" "eq_ignore_ascii_case t suffix" for n t
  proof -
    obtain q where q: "host = q @ t" "length (utf8_encode q) = n"
      using start(1) by (auto simp: str_get_from_Some)
    then have ne: "q \<noteq> []" using start(2) by auto
    have "utf8_encode q ! (n - 1) = 46" using q start(2,3) by (simp add: nth_append)
    then have "last q = 46" using utf8_encode_last [OF ne] q utf8_char_dot by simp
    then have "host = butlast q @ 46 # t" using q ne by (metis append.assoc append_Cons append_Nil append_butlast_last_id)
    then show ?thesis using start(4) by (auto simp: below_domain_def)
  qed
  have matches: "host_matches host suffix apex" if below: "below_domain host suffix"
  proof -
    obtain q t where q: "host = q @ 46 # t" and t: "eq_ignore_ascii_case t suffix"
      using below by (auto simp: below_domain_def)
    have dot: "utf8_char 46 = [46]" by (simp add: utf8_char_def)
    have "str_get_from host (Suc (length (utf8_encode q))) = Some t"
      unfolding str_get_from_Some using q dot by (intro exI [of _ "q @ [46]"]) simp
    then show ?thesis
      using q t dot eq_ignore_case_length [OF t]
      by (simp add: host_matches_def Let_def nth_append)
  qed
  show ?thesis
  proof
    assume "host_matches host suffix apex"
    then show "apex \<and> eq_ignore_ascii_case host suffix \<or> below_domain host suffix"
      using below [of "length (utf8_encode host) - length (utf8_encode suffix)"]
      by (auto simp: host_matches_def Let_def split: if_splits option.splits)
  next
    assume "apex \<and> eq_ignore_ascii_case host suffix \<or> below_domain host suffix"
    then show "host_matches host suffix apex"
      by (rule disjE) (simp add: host_matches_def, erule matches)
  qed
qed

section \<open>Validated lists never panic\<close>

lemma validated_port: "validate_no_proxy_port port = Inr u \<Longrightarrow> \<exists>p. expect_port port = Ret p"
  by (auto simp: validate_no_proxy_port_def expect_port_def split: if_splits)

lemma validated_bracketed:
  assumes "validate_bracketed_ipv6_no_proxy entry = Inr u" and "starts_with (lit ''['') entry"
  shows "\<exists>hp. entry_host_port entry = Ret hp"
proof -
  obtain b where e: "entry = 91 # b" using assms(2)
    by (cases entry) (auto simp: starts_with_def lit_def)
  obtain front rest where b: "split_once 93 b = Some (front, rest)"
    using assms(1) e by (auto simp: validate_bracketed_ipv6_no_proxy_def split: option.splits)
  have "rest = [] \<or> (\<exists>port. strip_prefix (lit '':'') rest = Some port \<and> (\<exists>p. expect_port port = Ret p))"
    using assms(1) e b
    by (auto simp: validate_bracketed_ipv6_no_proxy_def dest: validated_port
        split: option.splits if_splits)
  moreover have "strip_prefix (lit ''['') entry = Some b" "strip_prefix (lit '':'') [] = None"
    by (simp_all add: e strip_prefix_def starts_with_def lit_def)
  ultimately show ?thesis using b by (auto simp: entry_host_port_def)
qed

lemma validated_entry:
  assumes "validate_no_proxy_entry lib entry = Inr u"
  shows "\<exists>m. parse_no_proxy_matcher lib entry = Ret m"
proof (cases "entry = lit ''*'' \<or> ol_net lib entry \<noteq> None")
  case True
  then show ?thesis by (auto simp: parse_no_proxy_matcher_def)
next
  case False
  have "\<exists>hp. entry_host_port entry = Ret hp"
  proof (cases "starts_with (lit ''['') entry")
    case True
    then show ?thesis using assms False validated_bracketed
      by (auto simp: validate_no_proxy_entry_def split: if_splits)
  next
    case plain: False
    have "\<exists>p. expect_port port = Ret p" if "rsplit_once 58 entry = Some (host, port)" "58 \<in> set entry" for host port
      using assms False plain that validated_port
      by (auto simp: validate_no_proxy_entry_def split: if_splits sum.splits)
    moreover have "rsplit_once 58 entry \<noteq> None" if "58 \<in> set entry"
      using that by (auto simp: rsplit_once_def split: option.splits)
    ultimately show ?thesis using plain
      by (fastforce simp: entry_host_port_def strip_prefix_def split: option.splits)
  qed
  then show ?thesis using False by (auto simp: parse_no_proxy_matcher_def)
qed

lemma validated_entries: "validate_entries lib es = Inr u \<Longrightarrow> \<exists>ms. parse_matchers lib es = Ret ms"
proof (induction es)
  case (Cons e es)
  then obtain m ms where "parse_no_proxy_matcher lib e = Ret m" "parse_matchers lib es = Ret ms"
    using validated_entry [of lib e] by (auto split: sum.splits)
  then show ?case by simp
qed simp

lemma bypass_list_returns: "\<exists>r. bypass_list lib source = Ret r"
  using validated_entries [of lib "comma_entries (the source)"]
  by (auto simp: bypass_list_def validate_no_proxy_def from_validated_def
      split: option.splits sum.splits)

text \<open>Which value of the environment decides.\<close>

definition undecided :: "'n outbound_libs \<Rightarrow> str option \<Rightarrow> bool" where
  "undecided lib value \<longleftrightarrow>
     (case value of
        None \<Rightarrow> True
      | Some v \<Rightarrow> trim v = [] \<or> \<not> is_direct_marker (trim v) \<and> (\<exists>e. parse_proxy lib (trim v) = Inl e))"

definition decides :: "'n outbound_libs \<Rightarrow> str option \<Rightarrow> ProxyConfig option \<Rightarrow> bool" where
  "decides lib value proxy \<longleftrightarrow>
     (case value of
        None \<Rightarrow> False
      | Some v \<Rightarrow>
          trim v \<noteq> [] \<and>
          (if is_direct_marker (trim v) then proxy = None
           else \<exists>p. parse_proxy lib (trim v) = Inr p \<and> proxy = Some p))"

definition unset :: "str option \<Rightarrow> bool" where
  "unset value \<longleftrightarrow> (case value of None \<Rightarrow> True | Some v \<Rightarrow> trim v = [])"

lemma env_proxy_loop_skips:
  assumes "list_all (undecided lib \<circ> snd) pre"
  shows "\<exists>err'. env_proxy_loop lib err (pre @ vs) = env_proxy_loop lib err' vs \<and>
    (err' = None \<longleftrightarrow> err = None \<and> list_all (unset \<circ> snd) pre)"
  using assms
proof (induction lib err pre rule: env_proxy_loop.induct)
  case (1 lib err)
  then show ?case by auto
next
  case (2 lib err name vs')
  then show ?case by (simp add: unset_def)
next
  case (3 lib err name v vs')
  then show ?case
    by (auto simp: undecided_def unset_def Let_def split: option.splits)
qed

lemma undecided_or_decides: "undecided lib v \<or> (\<exists>proxy. decides lib v proxy)"
proof (cases v)
  case (Some w)
  then show ?thesis
    by (cases "parse_proxy lib (trim w)") (auto simp: undecided_def decides_def)
qed (simp add: undecided_def)

lemma env_proxy_loop_decides:
  "decides lib v proxy \<Longrightarrow> env_proxy_loop lib err ((name, v) # vs) = Inr proxy"
  by (auto simp: decides_def split: option.splits if_splits)

lemma decided_split:
  "list_all (undecided lib \<circ> snd) vs \<or>
   (\<exists>pre name v post proxy. vs = pre @ (name, v) # post \<and> list_all (undecided lib \<circ> snd) pre \<and>
      decides lib v proxy)"
proof (induction vs)
  case (Cons x vs)
  obtain name v where x: "x = (name, v)" by (cases x)
  show ?case
  proof (cases "undecided lib v")
    case True
    from Cons show ?thesis
    proof
      assume "list_all (undecided lib \<circ> snd) vs"
      then show ?thesis using True x by (intro disjI1) (simp add: comp_def)
    next
      assume "\<exists>pre name v post proxy. vs = pre @ (name, v) # post \<and>
        list_all (undecided lib \<circ> snd) pre \<and> decides lib v proxy"
      then obtain pre n w post proxy where "vs = pre @ (n, w) # post"
        "list_all (undecided lib \<circ> snd) pre" "decides lib w proxy" by blast
      then have "x # vs = (x # pre) @ (n, w) # post" "list_all (undecided lib \<circ> snd) (x # pre)"
        "decides lib w proxy" using True x by simp_all
      then show ?thesis by blast
    qed
  next
    case False
    then obtain proxy where "decides lib v proxy" using undecided_or_decides by blast
    then have "x # vs = [] @ (name, v) # vs" "list_all (undecided lib \<circ> snd) []" "decides lib v proxy"
      using x by simp_all
    then show ?thesis by blast
  qed
qed simp

lemma select_env_proxy_iff:
  "select_env_proxy lib vs = Inr proxy \<longleftrightarrow>
     proxy = None \<and> list_all (unset \<circ> snd) vs \<or>
     (\<exists>pre name v post. vs = pre @ (name, v) # post \<and> list_all (undecided lib \<circ> snd) pre \<and>
        decides lib v proxy)"
  (is "?l \<longleftrightarrow> ?unset \<or> ?decided")
proof
  assume l: ?l
  from decided_split [of lib vs] show "?unset \<or> ?decided"
  proof
    assume "list_all (undecided lib \<circ> snd) vs"
    from env_proxy_loop_skips [OF this, of None "[]"] l have ?unset
      by (auto simp: select_env_proxy_def split: option.splits)
    then show ?thesis ..
  next
    assume "\<exists>pre name v post proxy. vs = pre @ (name, v) # post \<and>
      list_all (undecided lib \<circ> snd) pre \<and> decides lib v proxy"
    then obtain pre name v post q where d: "vs = pre @ (name, v) # post"
      "list_all (undecided lib \<circ> snd) pre" "decides lib v q" by blast
    then have "q = proxy"
      using l env_proxy_loop_skips [OF d(2), of None "(name, v) # post"] env_proxy_loop_decides [OF d(3)]
      by (auto simp: select_env_proxy_def)
    then show ?thesis using d by blast
  qed
next
  assume "?unset \<or> ?decided"
  then show ?l
  proof
    assume u: ?unset
    then have "list_all (undecided lib \<circ> snd) vs"
      by (auto simp: list_all_iff undecided_def unset_def split: option.splits)
    from env_proxy_loop_skips [OF this, of None "[]"] u show ?l
      by (simp add: select_env_proxy_def)
  next
    assume ?decided
    then obtain pre name v post where d: "vs = pre @ (name, v) # post"
      "list_all (undecided lib \<circ> snd) pre" "decides lib v proxy" by blast
    then show ?l
      using env_proxy_loop_skips [OF d(2), of None "(name, v) # post"] env_proxy_loop_decides [OF d(3)]
      by (auto simp: select_env_proxy_def)
  qed
qed

text \<open>
  C39: The outbound settings are total and follow the documented order. Whatever the options,
  the environment and the libraries answer, reading the settings returns a configuration or an
  error and never hits one of the \<open>expect\<close> calls on the bypass list. Among the variables,
  the first value that is a direct marker or a supported proxy URL decides, unsupported ones
  before it are passed over, and without such a value there is no proxy exactly when every
  variable is unset or blank.\<close>

theorem outbound_sources_total:
  "(\<exists>r. from_sources_with_env lib outbound_proxy no_proxy use_env env_get = Ret r) \<and>
   (select_env_proxy lib vs = Inr proxy \<longleftrightarrow>
      proxy = None \<and> list_all (unset \<circ> snd) vs \<or>
      (\<exists>pre name v post. vs = pre @ (name, v) # post \<and> list_all (undecided lib \<circ> snd) pre \<and>
         decides lib v proxy))"
proof
  obtain r where "bypass_list lib (select_no_proxy no_proxy use_env env_get) = Ret r"
    using bypass_list_returns by blast
  then show "\<exists>r. from_sources_with_env lib outbound_proxy no_proxy use_env env_get = Ret r"
    by (auto simp: from_sources_with_env_def split: sum.splits option.splits)
qed (rule select_env_proxy_iff)

section \<open>The documented forms of the bypass list\<close>

text \<open>
  The entries that the manual describes, as data: any host, a network in CIDR form, an IPv4 or
  a bracketed IPv6 address, a domain, and the subdomains of a domain (written with \<open>*.\<close>
  or with a dot), the last four with an optional port.
\<close>

datatype bypass_rule =
    AnyHost
  | Subnet str
  | V4Rule "nat list" "nat option"
  | V6Rule str "nat option"
  | Domain str "nat option"
  | Subdomains bool str "nat option"

fun show_port :: "nat option \<Rightarrow> str" where
  "show_port None = []"
| "show_port (Some p) = 58 # show_nat p"

fun show_rule :: "bypass_rule \<Rightarrow> str" where
  "show_rule AnyHost = lit ''*''"
| "show_rule (Subnet s) = s"
| "show_rule (V4Rule os p) = show_ipv4 os @ show_port p"
| "show_rule (V6Rule t p) = 91 # t @ 93 # show_port p"
| "show_rule (Domain d p) = d @ show_port p"
| "show_rule (Subdomains star d p) = (if star then lit ''*.'' else lit ''.'') @ d @ show_port p"

fun show_rules :: "bypass_rule list \<Rightarrow> str" where
  "show_rules [] = []"
| "show_rules [r] = show_rule r"
| "show_rules (r # rs) = show_rule r @ 44 # show_rules rs"

definition entry_char :: "nat \<Rightarrow> bool" where
  "entry_char c \<longleftrightarrow> c \<noteq> 44 \<and> \<not> is_whitespace c"

fun port_ok :: "nat option \<Rightarrow> bool" where
  "port_ok None \<longleftrightarrow> True"
| "port_ok (Some p) \<longleftrightarrow> 0 < p \<and> p \<le> 65535"

definition domain_ok :: "str \<Rightarrow> bool" where
  "domain_ok d \<longleftrightarrow> list_all label_ok (split_at (\<lambda>c. c = 46) d)"

fun rule_ok :: "'n outbound_libs \<Rightarrow> bypass_rule \<Rightarrow> bool" where
  "rule_ok lib AnyHost \<longleftrightarrow> True"
| "rule_ok lib (Subnet s) \<longleftrightarrow>
     ol_net lib s \<noteq> None \<and> s \<noteq> [] \<and> s \<noteq> lit ''*'' \<and> list_all entry_char s \<and>
     \<not> contains_str (lit ''://'') s"
| "rule_ok lib (V4Rule os p) \<longleftrightarrow> length os = 4 \<and> list_all (\<lambda>b. b < 256) os \<and> port_ok p"
| "rule_ok lib (V6Rule t p) \<longleftrightarrow>
     parse_ipv6 t \<noteq> None \<and> list_all (\<lambda>c. hex_digit_value c \<noteq> None \<or> c = 58 \<or> c = 46) t \<and> port_ok p"
| "rule_ok lib (Domain d p) \<longleftrightarrow> domain_ok d \<and> parse_ip d = None \<and> port_ok p"
| "rule_ok lib (Subdomains star d p) \<longleftrightarrow> domain_ok d \<and> port_ok p"

definition port_applies :: "nat option \<Rightarrow> nat \<Rightarrow> bool" where
  "port_applies p target \<longleftrightarrow> p = None \<or> p = Some target"

fun rule_applies :: "'n outbound_libs \<Rightarrow> str \<Rightarrow> nat \<Rightarrow> bypass_rule \<Rightarrow> bool" where
  "rule_applies lib host port AnyHost \<longleftrightarrow> True"
| "rule_applies lib host port (Subnet s) \<longleftrightarrow>
     (\<exists>net ip. ol_net lib s = Some net \<and> parse_ip host = Some ip \<and> ol_contains lib net ip)"
| "rule_applies lib host port (V4Rule os p) \<longleftrightarrow> parse_ip host = Some (V4 os) \<and> port_applies p port"
| "rule_applies lib host port (V6Rule t p) \<longleftrightarrow> parse_ip host = parse_ip t \<and> port_applies p port"
| "rule_applies lib host port (Domain d p) \<longleftrightarrow>
     (eq_ignore_ascii_case host d \<or> below_domain host d) \<and> port_applies p port"
| "rule_applies lib host port (Subdomains star d p) \<longleftrightarrow> below_domain host d \<and> port_applies p port"

subsection \<open>Characters of an entry\<close>

definition name_char :: "nat \<Rightarrow> bool" where
  "name_char c \<longleftrightarrow> 48 \<le> c \<and> c \<le> 57 \<or> 65 \<le> c \<and> c \<le> 90 \<or> 97 \<le> c \<and> c \<le> 122 \<or> c = 45 \<or> c = 46"

lemma split_at_concat_chars:
  "list_all (list_all P) (split_at q s) \<Longrightarrow> list_all (\<lambda>c. P c \<or> q c) s"
  by (induction q s rule: split_at.induct) (auto split: if_splits list.splits)

lemma domain_ok_chars: "domain_ok d \<Longrightarrow> list_all name_char d"
proof -
  assume "domain_ok d"
  then have "list_all (list_all name_char) (split_at (\<lambda>c. c = 46) d)"
    by (auto simp: domain_ok_def label_ok_def name_char_def list_all_iff)
  then show ?thesis
    using split_at_concat_chars [of name_char "\<lambda>c. c = 46" d]
    by (auto simp: name_char_def list_all_iff)
qed

lemma domain_ok_nonempty: "domain_ok d \<Longrightarrow> d \<noteq> []"
  by (auto simp: domain_ok_def label_ok_def)

lemma domain_ok_no_mark: "domain_ok d \<Longrightarrow> strip_subdomain_mark d = None"
  using domain_ok_chars [of d]
  by (cases d) (auto simp: domain_ok_def label_ok_def strip_subdomain_mark_def strip_prefix_def
      starts_with_def lit_def name_char_def split: if_splits list.splits)

lemma show_nat_name: "list_all name_char (show_nat n)"
  using show_nat_digits [of n] by (auto simp: list_all_iff is_digit_char_def name_char_def)

lemma show_ipv4_name: "list_all name_char (show_ipv4 os)"
proof -
  have "name_char 46" by (simp add: name_char_def)
  then show ?thesis
    by (induction os rule: show_ipv4.induct) (simp_all add: show_nat_name lit_def)
qed

lemma name_entry_char: "name_char c \<Longrightarrow> entry_char c"
  by (auto simp: name_char_def entry_char_def is_whitespace_def)

lemma show_port_chars: "list_all (\<lambda>c. name_char c \<or> c = 58) (show_port p)"
  using show_nat_name by (cases p) (auto simp: list_all_iff)

lemma show_rule_chars:
  assumes "rule_ok lib r"
  shows "list_all entry_char (show_rule r)" and "show_rule r \<noteq> []"
proof -
  have mono: "list_all P s \<Longrightarrow> (\<And>c. P c \<Longrightarrow> entry_char c) \<Longrightarrow> list_all entry_char s" for P s
    by (auto simp: list_all_iff)
  have marks: "entry_char 42" "entry_char 46" "entry_char 58" "entry_char 91" "entry_char 93"
    by (simp_all add: entry_char_def is_whitespace_def)
  have port: "list_all entry_char (show_port p)" for p
    by (rule mono [OF show_port_chars]) (auto simp: name_entry_char marks)
  have domain: "domain_ok d \<Longrightarrow> list_all entry_char d" for d
    by (rule mono [OF domain_ok_chars]) (simp_all add: name_entry_char)
  have v4: "list_all entry_char (show_ipv4 os)" for os
    by (rule mono [OF show_ipv4_name]) (simp add: name_entry_char)
  have hex: "hex_digit_value c = Some n \<Longrightarrow> entry_char c" for c n
    by (auto simp: hex_digit_value_def entry_char_def is_whitespace_def split: if_splits)
  have v6: "list_all (\<lambda>c. hex_digit_value c \<noteq> None \<or> c = 58 \<or> c = 46) t \<Longrightarrow> list_all entry_char t" for t
    by (erule mono) (auto simp: marks hex)
  show "list_all entry_char (show_rule r)"
  proof (cases r)
    case (V6Rule t p)
    then show ?thesis using assms v6 [of t] port [of p] marks by simp
  qed (use assms domain port v4 marks in \<open>simp_all add: lit_def\<close>)
  have v4_ne: "length os = 4 \<Longrightarrow> show_ipv4 os \<noteq> []" for os
    by (cases os rule: show_ipv4.cases) simp_all
  show "show_rule r \<noteq> []"
    using assms domain_ok_nonempty v4_ne by (cases r) (simp_all add: lit_def)
qed

lemma comma_entries_show:
  assumes "list_all (rule_ok lib) rs"
  shows "comma_entries (show_rules rs) = map show_rule rs"
  using assms
proof (induction rs rule: show_rules.induct)
  case 1
  then show ?case by (simp add: comma_entries_def trim_def trim_start_def trim_end_matches_def)
next
  case (2 r)
  then show ?case
    using show_rule_chars [of lib r]
    by (simp add: comma_entries_def split_at_last trim_id list_all_iff entry_char_def)
next
  case (3 r r' rs)
  then show ?case
    using show_rule_chars [of lib r]
    by (simp add: comma_entries_def split_at_cons trim_id list_all_iff entry_char_def)
qed

subsection \<open>One entry\<close>

fun port_num :: "nat option \<Rightarrow> nat" where
  "port_num None = 0"
| "port_num (Some p) = p"

fun rule_matcher :: "'n outbound_libs \<Rightarrow> bypass_rule \<Rightarrow> 'n NoProxyMatcher" where
  "rule_matcher lib AnyHost = Wildcard"
| "rule_matcher lib (Subnet s) = Network (the (ol_net lib s))"
| "rule_matcher lib (V4Rule os p) = Address (V4 os) (port_num p)"
| "rule_matcher lib (V6Rule t p) = Address (the (parse_ip t)) (port_num p)"
| "rule_matcher lib (Domain d p) = Host d (port_num p) True"
| "rule_matcher lib (Subdomains star d p) = Host d (port_num p) False"

lemma contains_str_chars: "contains_str p s \<Longrightarrow> set p \<subseteq> set s"
proof (induction p s rule: contains_str.induct)
  case (2 p c cs)
  then show ?case
    using set_take_subset [of "length p" "c # cs"] by (auto simp: starts_with_def)
qed simp

lemma show_port_parse:
  "port_ok p \<Longrightarrow> p = Some n \<Longrightarrow> expect_port (show_nat n) = Ret n \<and> validate_no_proxy_port (show_nat n) = Inr ()"
  by (auto simp: expect_port_def validate_no_proxy_port_def)

text \<open>An entry written as a host with an optional port, and no bracket, slash or colon in the host.\<close>

lemma host_entry:
  assumes "port_ok p" and "list_all (\<lambda>c. name_char c \<or> c = 42) h" and "h \<noteq> []" and "h \<noteq> lit ''*''"
    and net: "\<forall>s. 47 \<notin> set s \<longrightarrow> ol_net lib s = None"
  shows "parse_no_proxy_matcher lib (h @ show_port p) = Ret (host_matcher h (port_num p))"
    and "validate_no_proxy_entry lib (h @ show_port p) = validate_hostname_no_proxy h"
proof -
  have h: "58 \<notin> set h" "47 \<notin> set h" "91 \<notin> set h"
    using assms(2) by (auto simp: list_all_iff name_char_def)
  have port: "58 \<notin> set (show_nat n)" "47 \<notin> set (show_nat n)" for n
    using show_nat_digits [of n] by (auto simp: list_all_iff is_digit_char_def)
  have slash: "47 \<notin> set (h @ show_port p)" using h port by (cases p) auto
  have star: "h @ show_port p \<noteq> lit ''*''"
    using assms(3,4) by (cases p) (auto simp: lit_def append_eq_Cons_conv)
  have scheme: "\<not> contains_str (lit ''://'') (h @ show_port p)"
    using slash contains_str_chars [of "lit ''://''" "h @ show_port p"] by (auto simp: lit_def)
  have bracket: "\<not> starts_with (lit ''['') (h @ show_port p)"
    using h assms(3) by (cases h) (auto simp: starts_with_def lit_def)
  have none: "ol_net lib (h @ show_port p) = None" using net slash by blast
  have "entry_host_port (h @ show_port p) = Ret (h, port_num p)"
    using h bracket show_port_parse [OF assms(1)] port
    by (cases p) (auto simp: entry_host_port_def strip_prefix_def)
  then show "parse_no_proxy_matcher lib (h @ show_port p) = Ret (host_matcher h (port_num p))"
    using star none by (simp add: parse_no_proxy_matcher_def)
  show "validate_no_proxy_entry lib (h @ show_port p) = validate_hostname_no_proxy h"
    using star scheme none bracket slash h show_port_parse [OF assms(1)] port
    by (cases p) (auto simp: validate_no_proxy_entry_def split: sum.splits)
qed

lemma validate_domain:
  assumes "domain_ok d"
  shows "validate_hostname_no_proxy d = Inr ()"
    and "validate_hostname_no_proxy (lit ''*.'' @ d) = Inr ()"
    and "validate_hostname_no_proxy (lit ''.'' @ d) = Inr ()"
proof -
  have mark: "strip_subdomain_mark (lit ''*.'' @ d) = Some d" "strip_subdomain_mark (lit ''.'' @ d) = Some d"
    by (simp_all add: strip_subdomain_mark_def strip_prefix_def starts_with_def lit_def)
  have c: "\<not> list_ex (\<lambda>c. c \<in> set (lit ''/[]:'')) d"
    using domain_ok_chars [OF assms] by (auto simp: list_all_iff list_ex_iff name_char_def lit_def)
  have l: "\<not> list_ex (\<lambda>label. \<not> label_ok label) (split_at (\<lambda>c. c = 46) d)"
    using assms by (auto simp: domain_ok_def list_all_iff list_ex_iff)
  show "validate_hostname_no_proxy d = Inr ()"
    and "validate_hostname_no_proxy (lit ''*.'' @ d) = Inr ()"
    and "validate_hostname_no_proxy (lit ''.'' @ d) = Inr ()"
    using c l domain_ok_nonempty [OF assms] domain_ok_no_mark [OF assms] mark
    by (simp_all add: validate_hostname_no_proxy_def)
qed

lemma v4_rule:
  assumes "length os = 4" and "list_all (\<lambda>b. b < 256) os"
  shows "validate_hostname_no_proxy (show_ipv4 os) = Inr ()"
    and "host_matcher (show_ipv4 os) p = Address (V4 os) p"
proof -
  obtain a b c d where os: "os = [a, b, c, d]"
    using assms(1) by (auto simp: numeral_eq_Suc length_Suc_conv)
  have nodot: "list_all (\<lambda>c. c \<noteq> 46) (show_nat n)" for n
    using show_nat_digits [of n] by (auto simp: list_all_iff is_digit_char_def)
  have label: "label_ok (show_nat n)" for n
  proof -
    have d: "list_all is_digit_char (show_nat n)" by (rule show_nat_digits)
    have "c \<noteq> 45" if "c \<in> set (show_nat n)" for c
      using d that by (auto simp: list_all_iff is_digit_char_def)
    then have "45 \<notin> set (show_nat n)" by blast
    then have "\<not> starts_with (lit ''-'') (show_nat n)" "\<not> ends_with (lit ''-'') (show_nat n)"
      using set_take_subset [of 1 "show_nat n"] set_take_subset [of 1 "rev (show_nat n)"]
      by (auto simp: starts_with_def ends_with_def lit_def)
    then show ?thesis
      using d by (auto simp: label_ok_def list_all_iff is_digit_char_def)
  qed
  have "domain_ok (show_ipv4 os)"
    using nodot label by (simp add: os domain_ok_def lit_def split_at_cons split_at_last)
  then show "validate_hostname_no_proxy (show_ipv4 os) = Inr ()" by (rule validate_domain)
  show "host_matcher (show_ipv4 os) p = Address (V4 os) p"
    using parse_ip_show [OF assms(2,1)] by (simp add: host_matcher_def)
qed

lemma v6_rule:
  assumes "rule_ok lib (V6Rule t p)" and net: "\<forall>s. 47 \<notin> set s \<longrightarrow> ol_net lib s = None"
  shows "validate_no_proxy_entry lib (show_rule (V6Rule t p)) = Inr ()"
    and "parse_no_proxy_matcher lib (show_rule (V6Rule t p)) = Ret (rule_matcher lib (V6Rule t p))"
proof -
  obtain gs where gs: "parse_ipv6 t = Some gs" using assms(1) by auto
  have t: "93 \<notin> set t" "47 \<notin> set t"
    using assms(1) by (auto simp: list_all_iff hex_digit_value_def split: if_splits)
  have port: "47 \<notin> set (show_port p)"
    using show_port_chars [of p] by (auto simp: list_all_iff name_char_def)
  let ?e = "91 # t @ 93 # show_port p"
  have slash: "47 \<notin> set ?e" using t port by auto
  have e: "?e \<noteq> lit ''*''" "\<not> contains_str (lit ''://'') ?e" "ol_net lib ?e = None"
    "starts_with (lit ''['') ?e" "strip_prefix (lit ''['') ?e = Some (t @ 93 # show_port p)"
    using slash net contains_str_chars [of "lit ''://''" ?e]
    by (auto simp: lit_def starts_with_def strip_prefix_def)
  have split: "split_once 93 ?e = Some (91 # t, show_port p)" using t by simp
  have colon: "strip_prefix (lit '':'') (show_port p) = map_option show_nat p"
    by (cases p) (simp_all add: strip_prefix_def starts_with_def lit_def)
  show "validate_no_proxy_entry lib (show_rule (V6Rule t p)) = Inr ()"
    using e split gs colon show_port_parse [of p] assms(1)
    by (cases p) (simp_all add: validate_no_proxy_entry_def validate_bracketed_ipv6_no_proxy_def)
  have "entry_host_port ?e = Ret (t, port_num p)"
    using e t colon show_port_parse [of p] assms(1) by (cases p) (simp_all add: entry_host_port_def)
  then show "parse_no_proxy_matcher lib (show_rule (V6Rule t p)) = Ret (rule_matcher lib (V6Rule t p))"
    using e parse_ipv6_ip [OF gs] by (simp add: parse_no_proxy_matcher_def host_matcher_def)
qed

lemma rule_parsed:
  assumes "rule_ok lib r" and net: "\<forall>s. 47 \<notin> set s \<longrightarrow> ol_net lib s = None"
  shows "validate_no_proxy_entry lib (show_rule r) = Inr () \<and>
    parse_no_proxy_matcher lib (show_rule r) = Ret (rule_matcher lib r)"
proof (cases r)
  case AnyHost
  then show ?thesis by (simp add: validate_no_proxy_entry_def parse_no_proxy_matcher_def)
next
  case (Subnet s)
  then show ?thesis using assms(1) by (auto simp: validate_no_proxy_entry_def parse_no_proxy_matcher_def)
next
  case (V4Rule os p)
  have n: "list_all (\<lambda>c. name_char c \<or> c = 42) (show_ipv4 os)" "show_ipv4 os \<noteq> lit ''*''"
    using show_ipv4_name [of os] by (auto simp: list_all_iff lit_def name_char_def)
  have "show_ipv4 os \<noteq> []" using show_rule_chars(2) [of lib "V4Rule os None"] assms(1) V4Rule by simp
  then show ?thesis
    using V4Rule assms(1) host_entry [OF _ n(1) _ n(2) net, of p] v4_rule [of os] by simp
next
  case (V6Rule t p)
  then show ?thesis using v6_rule assms by blast
next
  case (Domain d p)
  then have d: "domain_ok d" and p: "port_ok p" using assms(1) by auto
  have n: "list_all (\<lambda>c. name_char c \<or> c = 42) d" "d \<noteq> lit ''*''"
    using domain_ok_chars [OF d] by (auto simp: list_all_iff lit_def name_char_def)
  show ?thesis
    using Domain assms(1) host_entry [OF p n(1) domain_ok_nonempty [OF d] n(2) net]
      validate_domain(1) [OF d] domain_ok_no_mark [OF d] by (simp add: host_matcher_def)
next
  case (Subdomains star d p)
  let ?h = "(if star then lit ''*.'' else lit ''.'') @ d"
  have d: "domain_ok d" and p: "port_ok p" using assms(1) Subdomains by auto
  have n: "list_all (\<lambda>c. name_char c \<or> c = 42) ?h" "?h \<noteq> lit ''*''" "?h \<noteq> []"
    using domain_ok_chars [OF d] by (auto simp: list_all_iff lit_def name_char_def)
  have "parse_ip ?h = None"
    using parse_ip_none [of 42] parse_ip_none [of 46] by (simp add: lit_def hex_digit_value_def)
  moreover have "strip_subdomain_mark ?h = Some d"
    by (simp add: strip_subdomain_mark_def strip_prefix_def starts_with_def lit_def)
  ultimately show ?thesis
    using Subdomains host_entry [OF p n(1,3,2) net] validate_domain [OF d]
    by (auto simp: host_matcher_def)
qed

lemma matcher_rule:
  assumes "rule_ok lib r"
  shows "matcher_matches lib host (parse_ip host) port (rule_matcher lib r) \<longleftrightarrow> rule_applies lib host port r"
proof -
  have p: "port_ok q \<Longrightarrow> (port_num q = 0 \<or> port_num q = port) \<longleftrightarrow> port_applies q port" for q
    by (cases q) (auto simp: port_applies_def)
  show ?thesis
    using assms p
    by (cases r) (auto simp: host_matches_iff parse_ipv6_ip split: option.splits)
qed

lemma rules_parsed:
  assumes "list_all (rule_ok lib) rs" and net: "\<forall>s. 47 \<notin> set s \<longrightarrow> ol_net lib s = None"
  shows "validate_entries lib (map show_rule rs) = Inr ()"
    and "parse_matchers lib (map show_rule rs) = Ret (map (rule_matcher lib) rs)"
  using assms rule_parsed [OF _ net] by (induction rs) auto

definition loopback_host :: "str \<Rightarrow> bool" where
  "loopback_host host \<longleftrightarrow>
     (case parse_ip (strip_brackets host) of Some ip \<Rightarrow> is_loopback ip | None \<Rightarrow> False)"

lemma rules_match:
  assumes "list_all (rule_ok lib) rs"
  shows "no_proxy_matches lib (map (rule_matcher lib) rs) host port \<longleftrightarrow>
    loopback_host host \<or> list_ex (rule_applies lib (strip_brackets host) port) rs"
proof -
  have "list_ex (matcher_matches lib h (parse_ip h) port) (map (rule_matcher lib) rs) \<longleftrightarrow>
    list_ex (rule_applies lib h port) rs" for h
    using assms by (induction rs) (auto simp: matcher_rule)
  then show ?thesis by (simp add: no_proxy_matches_def loopback_host_def Let_def)
qed

text \<open>
  C16: The bypass list means what the manual says. For every list of documented entries, written
  with commas between them, validation succeeds, no \<open>expect\<close> is hit, and a target bypasses
  the proxy exactly when it is a loopback address or one of the entries applies: a domain to
  itself and to the hosts below it whatever their case, a dotted or starred suffix to the hosts
  below it only, an address or network to the addresses it denotes, and an entry with a port to
  that port only. The hypothesis on the network parser is that it reads nothing but CIDR
  notation, which has a slash.\<close>

theorem no_proxy_documented:
  assumes "\<forall>s. 47 \<notin> set s \<longrightarrow> ol_net lib s = None" and "list_all (rule_ok lib) rs"
  shows "validate_no_proxy lib (show_rules rs) = Inr () \<and>
    (\<exists>ms. from_validated lib (show_rules rs) = Ret ms \<and>
       (\<forall>host port. no_proxy_matches lib ms host port \<longleftrightarrow>
          loopback_host host \<or> list_ex (rule_applies lib (strip_brackets host) port) rs))"
  using rules_parsed [OF assms(2,1)] rules_match [OF assms(2)] comma_entries_show [OF assms(2)]
  by (simp add: validate_no_proxy_def from_validated_def)

definition sample_libs :: "unit outbound_libs" where
  "sample_libs =
     \<lparr>ol_url = (\<lambda>s. if s = lit ''socks5h://proxy.lan:9050''
        then Some \<lparr>url_scheme = lit ''socks5h'', url_path = [], url_query = None, url_fragment = None,
                   url_host = Some (lit ''proxy.lan''), url_port = Some 9050, url_username = [],
                   url_password = None\<rparr>
        else None),
      ol_percent = Some, ol_net = (\<lambda>s. if s = lit ''10.0.0.0/8'' then Some () else None),
      ol_contains = (\<lambda>_ ip. case ip of V4 os \<Rightarrow> os ! 0 = 10 | V6 _ \<Rightarrow> False)\<rparr>"

definition sample_rules :: "bypass_rule list" where
  "sample_rules =
     [Domain (lit ''host.example'') (Some 443), Subdomains False (lit ''lan'') None,
      V4Rule [192, 168, 1, 1] None, Subnet (lit ''10.0.0.0/8'')]"

lemma sample_rules_ok: "list_all (rule_ok sample_libs) sample_rules"
proof -
  have "domain_ok (lit ''host.example'')" "domain_ok (lit ''lan'')"
    "parse_ip (lit ''host.example'') = None" "list_all entry_char (lit ''10.0.0.0/8'')"
    by (simp_all add: domain_ok_def label_ok_def starts_with_def ends_with_def lit_def parse_ip_none
        hex_digit_value_def entry_char_def is_whitespace_def)
  moreover have "\<not> contains_str (lit ''://'') (lit ''10.0.0.0/8'')"
    by (simp add: lit_def starts_with_def)
  ultimately show ?thesis
    by (simp add: sample_rules_def sample_libs_def) (simp add: lit_def)
qed

lemma sample_cidr: "\<forall>s. 47 \<notin> set s \<longrightarrow> ol_net sample_libs s = None"
  by (simp add: sample_libs_def lit_def)

lemma eq_ignore_last:
  "eq_ignore_ascii_case t d \<Longrightarrow> d \<noteq> [] \<Longrightarrow> t \<noteq> [] \<and> ascii_lower (last t) = ascii_lower (last d)"
  by (auto simp: eq_ignore_ascii_case_def to_ascii_lowercase_def) (metis last_map map_is_Nil_conv)

lemma below_domain_last: "below_domain host d \<Longrightarrow> d \<noteq> [] \<Longrightarrow> ascii_lower (last host) = ascii_lower (last d)"
  using eq_ignore_last by (auto simp: below_domain_def)

lemma sample_hosts:
  "parse_ip (lit ''192.168.1.1'') = Some (V4 [192, 168, 1, 1])"
  "parse_ip (lit ''8.8.8.8'') = Some (V4 [8, 8, 8, 8])"
  "below_domain (lit ''NAS.Lan'') (lit ''lan'')"
  "\<not> below_domain (lit ''8.8.8.8'') (lit ''lan'')"
  "\<not> below_domain (lit ''8.8.8.8'') (lit ''host.example'')"
  "\<not> eq_ignore_ascii_case (lit ''8.8.8.8'') (lit ''host.example'')"
proof -
  have "show_ipv4 [192, 168, 1, 1] = lit ''192.168.1.1''" "show_ipv4 [8, 8, 8, 8] = lit ''8.8.8.8''"
    by (simp_all add: lit_def show_nat.simps)
  then show "parse_ip (lit ''192.168.1.1'') = Some (V4 [192, 168, 1, 1])"
    "parse_ip (lit ''8.8.8.8'') = Some (V4 [8, 8, 8, 8])"
    using parse_ip_show [of "[192, 168, 1, 1]"] parse_ip_show [of "[8, 8, 8, 8]"] by simp_all
  show "\<not> eq_ignore_ascii_case (lit ''8.8.8.8'') (lit ''host.example'')"
    using eq_ignore_last [of "lit ''8.8.8.8''" "lit ''host.example''"] by (auto simp: lit_def ascii_lower_def)
  show "\<not> below_domain (lit ''8.8.8.8'') (lit ''lan'')"
    "\<not> below_domain (lit ''8.8.8.8'') (lit ''host.example'')"
    using below_domain_last [of "lit ''8.8.8.8''" "lit ''lan''"] below_domain_last [of "lit ''8.8.8.8''" "lit ''host.example''"]
    by (auto simp: lit_def ascii_lower_def)
  show "below_domain (lit ''NAS.Lan'') (lit ''lan'')"
    unfolding below_domain_def
    by (rule exI [of _ "lit ''NAS''"], rule exI [of _ "lit ''Lan''"])
      (simp add: lit_def eq_ignore_ascii_case_def to_ascii_lowercase_def ascii_lower_def)
qed

lemma no_proxy_documented_witness:
  "show_rules sample_rules = lit ''host.example:443,.lan,192.168.1.1,10.0.0.0/8'' \<and>
   (\<exists>ms. from_validated sample_libs (show_rules sample_rules) = Ret ms \<and>
      no_proxy_matches sample_libs ms (lit ''192.168.1.1'') 80 \<and>
      no_proxy_matches sample_libs ms (lit ''NAS.Lan'') 80 \<and>
      \<not> no_proxy_matches sample_libs ms (lit ''8.8.8.8'') 443)"
proof
  show "show_rules sample_rules = lit ''host.example:443,.lan,192.168.1.1,10.0.0.0/8''"
    by (simp add: sample_rules_def lit_def show_nat.simps)
  from no_proxy_documented [OF sample_cidr sample_rules_ok] obtain ms where
    ms: "from_validated sample_libs (show_rules sample_rules) = Ret ms"
    "\<And>host port. no_proxy_matches sample_libs ms host port \<longleftrightarrow>
       loopback_host host \<or> list_ex (rule_applies sample_libs (strip_brackets host) port) sample_rules"
    by blast
  have plain: "strip_brackets (lit ''192.168.1.1'') = lit ''192.168.1.1''"
    "strip_brackets (lit ''NAS.Lan'') = lit ''NAS.Lan''" "strip_brackets (lit ''8.8.8.8'') = lit ''8.8.8.8''"
    by (simp_all add: strip_brackets_def strip_prefix_def starts_with_def lit_def)
  have "no_proxy_matches sample_libs ms (lit ''192.168.1.1'') 80"
    "no_proxy_matches sample_libs ms (lit ''NAS.Lan'') 80"
    "\<not> no_proxy_matches sample_libs ms (lit ''8.8.8.8'') 443"
    by (simp_all add: ms(2) plain sample_rules_def sample_hosts port_applies_def loopback_host_def)
      (simp add: sample_libs_def)
  then show "\<exists>ms. from_validated sample_libs (show_rules sample_rules) = Ret ms \<and>
      no_proxy_matches sample_libs ms (lit ''192.168.1.1'') 80 \<and>
      no_proxy_matches sample_libs ms (lit ''NAS.Lan'') 80 \<and>
      \<not> no_proxy_matches sample_libs ms (lit ''8.8.8.8'') 443"
    using ms(1) by blast
qed

section \<open>The connector\<close>

text \<open>What the connector may do towards a target that does not bypass the proxy.\<close>

definition bracketed :: "str \<Rightarrow> str" where
  "bracketed host =
     (if 58 \<in> set host \<and> \<not> starts_with (lit ''['') host then lit ''['' @ host @ lit '']'' else host)"

fun through_proxy :: "ProxyConfig \<Rightarrow> str \<Rightarrow> nat \<Rightarrow> net_op \<Rightarrow> bool" where
  "through_proxy p host port (TcpConnect h q) \<longleftrightarrow> px_kind p = Http \<and> h = px_host p \<and> q = px_port p"
| "through_proxy p host port (HttpConnect s h q a) \<longleftrightarrow>
     px_kind p = Http \<and> h = bracketed host \<and> q = port \<and> a = proxy_auth p"
| "through_proxy p host port (SocksConnect h q t a) \<longleftrightarrow>
     px_kind p \<noteq> Http \<and> h = px_host p \<and> q = px_port p \<and> a = proxy_auth p \<and>
     (px_kind p = Socks5 False \<or> t = TargetDomain host port \<or>
        (\<exists>ip. parse_ip host = Some ip \<and> t = TargetIp ip port))"
| "through_proxy p host port (LookupHost h q) \<longleftrightarrow> px_kind p = Socks5 False \<and> h = host \<and> q = port"

text \<open>The step in which the proxy is asked for the target.\<close>

fun asks_target :: "net_op \<Rightarrow> bool" where
  "asks_target (HttpConnect s h q a) \<longleftrightarrow> True"
| "asks_target (SocksConnect h q t a) \<longleftrightarrow> True"
| "asks_target _ \<longleftrightarrow> False"

definition net_answers :: "'w outbound_net \<Rightarrow> bool" where
  "net_answers net \<longleftrightarrow>
     (\<forall>h p w. fst (on_tcp net h p w) \<noteq> None) \<and> (\<forall>s h p a w. fst (on_http net s h p a w) \<noteq> None) \<and>
     (\<forall>h p t a w. fst (on_socks net h p t a w) \<noteq> None) \<and> (\<forall>h p w. fst (on_lookup net h p w) \<noteq> None)"

lemmas dialing_defs = dial_bind_def dial_map_err_def dial_return_def await_def

lemma net_answersD:
  assumes "net_answers net"
  shows "on_tcp net h p w \<noteq> (None, w')" and "on_http net s h p a w \<noteq> (None, w')"
    and "on_socks net h p t a w \<noteq> (None, w')" and "on_lookup net h p w \<noteq> (None, w')"
  using assms unfolding net_answers_def by (metis fst_conv)+

lemmas via_proxy_defs = connect_via_proxy_def connect_http_proxy_def connect_socks5_proxy_def
  connect_tcp_def socks5_target_def dialing_defs Let_def

lemma via_proxy_ops:
  assumes "connect_via_proxy net p host port w = (r, ops, w')"
  shows "list_all (through_proxy p host port) ops"
    and "r = Some (Inr s) \<Longrightarrow> asks_target (last ops)"
    and "ops \<noteq> []"
  using assms
  by (auto simp: via_proxy_defs bracketed_def
      split: ProxyKind.splits prod.splits option.splits sum.splits list.splits if_splits)

lemma via_proxy_answered:
  assumes "connect_via_proxy net p host port w = (r, ops, w')" and "net_answers net"
  shows "r \<noteq> None"
  using assms(1)
  by (auto simp: via_proxy_defs dest: net_answersD [OF assms(2), THEN notE]
      split: ProxyKind.splits prod.splits option.splits sum.splits list.splits if_splits)

lemma connect_proxied:
  assumes "connect lib net c host port w = (r, ops, w')" and "\<not> connects_directly lib c host port"
  shows "\<exists>p. oc_proxy c = Some p \<and> list_all (through_proxy p host port) ops"
    and "r = Inr s \<Longrightarrow> asks_target (last ops)"
    and "net_answers net \<Longrightarrow> r = Inl e \<Longrightarrow> \<not> oe_timed_out e"
proof -
  obtain p where p: "oc_proxy c = Some p" "\<not> should_bypass lib c host port"
    using assms(2) by (auto simp: connects_directly_def)
  obtain r' where via: "connect_via_proxy net p host port w = (r', ops, w')"
    and r: "r = (case r' of None \<Rightarrow> Inl \<lparr>oe_reason = lit ''proxy '' @ proxy_summary p @ lit '' handshake timed out'',
      oe_timed_out = True\<rparr> | Some (Inl e) \<Rightarrow> Inl \<lparr>oe_reason = e, oe_timed_out = False\<rparr> | Some (Inr x) \<Rightarrow> Inr x)"
    using assms(1) p by (auto simp: connect_def with_timeout_def split: prod.splits option.splits sum.splits)
  show "\<exists>p. oc_proxy c = Some p \<and> list_all (through_proxy p host port) ops"
    using p via_proxy_ops(1) [OF via] by blast
  show "asks_target (last ops)" if "r = Inr s"
    using that r via_proxy_ops(2) [OF via, of s] by (auto split: option.splits sum.splits)
  show "\<not> oe_timed_out e" if "net_answers net" "r = Inl e"
    using that r via_proxy_answered [OF via] by (auto split: option.splits sum.splits)
qed

lemma connect_direct_ops:
  assumes "connect lib net c host port w = (r, ops, w')" and "connects_directly lib c host port"
  shows "ops = [TcpConnect host port]"
    and "net_answers net \<Longrightarrow> r = Inl e \<Longrightarrow> \<not> oe_timed_out e"
    and "fst (on_tcp net host port w) = None \<Longrightarrow> \<exists>e. r = Inl e \<and> oe_timed_out e"
proof -
  have d: "connect_direct net host port w = (r, ops, w')"
    using assms by (auto simp: connect_def connects_directly_def split: option.splits if_splits)
  note unfold = connect_direct_def with_timeout_def connect_tcp_def dialing_defs
  show "ops = [TcpConnect host port]"
    using d by (auto simp: unfold split: prod.splits option.splits sum.splits)
  show "\<not> oe_timed_out e" if "net_answers net" "r = Inl e"
    using d that by (auto simp: unfold dest: net_answersD [OF that(1), THEN notE]
        split: prod.splits option.splits sum.splits)
  show "\<exists>e. r = Inl e \<and> oe_timed_out e" if "fst (on_tcp net host port w) = None"
    using d that by (auto simp: unfold split: prod.splits option.splits sum.splits)
qed

text \<open>
  C15: The connector goes where its settings say and nowhere else. A target it connects to
  directly gets exactly one TCP connect, to that host and port. For any other target every step
  goes to the configured proxy with its credentials, a name is looked up locally only for plain
  SOCKS5 (with remote DNS the target is handed over by name), and a stream is returned only
  after the proxy has been asked for the target. An error says it timed out only when some
  step was left unanswered, and always when the TCP connect of a direct target was. The text
  that names the proxy in logs and errors does not depend on its credentials.\<close>

theorem connector_routes:
  assumes "connect lib net c host port w = (r, ops, w')"
  shows "(if connects_directly lib c host port
          then ops = [TcpConnect host port] \<and>
               (fst (on_tcp net host port w) = None \<longrightarrow> (\<exists>e. r = Inl e \<and> oe_timed_out e))
          else (\<exists>p. oc_proxy c = Some p \<and> list_all (through_proxy p host port) ops) \<and>
               (\<forall>s. r = Inr s \<longrightarrow> asks_target (last ops))) \<and>
         (net_answers net \<longrightarrow> (\<forall>e. r = Inl e \<longrightarrow> \<not> oe_timed_out e)) \<and>
         (px_username p \<noteq> None \<longrightarrow>
            proxy_summary (p\<lparr>px_username := Some u, px_password := v\<rparr>) = proxy_summary p)"
proof (cases "connects_directly lib c host port")
  case True
  then show ?thesis
    using connect_direct_ops [OF assms] by (auto simp: proxy_summary_def)
next
  case False
  then show ?thesis
    using connect_proxied [OF assms] by (auto simp: proxy_summary_def)
qed

definition sample_proxy_net :: "unit outbound_net" where
  "sample_proxy_net =
     \<lparr>on_tcp = (\<lambda>h p w. (None, w)), on_http = (\<lambda>s h p a w. (None, w)),
      on_socks = (\<lambda>h p t a w. (Some (Inr 7), w)), on_lookup = (\<lambda>h p w. (None, w))\<rparr>"

definition sample_connector :: "unit OutboundConfig" where
  "sample_connector =
     \<lparr>oc_proxy = Some \<lparr>px_kind = Socks5 True, px_host = lit ''proxy.lan'', px_port = 9050,
        px_username = Some (lit ''me''), px_password = None\<rparr>,
      oc_no_proxy = Some [Host (lit ''lan'') 0 True]\<rparr>"

lemma sample_connector_direct:
  "\<not> connects_directly sample_libs sample_connector (lit ''t.me'') 443"
proof -
  have "\<not> host_matches (lit ''t.me'') (lit ''lan'') True"
    using below_domain_last [of "lit ''t.me''" "lit ''lan''"] eq_ignore_last [of "lit ''t.me''" "lit ''lan''"]
    by (auto simp: host_matches_iff lit_def ascii_lower_def)
  moreover have "parse_ip (lit ''t.me'') = None" "strip_brackets (lit ''t.me'') = lit ''t.me''"
    by (simp_all add: lit_def parse_ip_none hex_digit_value_def strip_brackets_def strip_prefix_def starts_with_def)
  ultimately show ?thesis
    by (simp add: connects_directly_def should_bypass_def sample_connector_def no_proxy_matches_def)
qed

lemma connector_routes_witness:
  "\<exists>r ops w'. connect sample_libs sample_proxy_net sample_connector (lit ''t.me'') 443 () = (r, ops, w') \<and>
     r = Inr 7 \<and> asks_target (last ops) \<and>
     ops = [SocksConnect (lit ''proxy.lan'') 9050 (TargetDomain (lit ''t.me'') 443) (Some (lit ''me'', []))]"
proof -
  let ?r = "connect sample_libs sample_proxy_net sample_connector (lit ''t.me'') 443 ()"
  have bypass: "\<not> should_bypass sample_libs sample_connector (lit ''t.me'') 443"
    using sample_connector_direct by (simp add: connects_directly_def)
  have name: "parse_ip (lit ''t.me'') = None"
    by (simp add: lit_def parse_ip_none hex_digit_value_def)
  have "?r = (Inr 7, [SocksConnect (lit ''proxy.lan'') 9050 (TargetDomain (lit ''t.me'') 443)
      (Some (lit ''me'', []))], ())"
    using bypass name
    by (simp add: connect_def with_timeout_def via_proxy_defs sample_proxy_net_def proxy_auth_def)
      (simp add: sample_connector_def with_timeout_def via_proxy_defs proxy_auth_def sample_proxy_net_def)
  moreover from connector_routes [OF this, where u = "[]" and v = None and p = undefined] sample_connector_direct
  have "asks_target (last [SocksConnect (lit ''proxy.lan'') 9050 (TargetDomain (lit ''t.me'') 443)
      (Some (lit ''me'', []))])" by simp
  ultimately show ?thesis by blast
qed

end
