(* ===== verification/DefaultDomains.thy ===== *)
theory DefaultDomains
  imports Text
begin

text \<open>
  The default Cloudflare domains, after \<^verbatim>\<open>src/default_domains.rs\<close>: the
  deobfuscation of the published list and the fallback to the built-in one. The fetch over
  HTTPS is a parameter: its body, or \<open>None\<close> on any error.
\<close>

definition REAL_SUFFIX :: str where "REAL_SUFFIX = lit ''.co.uk''"

definition FALLBACK_ENCODED :: "str list" where
  "FALLBACK_ENCODED =
     [lit ''virkgj.com'', lit ''vmmzovy.com'', lit ''mkuosckvso.com'', lit ''zaewayzmplad.com'',
      lit ''twdmbzcm.com'']"

definition is_ascii_lowercase :: "nat \<Rightarrow> bool" where
  "is_ascii_lowercase c \<longleftrightarrow> 97 \<le> c \<and> c \<le> 122"

definition is_ascii_uppercase :: "nat \<Rightarrow> bool" where
  "is_ascii_uppercase c \<longleftrightarrow> 65 \<le> c \<and> c \<le> 90"

definition is_ascii_alphabetic :: "nat \<Rightarrow> bool" where
  "is_ascii_alphabetic c \<longleftrightarrow> is_ascii_lowercase c \<or> is_ascii_uppercase c"

text \<open>\<open>rem_euclid\<close> by a positive number is the remainder of \<^typ>\<open>int\<close>.\<close>

definition shift_back :: "int \<Rightarrow> nat \<Rightarrow> nat" where
  "shift_back n c =
     (if is_ascii_lowercase c then nat ((int c - 97 - n) mod 26) + 97
      else if is_ascii_uppercase c then nat ((int c - 65 - n) mod 26) + 65
      else c)"

definition deobfuscate :: "str \<Rightarrow> str option" where
  "deobfuscate s =
     (case strip_suffix (lit ''.com'') s of
        None \<Rightarrow> None
      | Some prefix \<Rightarrow>
          let n = int (length (filter is_ascii_alphabetic prefix))
          in Some (map (shift_back n) prefix @ REAL_SUFFIX))"

definition parse_domain_list :: "str \<Rightarrow> str list" where
  "parse_domain_list txt =
     List.map_filter deobfuscate
       (filter (\<lambda>l. l \<noteq> [] \<and> \<not> starts_with (lit ''#'') l) (map trim (str_lines txt)))"

definition fallback_domains :: "str list" where
  "fallback_domains = List.map_filter deobfuscate FALLBACK_ENCODED"

definition fetch_default_domains :: "str option \<Rightarrow> str list" where
  "fetch_default_domains fetched =
     (case fetched of
        Some body \<Rightarrow>
          (let domains = parse_domain_list body
           in if domains = [] then fallback_domains else domains)
      | None \<Rightarrow> fallback_domains)"

section \<open>The published encoding\<close>

text \<open>
  The encoding the list is published in, from the module's description: letters shifted
  forward by their number, and the suffix replaced.
\<close>

definition shift_forward :: "int \<Rightarrow> nat \<Rightarrow> nat" where
  "shift_forward n c =
     (if is_ascii_lowercase c then nat ((int c - 97 + n) mod 26) + 97
      else if is_ascii_uppercase c then nat ((int c - 65 + n) mod 26) + 65
      else c)"

definition obfuscate :: "str \<Rightarrow> str" where
  "obfuscate prefix =
     map (shift_forward (int (length (filter is_ascii_alphabetic prefix)))) prefix @ lit ''.com''"

lemma shift_forward_class:
  "is_ascii_lowercase (shift_forward n c) = is_ascii_lowercase c"
  "is_ascii_uppercase (shift_forward n c) = is_ascii_uppercase c"
proof -
  have "nat (k mod 26) \<le> 25" for k :: int
    using pos_mod_bound [of 26 k] by linarith
  then have "nat (k mod 26) + 97 \<le> 122" "nat (k mod 26) + 65 \<le> 90" for k :: int
    by (simp_all add: add_le_mono)
  then show "is_ascii_lowercase (shift_forward n c) = is_ascii_lowercase c"
    "is_ascii_uppercase (shift_forward n c) = is_ascii_uppercase c"
    by (auto simp: shift_forward_def is_ascii_lowercase_def is_ascii_uppercase_def
        intro: le_trans)
qed

lemma shift_forward_alphabetic: "is_ascii_alphabetic (shift_forward n c) = is_ascii_alphabetic c"
  by (simp add: is_ascii_alphabetic_def shift_forward_class)

lemma mod26_cancel: "((k + n) mod 26 - n) mod 26 = k mod (26 :: int)"
  by (metis add_diff_cancel_right' mod_diff_left_eq)

lemma shift_back_forward: "shift_back n (shift_forward n c) = c"
proof -
  have "int c - 97 = (int c - 97) mod 26" if "is_ascii_lowercase c"
    using that by (simp add: is_ascii_lowercase_def)
  moreover have "int c - 65 = (int c - 65) mod 26" if "is_ascii_uppercase c"
    using that by (simp add: is_ascii_uppercase_def)
  ultimately show ?thesis
    using shift_forward_class [of n c]
    by (auto simp: shift_back_def shift_forward_def mod26_cancel
        is_ascii_lowercase_def is_ascii_uppercase_def split: if_splits)
qed

lemma strip_suffix_append: "strip_suffix p (s @ p) = Some s"
  by (simp add: strip_suffix_def ends_with_def starts_with_def)

lemma deobfuscate_obfuscate: "deobfuscate (obfuscate prefix) = Some (prefix @ REAL_SUFFIX)"
  by (simp add: deobfuscate_def obfuscate_def strip_suffix_append filter_map o_def
      shift_forward_alphabetic shift_back_forward)

lemma fallback_domains_nonempty: "fallback_domains \<noteq> []"
  by code_simp

lemma fetch_default_domains_nonempty: "fetch_default_domains fetched \<noteq> []"
  using fallback_domains_nonempty
  by (simp add: fetch_default_domains_def Let_def split: option.splits)

section \<open>Properties\<close>

text \<open>
  C30: A domain obfuscated as the published list describes is recovered, with the
  real suffix, and the list of default domains is never empty, whatever the fetch returns.
\<close>

theorem default_domains_recovered:
  "deobfuscate (obfuscate prefix) = Some (prefix @ REAL_SUFFIX) \<and> fetch_default_domains fetched \<noteq> []"
  by (simp add: deobfuscate_obfuscate fetch_default_domains_nonempty)

end
