(* ===== verification/Http.thy ===== *)
theory Http
  imports Outbound DefaultDomains
begin

text \<open>
  The HTTPS fetch of the default domain list, after
  \<^verbatim>\<open>src/default_domains/http.rs\<close>: reading a response of bounded size from a
  connection that delivers its bytes in pieces of any size, with its headers, a body of
  declared length, a chunked body and a body that ends with the connection. The header parser
  (\<^verbatim>\<open>httparse\<close>) and TLS (\<^verbatim>\<open>rustls\<close>) are parameters.
\<close>

section \<open>Reading\<close>

text \<open>
  What a read may meet: bytes (none of them is the end of the stream), an error, or silence
  until the deadline. The end of the list is the end of the stream.
\<close>

datatype read_event = Data bytes | ReadFail str | Stall

type_synonym reader_state = "read_event list"

text \<open>The outcome of code that reads: a panic, the deadline, an error, or a value.\<close>

datatype 'a io = Panicked | Elapsed | Fail str | Done 'a

fun io_bind :: "'a io \<times> 's \<Rightarrow> ('a \<times> 's \<Rightarrow> 'b io \<times> 's) \<Rightarrow> 'b io \<times> 's" where
  "io_bind (Panicked, s) f = (Panicked, s)"
| "io_bind (Elapsed, s) f = (Elapsed, s)"
| "io_bind (Fail e, s) f = (Fail e, s)"
| "io_bind (Done x, s) f = f (x, s)"

definition io_exec :: "'a exec \<Rightarrow> 'a io" where
  "io_exec x = (case x of Panic \<Rightarrow> Panicked | Ret y \<Rightarrow> Done y)"

definition io_result :: "str + 'a \<Rightarrow> 'a io" where
  "io_result x = (case x of Inl e \<Rightarrow> Fail e | Inr y \<Rightarrow> Done y)"

fun read_some :: "nat \<Rightarrow> reader_state \<Rightarrow> bytes io \<times> reader_state" where
  "read_some k [] = (Done [], [])"
| "read_some k (Data bs # r) =
     (Done (take k bs), if length bs \<le> k then r else Data (drop k bs) # r)"
| "read_some k (ReadFail e # r) = (Fail (lit ''read: '' @ e), r)"
| "read_some k (Stall # r) = (Elapsed, Stall # r)"

definition MAX_HEADER_BYTES :: nat where "MAX_HEADER_BYTES = 64 * 1024"

definition MAX_BODY_BYTES :: nat where "MAX_BODY_BYTES = 256 * 1024"

definition read_more :: "bytes \<Rightarrow> nat \<Rightarrow> reader_state \<Rightarrow> bytes io \<times> reader_state" where
  "read_more buf limit r =
     (if limit \<le> length buf then (Fail (lit ''HTTP response exceeds limit''), r)
      else io_bind (read_some (min (limit - length buf) 8192) r) (\<lambda>(chunk, r).
        if chunk = [] then (Fail (lit ''unexpected EOF while reading HTTP response''), r)
        else (Done (buf @ chunk), r)))"

lemma read_more_Done:
  assumes "read_more buf limit r = (Done buf', r')"
  shows "length buf < length buf'" and "length buf' \<le> limit" and "take (length buf) buf' = buf"
  using assms
  by (cases "(min (limit - length buf) 8192, r)" rule: read_some.cases;
      auto simp: read_more_def split: if_splits)+

text \<open>
  The loops that read until something is in the buffer: what \<open>found\<close> answers is the
  result, and \<open>guard\<close> may refuse to read on.
\<close>

function fill_until ::
    "(bytes \<Rightarrow> 'x option) \<Rightarrow> (bytes \<Rightarrow> str option) \<Rightarrow> nat \<Rightarrow> bytes \<Rightarrow> reader_state \<Rightarrow>
     ('x \<times> bytes) io \<times> reader_state" where
  "fill_until found guard limit buf r =
     (case found buf of
        Some x \<Rightarrow> (Done (x, buf), r)
      | None \<Rightarrow>
          (case guard buf of
             Some e \<Rightarrow> (Fail e, r)
           | None \<Rightarrow>
               (case read_more buf limit r of
                  (Done buf', r') \<Rightarrow> fill_until found guard limit buf' r'
                | (Fail e, r') \<Rightarrow> (Fail e, r')
                | (Elapsed, r') \<Rightarrow> (Elapsed, r')
                | (Panicked, r') \<Rightarrow> (Panicked, r'))))"
  by auto

termination fill_until
proof (relation "measure (\<lambda>(found, guard, limit, buf, r). limit - length buf)", goal_cases)
  case (2 found guard limit buf r x y buf')
  then have "read_more buf limit r = (Done buf', y)" by simp
  from read_more_Done(1,2) [OF this] show ?case by simp
qed simp

declare fill_until.simps [simp del]

section \<open>Headers\<close>

text \<open>The first window of the buffer that equals the pattern.\<close>

fun find_window :: "bytes \<Rightarrow> bytes \<Rightarrow> nat option" where
  "find_window p [] = None"
| "find_window p (b # bs) =
     (if take (length p) (b # bs) = p then Some 0 else map_option Suc (find_window p bs))"

definition CRLF :: bytes where "CRLF = [13, 10]"

definition header_end :: "bytes \<Rightarrow> nat option" where
  "header_end buf = map_option (\<lambda>pos. pos + 4) (find_window (CRLF @ CRLF) buf)"

definition http_header_count :: "bytes \<Rightarrow> nat" where
  "http_header_count headers =
     length (filter (\<lambda>i. take 2 (drop i headers) = CRLF) [0..<length headers])"

definition read_until_headers :: "bytes \<Rightarrow> reader_state \<Rightarrow> (nat \<times> bytes) io \<times> reader_state" where
  "read_until_headers buf r =
     fill_until header_end
       (\<lambda>buf. if MAX_HEADER_BYTES \<le> length buf
              then Some (lit ''HTTP response headers exceed limit'') else None)
       MAX_HEADER_BYTES buf r"

text \<open>The header parser: an error, a partial response, or the status and the headers.\<close>

type_synonym header = "str \<times> bytes"

datatype http_parse = ParseError str | Partial | Complete "nat option" "header list"

type_synonym http_parser = "nat \<Rightarrow> bytes \<Rightarrow> http_parse"

text \<open>The characters of a valid byte string.\<close>

definition utf8_scalar :: "byte \<Rightarrow> bytes \<Rightarrow> nat" where
  "utf8_scalar lead tail =
     foldl (\<lambda>a b. a * 64 + unat b mod 64)
       (case length tail of
          0 \<Rightarrow> unat lead
        | Suc 0 \<Rightarrow> unat lead mod 32
        | Suc (Suc 0) \<Rightarrow> unat lead mod 16
        | _ \<Rightarrow> unat lead mod 8) tail"

fun utf8_chars :: "bytes \<Rightarrow> str" where
  "utf8_chars [] = []"
| "utf8_chars (b # bs) =
     (let n = (case utf8_tail b bs of Some n \<Rightarrow> n | None \<Rightarrow> 0)
      in utf8_scalar b (take n bs) # utf8_chars (drop n bs))"

definition str_from_utf8 :: "bytes \<Rightarrow> str option" where
  "str_from_utf8 bs = map_option utf8_chars (from_utf8 bs)"

definition is_chunked :: "header list \<Rightarrow> bool" where
  "is_chunked headers =
     list_ex
       (\<lambda>value. list_ex (\<lambda>part. eq_ignore_ascii_case (trim part) (lit ''chunked''))
                  (split_at (\<lambda>c. c = 44) value))
       (List.map_filter (str_from_utf8 \<circ> snd)
          (filter (\<lambda>h. eq_ignore_ascii_case (fst h) (lit ''transfer-encoding'')) headers))"

fun content_length_loop :: "nat \<Rightarrow> nat option \<Rightarrow> bytes list \<Rightarrow> str + nat option" where
  "content_length_loop W len [] = Inr len"
| "content_length_loop W len (v # vs) =
     (case str_from_utf8 v of
        None \<Rightarrow> Inl (lit ''Content-Length is not valid UTF-8'')
      | Some s \<Rightarrow>
          (case parse_uint (2 ^ W - 1) (trim s) of
             None \<Rightarrow> Inl (lit ''invalid Content-Length'')
           | Some value \<Rightarrow>
               if len \<noteq> None \<and> len \<noteq> Some value
               then Inl (lit ''conflicting Content-Length headers'')
               else content_length_loop W (Some value) vs))"

definition content_length :: "nat \<Rightarrow> header list \<Rightarrow> str + nat option" where
  "content_length W headers =
     content_length_loop W None
       (map snd (filter (\<lambda>h. eq_ignore_ascii_case (fst h) (lit ''content-length'')) headers))"

section \<open>Bodies\<close>

definition read_content_length_body :: "bytes \<Rightarrow> nat \<Rightarrow> reader_state \<Rightarrow> bytes io \<times> reader_state" where
  "read_content_length_body body len r =
     (if MAX_BODY_BYTES < len then (Fail (lit ''HTTP response body exceeds limit''), r)
      else io_bind
        (fill_until (\<lambda>b. if length b < len then None else Some ()) (\<lambda>_. None) len body r)
        (\<lambda>(got, r). case got of (_, body) \<Rightarrow> (Done (take len body), r)))"

text \<open>\<open>body[pos..].windows(2).position(..)\<close>; the slice panics past the end of the buffer.\<close>

definition line_end_from :: "nat \<Rightarrow> bytes \<Rightarrow> nat exec option" where
  "line_end_from pos body =
     (if length body < pos then Some Panic
      else map_option (\<lambda>rel. Ret (pos + rel)) (find_window CRLF (drop pos body)))"

definition read_line_end ::
    "(bytes \<Rightarrow> str option) \<Rightarrow> nat \<Rightarrow> bytes \<Rightarrow> reader_state \<Rightarrow> (nat \<times> bytes) io \<times> reader_state" where
  "read_line_end guard pos body r =
     io_bind (fill_until (line_end_from pos) guard MAX_BODY_BYTES body r)
       (\<lambda>(got, r). case got of (x, body) \<Rightarrow> io_bind (io_exec x, r) (\<lambda>(line_end, r). (Done (line_end, body), r)))"

text \<open>\<open>usize::from_str_radix\<close> for hexadecimal.\<close>

fun parse_hex_digits :: "nat \<Rightarrow> nat \<Rightarrow> str \<Rightarrow> nat option" where
  "parse_hex_digits m acc [] = Some acc"
| "parse_hex_digits m acc (c # cs) =
     (case hex_digit_value c of
        None \<Rightarrow> None
      | Some d \<Rightarrow> if m < acc * 16 + d then None else parse_hex_digits m (acc * 16 + d) cs)"

definition parse_hex :: "nat \<Rightarrow> str \<Rightarrow> nat option" where
  "parse_hex m s =
     (let ds = (case s of c # cs \<Rightarrow> if c = 43 then cs else s | [] \<Rightarrow> [])
      in if ds = [] then None else parse_hex_digits m 0 ds)"

definition chunk_size :: "nat \<Rightarrow> bytes \<Rightarrow> str + nat" where
  "chunk_size W line =
     (case str_from_utf8 line of
        None \<Rightarrow> Inl (lit ''chunk size is not valid UTF-8'')
      | Some size_line \<Rightarrow>
          (let size_hex = trim (case split_once 59 size_line of Some (front, _) \<Rightarrow> front | None \<Rightarrow> size_line)
           in case parse_hex (2 ^ W - 1) size_hex of
                None \<Rightarrow> Inl (lit ''invalid chunk size'')
              | Some n \<Rightarrow> Inr n))"

text \<open>The trailers: lines until an empty one.\<close>

definition trailer_guard :: "nat \<Rightarrow> bytes \<Rightarrow> str option" where
  "trailer_guard trailer_start body =
     (if MAX_HEADER_BYTES \<le> length body - trailer_start
      then Some (lit ''chunk trailers exceed limit'') else None)"

definition no_guard :: "bytes \<Rightarrow> str option" where
  "no_guard body = None"

text \<open>How far a pass of the body loops may still go: what is buffered and not yet read past.\<close>

fun reader_bytes :: "reader_state \<Rightarrow> nat" where
  "reader_bytes [] = 0"
| "reader_bytes (Data bs # r) = length bs + reader_bytes r"
| "reader_bytes (_ # r) = reader_bytes r"

lemma read_some_bytes: "read_some k r = (Done bs, r') \<Longrightarrow> reader_bytes r = length bs + reader_bytes r'"
  by (cases "(k, r)" rule: read_some.cases) (auto split: if_splits)

lemma read_more_bytes:
  "read_more buf limit r = (Done buf', r') \<Longrightarrow> length buf + reader_bytes r = length buf' + reader_bytes r'"
  unfolding read_more_def
  by (cases "read_some (min (limit - length buf) 8192) r"; cases "fst (read_some (min (limit - length buf) 8192) r)")
    (auto split: if_splits dest: read_some_bytes)

lemma fill_until_Done:
  "fill_until found guard limit buf r = (Done (x, buf'), r') \<Longrightarrow>
     found buf' = Some x \<and> length buf + reader_bytes r = length buf' + reader_bytes r' \<and>
     length buf \<le> length buf' \<and> length buf' \<le> max limit (length buf) \<and> take (length buf) buf' = buf"
proof (induction found guard limit buf r rule: fill_until.induct)
  case (1 found guard limit buf r)
  show ?case
  proof (cases "found buf")
    case (Some y)
    then show ?thesis using "1.prems" by (simp add: fill_until.simps [of found])
  next
    case None
    then obtain b r1 where step: "guard buf = None" "read_more buf limit r = (Done b, r1)"
      and rest: "fill_until found guard limit b r1 = (Done (x, buf'), r')"
      using "1.prems"
      by (subst (asm) fill_until.simps) (auto split: option.splits prod.splits io.splits)
    have m: "length buf < length b" "length b \<le> limit" "take (length buf) b = buf"
      "length buf + reader_bytes r = length b + reader_bytes r1"
      using read_more_Done [OF step(2)] read_more_bytes [OF step(2)] by auto
    have ih: "found buf' = Some x \<and> length b + reader_bytes r1 = length buf' + reader_bytes r' \<and>
        length b \<le> length buf' \<and> length buf' \<le> max limit (length b) \<and> take (length b) buf' = b"
      using "1.IH" [OF None step(1) step(2) [symmetric] refl rest] .
    then have "take (length buf) buf' = buf"
      using m by (metis less_imp_le min.absorb1 take_take)
    then show ?thesis using ih m by auto
  qed
qed

lemma find_window_bound: "find_window p bs = Some i \<Longrightarrow> i + length p \<le> length bs"
  by (induction p bs arbitrary: i rule: find_window.induct)
    (auto split: if_splits dest!: arg_cong [where f = length])

lemma read_line_end_Done:
  assumes "read_line_end guard pos body r = (Done (line_end, body'), r')"
  shows "pos \<le> line_end" and "line_end + 2 \<le> length body'"
    and "length body + reader_bytes r = length body' + reader_bytes r'"
    and "length body' \<le> max MAX_BODY_BYTES (length body)"
proof -
  obtain x where fill: "fill_until (line_end_from pos) guard MAX_BODY_BYTES body r = (Done (x, body'), r')"
    and x: "x = Ret line_end"
    using assms
    by (cases "fill_until (line_end_from pos) guard MAX_BODY_BYTES body r";
        cases "fst (fill_until (line_end_from pos) guard MAX_BODY_BYTES body r)")
      (auto simp: read_line_end_def io_exec_def split: exec.splits)
  note d = fill_until_Done [OF fill]
  obtain rel where "find_window CRLF (drop pos body') = Some rel" "line_end = pos + rel" "pos \<le> length body'"
    using d x by (auto simp: line_end_from_def split: if_splits)
  then show "pos \<le> line_end" "line_end + 2 \<le> length body'"
    using find_window_bound [of CRLF "drop pos body'" rel] by (auto simp: CRLF_def)
  show "length body + reader_bytes r = length body' + reader_bytes r'"
    and "length body' \<le> max MAX_BODY_BYTES (length body)"
    using d by auto
qed

lemma io_bind_cong [fundef_cong]:
  assumes "m = m'" and "\<And>x s. m' = (Done x, s) \<Longrightarrow> f (x, s) = g (x, s)"
  shows "io_bind m f = io_bind m' g"
  using assms by (cases "(m', g)" rule: io_bind.cases) auto

function read_chunk_trailers :: "nat \<Rightarrow> bytes \<Rightarrow> nat \<Rightarrow> reader_state \<Rightarrow> unit io \<times> reader_state" where
  "read_chunk_trailers trailer_start body pos r =
     io_bind (read_line_end (trailer_guard trailer_start) pos body r) (\<lambda>(got, r). case got of (line_end, body) \<Rightarrow>
       if line_end = pos then (Done (), r)
       else read_chunk_trailers trailer_start body (line_end + 2) r)"
  by auto

lemma read_line_end_moves:
  "read_line_end guard pos body r = (Done (line_end, body'), r') \<Longrightarrow>
     pos \<le> line_end \<and> line_end + 2 \<le> length body' \<and>
     length body + reader_bytes r = length body' + reader_bytes r'"
  using read_line_end_Done [of guard pos body r line_end body' r'] by simp

termination read_chunk_trailers
  by (relation "measure (\<lambda>(st, body, pos, r). reader_bytes r + length body - pos)")
    (auto dest!: read_line_end_moves)

declare read_chunk_trailers.simps [simp del]

text \<open>
  One pass of the loop over the chunks: the decoded body after the last chunk, or what the next
  pass starts from. Every slice of the source keeps its bounds check.
\<close>

datatype chunk_step = LastChunk bytes | NextChunk bytes nat bytes

definition read_chunk_data ::
    "bytes \<Rightarrow> nat \<Rightarrow> nat \<Rightarrow> bytes \<Rightarrow> reader_state \<Rightarrow> chunk_step io \<times> reader_state" where
  "read_chunk_data decoded start n body r =
     io_bind (fill_until (\<lambda>b. if length b < start + n + 2 then None else Some ()) no_guard
                MAX_BODY_BYTES body r) (\<lambda>(got, r). case got of (_, body) \<Rightarrow>
     io_bind (io_exec (slice_at body start (start + n)), r) (\<lambda>(chunk, r).
     io_bind (io_exec (slice_at body (start + n) (start + n + 2)), r) (\<lambda>(crlf, r).
     if crlf \<noteq> CRLF then (Fail (lit ''chunk is missing trailing CRLF''), r)
     else (Done (NextChunk (decoded @ chunk) (start + n + 2) body), r))))"

definition next_chunk ::
    "nat \<Rightarrow> bytes \<Rightarrow> nat \<Rightarrow> bytes \<Rightarrow> reader_state \<Rightarrow> chunk_step io \<times> reader_state" where
  "next_chunk W decoded pos body r =
     io_bind (read_line_end no_guard pos body r) (\<lambda>(got, r). case got of (line_end, body) \<Rightarrow>
     io_bind (io_exec (slice_at body pos line_end), r) (\<lambda>(line, r).
     io_bind (io_result (chunk_size W line), r) (\<lambda>(n, r).
     let start = line_end + 2
     in if n = 0
        then io_bind (read_chunk_trailers start body start r) (\<lambda>(_, r). (Done (LastChunk decoded), r))
        else if MAX_BODY_BYTES < min (length decoded + n) (2 ^ W - 1)
        then (Fail (lit ''HTTP response body exceeds limit''), r)
        else read_chunk_data decoded start n body r)))"

lemma fill_length_moves:
  "fill_until (\<lambda>b. if length b < n then None else Some ()) guard limit body r = (Done (u, body'), r') \<Longrightarrow>
     n \<le> length body' \<and> length body + reader_bytes r = length body' + reader_bytes r'"
  using fill_until_Done [of "\<lambda>b. if length b < n then None else Some ()"]
  by (fastforce split: if_splits)

lemma io_exec_Done: "io_exec x = Done y \<longleftrightarrow> x = Ret y"
  by (cases x) (auto simp: io_exec_def)

lemma io_result_Done: "io_result x = Done y \<longleftrightarrow> x = Inr y"
  by (cases x) (auto simp: io_result_def)

text \<open>How the reads of a pass move bytes from the connection into the buffer.\<close>

lemma slice_at_in: "a \<le> b \<Longrightarrow> b \<le> length xs \<Longrightarrow> io_exec (slice_at xs a b) = Done (slice_of xs a b)"
  by (simp add: slice_at_def io_exec_def)

lemma io_bind_Done: "io_bind m f = (Done y, s) \<longleftrightarrow> (\<exists>x s'. m = (Done x, s') \<and> f (x, s') = (Done y, s))"
  by (cases "(m, f)" rule: io_bind.cases) auto

lemma read_chunk_data_Done:
  assumes "read_chunk_data decoded start n body r = (Done st, r')" and "start \<le> length body"
  obtains chunk body' where "st = NextChunk (decoded @ chunk) (start + n + 2) body'" and "length chunk = n"
    and "start + n + 2 \<le> length body'" and "length body + reader_bytes r = length body' + reader_bytes r'"
    and "length body' \<le> max MAX_BODY_BYTES (length body)"
proof -
  obtain u b where fill: "fill_until (\<lambda>b. if length b < start + n + 2 then None else Some ()) no_guard
      MAX_BODY_BYTES body r = (Done (u, b), r')"
    and st: "st = NextChunk (decoded @ slice_of b start (start + n)) (start + n + 2) b"
    using assms
    by (auto simp: read_chunk_data_def io_bind_Done io_exec_Done slice_at_def split: if_splits)
  note f = fill_length_moves [OF fill]
  show thesis
    by (rule that [OF st]) (use f fill_until_Done [OF fill] in auto)
qed

lemma next_chunk_Done:
  assumes "next_chunk W decoded pos body r = (Done (NextChunk decoded' pos' body'), r')"
  shows "pos < pos'" and "pos' \<le> length body'"
    and "length body + reader_bytes r = length body' + reader_bytes r'"
    and "length body' \<le> max MAX_BODY_BYTES (length body)"
    and "32 \<le> W \<Longrightarrow> length decoded' \<le> MAX_BODY_BYTES"
proof -
  obtain line_end b r1 n where line: "read_line_end no_guard pos body r = (Done (line_end, b), r1)"
    and data: "read_chunk_data decoded (line_end + 2) n b r1 = (Done (NextChunk decoded' pos' body'), r')"
    and small: "\<not> MAX_BODY_BYTES < min (length decoded + n) (2 ^ W - 1)"
    using assms
    by (auto simp: next_chunk_def io_bind_Done io_exec_Done io_result_Done Let_def split: if_splits)
  note l = read_line_end_Done [OF line]
  obtain chunk where c: "decoded' = decoded @ chunk" "length chunk = n" "pos' = line_end + 2 + n + 2"
    "pos' \<le> length body'" "length b + reader_bytes r1 = length body' + reader_bytes r'"
    "length body' \<le> max MAX_BODY_BYTES (length b)"
    using read_chunk_data_Done [OF data l(2)] by auto
  then show "pos < pos'" "pos' \<le> length body'"
    "length body + reader_bytes r = length body' + reader_bytes r'"
    "length body' \<le> max MAX_BODY_BYTES (length body)"
    using l by auto
  show "length decoded' \<le> MAX_BODY_BYTES" if "32 \<le> W"
  proof -
    have "(2 :: nat) ^ 32 \<le> 2 ^ W" using that by (rule power_increasing) simp
    then have "MAX_BODY_BYTES < 2 ^ W - 1" by (simp add: MAX_BODY_BYTES_def)
    then show ?thesis using small c by auto
  qed
qed

function read_chunks :: "nat \<Rightarrow> bytes \<Rightarrow> nat \<Rightarrow> bytes \<Rightarrow> reader_state \<Rightarrow> bytes io \<times> reader_state" where
  "read_chunks W decoded pos body r =
     io_bind (next_chunk W decoded pos body r) (\<lambda>(st, r).
       case st of
         LastChunk out \<Rightarrow> (Done out, r)
       | NextChunk decoded pos body \<Rightarrow> read_chunks W decoded pos body r)"
  by auto

termination read_chunks
proof (relation "measure (\<lambda>(W, decoded, pos, body, r). reader_bytes r + length body - pos)", goal_cases)
  case (2 W decoded pos body r st s st' r' decoded' pos' body')
  then have "next_chunk W decoded pos body r = (Done (NextChunk decoded' pos' body'), r')" by simp
  from next_chunk_Done(1-3) [OF this] show ?case by auto
qed simp

declare read_chunks.simps [simp del]

definition read_chunked_body :: "nat \<Rightarrow> bytes \<Rightarrow> reader_state \<Rightarrow> bytes io \<times> reader_state" where
  "read_chunked_body W body r = read_chunks W [] 0 body r"

function read_until_eof_limited :: "bytes \<Rightarrow> reader_state \<Rightarrow> bytes io \<times> reader_state" where
  "read_until_eof_limited body r =
     (if MAX_BODY_BYTES < length body then (Fail (lit ''HTTP response body exceeds limit''), r)
      else io_bind (read_some (max 1 (min (MAX_BODY_BYTES - length body) 8192)) r) (\<lambda>(chunk, r).
        if chunk = [] then (Done body, r)
        else if MAX_BODY_BYTES < length body + length chunk
        then (Fail (lit ''HTTP response body exceeds limit''), r)
        else read_until_eof_limited (body @ chunk) r))"
  by auto

termination read_until_eof_limited
proof (relation "measure (\<lambda>(body, r). reader_bytes r)", goal_cases)
  case (2 body r chunk r')
  then show ?case using read_some_bytes [of _ r chunk r'] by (cases chunk) auto
qed simp

declare read_until_eof_limited.simps [simp del]

section \<open>The response\<close>

definition read_body ::
    "nat \<Rightarrow> header list \<Rightarrow> nat option \<Rightarrow> bytes \<Rightarrow> reader_state \<Rightarrow> bytes io \<times> reader_state" where
  "read_body W headers declared_len rest r =
     (if is_chunked headers then read_chunked_body W rest r
      else case declared_len of
          Some len \<Rightarrow> read_content_length_body rest len r
        | None \<Rightarrow> read_until_eof_limited rest r)"

text \<open>What follows the headers, which are the first \<open>header_len\<close> bytes of the buffer.\<close>

definition finish_response ::
    "nat \<Rightarrow> http_parser \<Rightarrow> nat \<Rightarrow> bytes \<Rightarrow> reader_state \<Rightarrow> str io \<times> reader_state" where
  "finish_response W parser header_len buf r =
     io_bind (io_exec (slice_at buf 0 header_len), r) (\<lambda>(head, r).
     case parser (http_header_count head) head of
       ParseError e \<Rightarrow> (Fail (lit ''HTTP parse error: '' @ e), r)
     | Partial \<Rightarrow> (Fail (lit ''incomplete HTTP response headers''), r)
     | Complete None headers \<Rightarrow> (Fail (lit ''response status line has no status code''), r)
     | Complete (Some code) headers \<Rightarrow>
         if code \<noteq> 200 then (Fail (lit ''HTTP status '' @ show_nat code), r)
         else
           io_bind (io_result (content_length W headers), r) (\<lambda>(declared_len, r).
           io_bind (read_body W headers declared_len (drop header_len buf) r) (\<lambda>(body, r).
           case str_from_utf8 body of
             Some s \<Rightarrow> (Done s, r)
           | None \<Rightarrow> (Fail (lit ''response body is not valid UTF-8''), r))))"

definition read_http_response_body ::
    "nat \<Rightarrow> http_parser \<Rightarrow> reader_state \<Rightarrow> str io \<times> reader_state" where
  "read_http_response_body W parser r =
     io_bind (read_until_headers [] r) (\<lambda>(got, r). case got of (header_len, buf) \<Rightarrow>
       finish_response W parser header_len buf r)"

section \<open>The fetch\<close>

definition DOMAINS_URL_HOST :: str where "DOMAINS_URL_HOST = lit ''raw.githubusercontent.com''"

definition DOMAINS_URL_PATH :: str where
  "DOMAINS_URL_PATH =
     lit ''/Flowseal/tg-ws-proxy/refs/heads/main/.github/cfproxy-domains.txt''"

text \<open>
  The TLS client: the error of a host that is no server name, the handshake on a stream (no
  answer when the deadline passes), a write, and what the session then delivers until the
  deadline of the read.
\<close>

record 'w tls_client =
  tc_bad_name :: "str \<Rightarrow> str option"
  tc_handshake :: "nat \<Rightarrow> str \<Rightarrow> 'w \<Rightarrow> (str + nat) option \<times> 'w"
  tc_write :: "nat \<Rightarrow> bytes \<Rightarrow> 'w \<Rightarrow> (str + unit) \<times> 'w"
  tc_reads :: "nat \<Rightarrow> 'w \<Rightarrow> reader_state"

definition http_request :: "str \<Rightarrow> str \<Rightarrow> str" where
  "http_request host path =
     lit ''GET '' @ path @ lit '' HTTP/1.1'' @ [13, 10] @ lit ''Host: '' @ host @ [13, 10] @
     lit ''Connection: close'' @ [13, 10] @ lit ''User-Agent: tg-ws-proxy'' @ [13, 10, 13, 10]"

definition https_get ::
    "nat \<Rightarrow> http_parser \<Rightarrow> 'n outbound_libs \<Rightarrow> 'w outbound_net \<Rightarrow> 'w tls_client \<Rightarrow>
     'n OutboundConfig \<Rightarrow> str \<Rightarrow> str \<Rightarrow> 'w \<Rightarrow> str io \<times> 'w" where
  "https_get W parser lib net tls outbound host path w =
     (case connect lib net outbound host 443 w of
        (Inl e, _, w) \<Rightarrow> (Fail (oe_reason e), w)
      | (Inr tcp, _, w) \<Rightarrow>
          (case tc_bad_name tls host of
             Some e \<Rightarrow> (Fail (lit ''invalid server name: '' @ e), w)
           | None \<Rightarrow>
               (case tc_handshake tls tcp host w of
                  (None, w) \<Rightarrow> (Fail (lit ''TLS handshake timed out''), w)
                | (Some (Inl e), w) \<Rightarrow> (Fail (lit ''TLS handshake: '' @ e), w)
                | (Some (Inr session), w) \<Rightarrow>
                    (case tc_write tls session (utf8_encode (http_request host path)) w of
                       (Inl e, w) \<Rightarrow> (Fail (lit ''write: '' @ e), w)
                     | (Inr _, w) \<Rightarrow>
                         (case fst (read_http_response_body W parser (tc_reads tls session w)) of
                            Elapsed \<Rightarrow> (Fail (lit ''read timed out''), w)
                          | x \<Rightarrow> (x, w))))))"

definition fetch_default_domains_with_outbound ::
    "nat \<Rightarrow> http_parser \<Rightarrow> 'n outbound_libs \<Rightarrow> 'w outbound_net \<Rightarrow> 'w tls_client \<Rightarrow>
     'n OutboundConfig \<Rightarrow> 'w \<Rightarrow> str list exec \<times> 'w" where
  "fetch_default_domains_with_outbound W parser lib net tls outbound w =
     (case https_get W parser lib net tls outbound DOMAINS_URL_HOST DOMAINS_URL_PATH w of
        (Done body, w) \<Rightarrow> (Ret (fetch_default_domains (Some body)), w)
      | (Panicked, w) \<Rightarrow> (Panic, w)
      | (_, w) \<Rightarrow> (Ret (fetch_default_domains None), w))"

definition fetch_default_domains_direct ::
    "nat \<Rightarrow> http_parser \<Rightarrow> 'n outbound_libs \<Rightarrow> 'w outbound_net \<Rightarrow> 'w tls_client \<Rightarrow> 'w \<Rightarrow>
     str list exec \<times> 'w" where
  "fetch_default_domains_direct W parser lib net tls w =
     fetch_default_domains_with_outbound W parser lib net tls direct_connector w"

section \<open>Bounds\<close>

lemma read_some_io: "fst (read_some k r) \<noteq> Panicked" "reader_bytes (snd (read_some k r)) \<le> reader_bytes r"
  by (cases "(k, r)" rule: read_some.cases; simp)+

lemma read_more_fails:
  assumes "read_more buf limit r = (x, r')" and "\<forall>b. x \<noteq> Done b"
  shows "x \<noteq> Panicked" and "reader_bytes r' = reader_bytes r"
  using assms
  by (cases "(min (limit - length buf) 8192, r)" rule: read_some.cases;
      auto simp: read_more_def split: if_splits)+

text \<open>
  Code that reads behind a buffer: it never panics, and it takes at most what brings the buffer
  up to the limit.
\<close>

definition within :: "nat \<Rightarrow> bytes \<Rightarrow> reader_state \<Rightarrow> 'a io \<times> reader_state \<Rightarrow> bool" where
  "within limit body r out \<longleftrightarrow>
     fst out \<noteq> Panicked \<and> length body + reader_bytes r \<le> max limit (length body) + reader_bytes (snd out)"

lemma fill_until_within: "within limit buf r (fill_until found guard limit buf r)"
proof (induction found guard limit buf r rule: fill_until.induct)
  case (1 found guard limit buf r)
  show ?case
  proof (cases "found buf = None \<and> guard buf = None")
    case True
    obtain x r1 where m: "read_more buf limit r = (x, r1)" by (cases "read_more buf limit r")
    show ?thesis
    proof (cases x)
      case (Done b)
      have "within limit b r1 (fill_until found guard limit b r1)"
        by (rule "1.IH" [OF conjunct1 [OF True] conjunct2 [OF True] m [symmetric] Done])
      then show ?thesis
        using True m Done read_more_Done [of buf limit r b r1] read_more_bytes [of buf limit r b r1]
        by (subst fill_until.simps) (auto simp: within_def)
    qed (use True m read_more_fails [OF m] in \<open>auto simp: within_def fill_until.simps [of found guard limit buf r]\<close>)
  next
    case False
    then show ?thesis by (subst fill_until.simps) (auto simp: within_def split: option.splits)
  qed
qed

lemma read_line_end_within:
  assumes "pos \<le> length body"
  shows "within MAX_BODY_BYTES body r (read_line_end guard pos body r)"
proof -
  obtain x r1 where f: "fill_until (line_end_from pos) guard MAX_BODY_BYTES body r = (x, r1)"
    by (cases "fill_until (line_end_from pos) guard MAX_BODY_BYTES body r")
  have w: "within MAX_BODY_BYTES body r (x, r1)" using fill_until_within f by metis
  show ?thesis
  proof (cases x)
    case (Done y)
    obtain z b where y: "y = (z, b)" by (cases y)
    have "line_end_from pos b = Some z" "length body \<le> length b"
      using fill_until_Done [of "line_end_from pos" guard MAX_BODY_BYTES body r z b r1] f Done y by auto
    then obtain n where "z = Ret n" using assms by (auto simp: line_end_from_def split: if_splits)
    then show ?thesis using w f Done y by (simp add: read_line_end_def io_exec_def within_def)
  qed (use w f in \<open>simp_all add: read_line_end_def within_def\<close>)
qed

lemma io_bind_within:
  assumes "within limit body r m"
    and "\<And>x r'. m = (Done x, r') \<Longrightarrow> within limit body r (f (x, r'))"
  shows "within limit body r (io_bind m f)"
  using assms by (cases "(m, f)" rule: io_bind.cases) (auto simp: within_def)

lemma within_trans:
  assumes "within limit body' r' out" and "length body + reader_bytes r = length body' + reader_bytes r'"
    and "length body' \<le> max limit (length body)"
  shows "within limit body r out"
  using assms by (auto simp: within_def)

lemma within_Done: "within limit body r (Done x, r') \<longleftrightarrow> within limit body r (Fail e, r')"
  by (simp add: within_def)

lemma read_chunk_trailers_within:
  "pos \<le> length body \<Longrightarrow> within MAX_BODY_BYTES body r (read_chunk_trailers st body pos r)"
proof (induction st body pos r rule: read_chunk_trailers.induct)
  case (1 st body pos r)
  have w: "within MAX_BODY_BYTES body r (read_line_end (trailer_guard st) pos body r)"
    using read_line_end_within 1 by blast
  show ?case
    unfolding read_chunk_trailers.simps [of st body]
  proof (rule io_bind_within [OF w])
    fix got r' assume got: "read_line_end (trailer_guard st) pos body r = (Done got, r')"
    obtain line_end b where g: "got = (line_end, b)" by (cases got)
    note d = read_line_end_Done [OF got [unfolded g]]
    have w0: "within MAX_BODY_BYTES body r (Done (), r')"
      using w got by (simp add: within_def)
    have "within MAX_BODY_BYTES b r' (read_chunk_trailers st b (line_end + 2) r')" if "line_end \<noteq> pos"
      using "1.IH" [OF got refl g [symmetric] that] d by simp
    then show "within MAX_BODY_BYTES body r
        (case (got, r') of (got, r) \<Rightarrow> case got of (line_end, body) \<Rightarrow>
           if line_end = pos then (Done (), r) else read_chunk_trailers st body (line_end + 2) r)"
      using w0 within_trans [OF _ d(3,4)] by (cases "line_end = pos") (simp_all add: g)
  qed
qed

lemma read_chunk_data_within:
  assumes "start \<le> length body"
  shows "within MAX_BODY_BYTES body r (read_chunk_data decoded start n body r)"
  unfolding read_chunk_data_def
proof (rule io_bind_within [OF fill_until_within], clarify)
  fix u b r1
  assume fill: "fill_until (\<lambda>b. if length b < start + n + 2 then None else Some ()) no_guard
    MAX_BODY_BYTES body r = (Done (u, b), r1)"
  have "within MAX_BODY_BYTES body r (Done (u, b), r1)" using fill_until_within fill by metis
  then show "within MAX_BODY_BYTES body r
      (io_bind (io_exec (slice_at b start (start + n)), r1) (\<lambda>(chunk, r).
       io_bind (io_exec (slice_at b (start + n) (start + n + 2)), r) (\<lambda>(crlf, r).
       if crlf \<noteq> CRLF then (Fail (lit ''chunk is missing trailing CRLF''), r)
       else (Done (NextChunk (decoded @ chunk) (start + n + 2) b), r))))"
    using fill_length_moves [OF fill] by (auto simp: slice_at_in within_def)
qed

lemma next_chunk_within:
  assumes "pos \<le> length body"
  shows "within MAX_BODY_BYTES body r (next_chunk W decoded pos body r)"
  unfolding next_chunk_def
proof (rule io_bind_within [OF read_line_end_within [OF assms]], clarify)
  fix line_end b r1
  assume line: "read_line_end no_guard pos body r = (Done (line_end, b), r1)"
  note l = read_line_end_Done [OF line]
  note lift = within_trans [OF _ l(3,4)]
  have s: "io_exec (slice_at b pos line_end) = Done (slice_of b pos line_end)"
    using l by (intro slice_at_in) auto
  have stop: "within MAX_BODY_BYTES body r (Fail e :: chunk_step io, r1)" for e
    using read_line_end_within [OF assms, of r no_guard] line by (simp add: within_def)
  have trailers: "within MAX_BODY_BYTES body r
      (io_bind (read_chunk_trailers (line_end + 2) b (line_end + 2) r1) (\<lambda>(_, r). (Done (LastChunk decoded), r)))"
  proof (rule io_bind_within [OF lift [OF read_chunk_trailers_within [OF l(2)]]], clarify)
    fix u r2 assume "read_chunk_trailers (line_end + 2) b (line_end + 2) r1 = (Done u, r2)"
    then show "within MAX_BODY_BYTES body r (Done (LastChunk decoded), r2)"
      using lift [OF read_chunk_trailers_within [OF l(2), of r1 "line_end + 2"]] by (simp add: within_def)
  qed
  show "within MAX_BODY_BYTES body r
      (io_bind (io_exec (slice_at b pos line_end), r1) (\<lambda>(line, r).
       io_bind (io_result (chunk_size W line), r) (\<lambda>(n, r).
       let start = line_end + 2
       in if n = 0
          then io_bind (read_chunk_trailers start b start r) (\<lambda>(_, r). (Done (LastChunk decoded), r))
          else if MAX_BODY_BYTES < min (length decoded + n) (2 ^ W - 1)
          then (Fail (lit ''HTTP response body exceeds limit''), r)
          else read_chunk_data decoded start n b r)))"
    using stop trailers lift [OF read_chunk_data_within [OF l(2)]]
    by (cases "chunk_size W (slice_of b pos line_end)") (simp_all add: s io_result_def Let_def)
qed

lemma read_chunks_within:
  "pos \<le> length body \<Longrightarrow> within MAX_BODY_BYTES body r (read_chunks W decoded pos body r)"
proof (induction W decoded pos body r rule: read_chunks.induct)
  case (1 W decoded pos body r)
  show ?case
    unfolding read_chunks.simps [of W decoded]
  proof (rule io_bind_within [OF next_chunk_within [OF 1(2)]], clarify)
    fix st r' assume st: "next_chunk W decoded pos body r = (Done st, r')"
    show "within MAX_BODY_BYTES body r
        (case st of LastChunk out \<Rightarrow> (Done out, r')
         | NextChunk decoded pos body \<Rightarrow> read_chunks W decoded pos body r')"
    proof (cases st)
      case (LastChunk out)
      then show ?thesis using next_chunk_within [OF 1(2), of r W decoded] st by (simp add: within_def)
    next
      case (NextChunk d q b)
      note n = next_chunk_Done [OF st [unfolded NextChunk]]
      have "within MAX_BODY_BYTES b r' (read_chunks W d q b r')"
        using "1.IH" [OF st refl NextChunk n(2)] .
      then show ?thesis using NextChunk within_trans [OF _ n(3,4)] by simp
    qed
  qed
qed

lemma read_chunks_length:
  "read_chunks W decoded pos body r = (Done out, r') \<Longrightarrow> 32 \<le> W \<Longrightarrow> length decoded \<le> MAX_BODY_BYTES \<Longrightarrow>
   length out \<le> MAX_BODY_BYTES"
proof (induction W decoded pos body r rule: read_chunks.induct)
  case (1 W decoded pos body r)
  from "1.prems"(1) obtain st r1 where st: "next_chunk W decoded pos body r = (Done st, r1)"
    and k: "(case st of LastChunk out \<Rightarrow> (Done out, r1)
             | NextChunk decoded pos body \<Rightarrow> read_chunks W decoded pos body r1) = (Done out, r')"
    by (subst (asm) read_chunks.simps) (auto simp: io_bind_Done)
  show ?case
  proof (cases st)
    case (LastChunk d)
    then have "d = decoded"
      using st by (auto simp: next_chunk_def read_chunk_data_def io_bind_Done Let_def split: if_splits)
    then show ?thesis using LastChunk k "1.prems" by simp
  next
    case (NextChunk d q b)
    then show ?thesis
      using "1.IH" [OF st refl NextChunk] k next_chunk_Done(5) [OF st [unfolded NextChunk]] "1.prems" by simp
  qed
qed

lemma read_until_eof_within:
  "within (MAX_BODY_BYTES + 1) body r (read_until_eof_limited body r)"
proof (induction body r rule: read_until_eof_limited.induct)
  case (1 body r)
  show ?case
  proof (cases "MAX_BODY_BYTES < length body")
    case True
    then show ?thesis by (simp add: read_until_eof_limited.simps [of body] within_def)
  next
    case False
    let ?k = "max 1 (min (MAX_BODY_BYTES - length body) 8192)"
    obtain x r' where x: "read_some ?k r = (x, r')" by (cases "read_some ?k r")
    have k: "length body + ?k \<le> MAX_BODY_BYTES + 1" using False by auto
    have len: "x = Done chunk \<Longrightarrow> length chunk \<le> ?k" for chunk
      using x by (cases "(?k, r)" rule: read_some.cases) auto
    have bytes: "reader_bytes r \<le> reader_bytes r' + ?k" and np: "x \<noteq> Panicked"
      using x by (cases "(?k, r)" rule: read_some.cases; auto split: if_splits)+
    show ?thesis
      unfolding read_until_eof_limited.simps [of body] if_not_P [OF False] x
    proof (rule io_bind_within)
      show "within (MAX_BODY_BYTES + 1) body r (x, r')" using bytes np k by (auto simp: within_def)
    next
      fix chunk s assume c: "(x, r') = (Done chunk, s)"
      have d: "length body + length chunk \<le> MAX_BODY_BYTES + 1" "reader_bytes r = length chunk + reader_bytes s"
        using c len k read_some_bytes [of ?k r chunk s] x by auto
      have "within (MAX_BODY_BYTES + 1) (body @ chunk) s (read_until_eof_limited (body @ chunk) s)"
        if "chunk \<noteq> []" "\<not> MAX_BODY_BYTES < length body + length chunk"
        using "1.IH" [OF False x [unfolded c] refl that] .
      then show "within (MAX_BODY_BYTES + 1) body r (case (chunk, s) of (chunk, r) \<Rightarrow>
          if chunk = [] then (Done body, r)
          else if MAX_BODY_BYTES < length body + length chunk
          then (Fail (lit ''HTTP response body exceeds limit''), r)
          else read_until_eof_limited (body @ chunk) r)"
        using d by (auto simp: within_def)
    qed
  qed
qed

lemma read_until_eof_length:
  "read_until_eof_limited body r = (Done out, r') \<Longrightarrow> length out \<le> MAX_BODY_BYTES"
proof (induction body r rule: read_until_eof_limited.induct)
  case (1 body r)
  from "1.prems" have b: "\<not> MAX_BODY_BYTES < length body"
    by (subst (asm) read_until_eof_limited.simps) (auto split: if_splits)
  obtain chunk s where x: "read_some (max 1 (min (MAX_BODY_BYTES - length body) 8192)) r = (Done chunk, s)"
    and k: "chunk = [] \<and> out = body \<or> chunk \<noteq> [] \<and> \<not> MAX_BODY_BYTES < length body + length chunk \<and>
      read_until_eof_limited (body @ chunk) s = (Done out, r')"
    using "1.prems" b
    by (subst (asm) read_until_eof_limited.simps) (auto simp: io_bind_Done split: if_splits)
  then show ?case using "1.IH" [OF b x refl] b by auto
qed

lemma read_body_within:
  assumes "length rest \<le> MAX_BODY_BYTES"
  shows "within (MAX_BODY_BYTES + 1) rest r (read_body W headers declared rest r)"
    and "read_body W headers declared rest r = (Done out, r') \<Longrightarrow> 32 \<le> W \<Longrightarrow> length out \<le> MAX_BODY_BYTES"
proof -
  have widen: "within MAX_BODY_BYTES rest r m \<Longrightarrow> within (MAX_BODY_BYTES + 1) rest r m" for m :: "bytes io \<times> reader_state"
    by (auto simp: within_def)
  have cl: "within MAX_BODY_BYTES rest r (read_content_length_body rest len r)" for len
  proof (cases "MAX_BODY_BYTES < len")
    case True
    then show ?thesis by (simp add: read_content_length_body_def within_def)
  next
    case False
    let ?fill = "fill_until (\<lambda>b. if length b < len then None else Some ()) (\<lambda>_. None) len rest r"
    have w: "within MAX_BODY_BYTES rest r ?fill"
      using fill_until_within [of len rest r "\<lambda>b. if length b < len then None else Some ()" "\<lambda>_. None"]
        False assms by (simp add: within_def) (meson add_le_mono1 le_trans max.bounded_iff not_le)
    show ?thesis
      unfolding read_content_length_body_def if_not_P [OF False]
    proof (rule io_bind_within [OF w], clarify)
      fix u b s assume "?fill = (Done (u, b), s)"
      then show "within MAX_BODY_BYTES rest r (Done (take len b), s)" using w by (simp add: within_def)
    qed
  qed
  show "within (MAX_BODY_BYTES + 1) rest r (read_body W headers declared rest r)"
    using widen [OF read_chunks_within [of 0 rest r W "[]"]] widen [OF cl] read_until_eof_within
    by (simp add: read_body_def read_chunked_body_def split: option.splits)
  show "length out \<le> MAX_BODY_BYTES" if "read_body W headers declared rest r = (Done out, r')" "32 \<le> W"
    using that read_chunks_length [of W "[]"] read_until_eof_length
    by (fastforce simp: read_body_def read_chunked_body_def read_content_length_body_def io_bind_Done
        split: if_splits option.splits)
qed

lemma length_utf8_chars: "length (utf8_chars bs) \<le> length bs"
  by (induction bs rule: utf8_chars.induct) (auto simp: Let_def intro: le_trans split: option.splits)

lemma header_end_bound: "header_end buf = Some n \<Longrightarrow> n \<le> length buf"
  by (auto simp: header_end_def CRLF_def dest!: find_window_bound)

lemma finish_response_within:
  assumes "n \<le> length buf" and "length buf \<le> MAX_BODY_BYTES"
  shows "within (MAX_BODY_BYTES + 1) (drop n buf) r (finish_response W parser n buf r)"
    and "finish_response W parser n buf r = (Done s, r') \<Longrightarrow> 32 \<le> W \<Longrightarrow> length s \<le> MAX_BODY_BYTES"
proof -
  have rest: "length (drop n buf) \<le> MAX_BODY_BYTES" using assms by simp
  have stop: "within (MAX_BODY_BYTES + 1) (drop n buf) r (Fail e :: str io, r)" for e
    by (simp add: within_def)
  have body: "within (MAX_BODY_BYTES + 1) (drop n buf) r
      (io_bind (read_body W headers declared (drop n buf) r) (\<lambda>(body, r).
         case str_from_utf8 body of Some s \<Rightarrow> (Done s, r)
         | None \<Rightarrow> (Fail (lit ''response body is not valid UTF-8''), r)))" for headers declared
  proof (rule io_bind_within [OF read_body_within(1) [OF rest]], clarify)
    fix out r1 assume "read_body W headers declared (drop n buf) r = (Done out, r1)"
    then show "within (MAX_BODY_BYTES + 1) (drop n buf) r (case str_from_utf8 out of Some s \<Rightarrow> (Done s, r1)
         | None \<Rightarrow> (Fail (lit ''response body is not valid UTF-8''), r1))"
      using read_body_within(1) [OF rest, of r W headers declared]
      by (auto simp: within_def split: option.splits)
  qed
  show "within (MAX_BODY_BYTES + 1) (drop n buf) r (finish_response W parser n buf r)"
    using assms(1) stop body
    by (auto simp: finish_response_def slice_at_in io_result_def split: http_parse.splits option.splits sum.splits)
  show "length s \<le> MAX_BODY_BYTES" if fin: "finish_response W parser n buf r = (Done s, r')" and W: "32 \<le> W"
  proof -
    have head: "io_exec (slice_at buf 0 n) = Done (slice_of buf 0 n)" using assms by (intro slice_at_in) auto
    let ?head = "slice_of buf 0 n"
    obtain headers where "parser (http_header_count ?head) ?head = Complete (Some 200) headers"
      using fin head by (cases "parser (http_header_count ?head) ?head")
        (auto simp: finish_response_def split: option.splits if_splits)
    then obtain declared out r1 where "read_body W headers declared (drop n buf) r = (Done out, r1)"
      and "str_from_utf8 out = Some s"
      using fin head by (auto simp: finish_response_def io_bind_Done split: option.splits)
    then show ?thesis
      using read_body_within(2) [OF rest _ W] length_utf8_chars [of out] le_trans
      by (fastforce simp: str_from_utf8_def from_utf8_def split: if_splits)
  qed
qed

lemma read_until_headers_Done:
  assumes "read_until_headers [] r = (Done (n, buf), r')"
  shows "n \<le> length buf" and "reader_bytes r = length buf + reader_bytes r'" and "length buf \<le> MAX_HEADER_BYTES"
  using fill_until_Done [OF assms [unfolded read_until_headers_def]] header_end_bound by auto

lemma response_bounded:
  assumes "32 \<le> W" and "read_http_response_body W parser r = (x, r')"
  shows "x \<noteq> Panicked" and "reader_bytes r \<le> reader_bytes r' + MAX_HEADER_BYTES + MAX_BODY_BYTES + 1"
    and "x = Done s \<Longrightarrow> length s \<le> MAX_BODY_BYTES"
proof -
  obtain y r1 where head: "read_until_headers [] r = (y, r1)" by (cases "read_until_headers [] r")
  have w: "within MAX_HEADER_BYTES [] r (y, r1)"
    using fill_until_within head unfolding read_until_headers_def by metis
  have "x \<noteq> Panicked \<and> reader_bytes r \<le> reader_bytes r' + MAX_HEADER_BYTES + MAX_BODY_BYTES + 1 \<and>
    (\<forall>s. x = Done s \<longrightarrow> length s \<le> MAX_BODY_BYTES)"
  proof (cases y)
    case (Done got)
    obtain n buf where g: "got = (n, buf)" by (cases got)
    note d = read_until_headers_Done [OF head [unfolded Done g]]
    have fin: "finish_response W parser n buf r1 = (x, r')"
      using assms(2) head Done g by (simp add: read_http_response_body_def)
    have small: "length buf \<le> MAX_BODY_BYTES" using d(3) by (simp add: MAX_BODY_BYTES_def MAX_HEADER_BYTES_def)
    have rest: "length (drop n buf) < MAX_BODY_BYTES + 1" using small by simp
    show ?thesis
      using finish_response_within(1) [OF d(1) small, of r1 W parser] d rest
        finish_response_within(2) [OF d(1) small _ assms(1), of parser r1 _ r']
      by (auto simp: fin within_def)
  qed (use w head assms(2) in \<open>auto simp: read_http_response_body_def within_def\<close>)
  then show "x \<noteq> Panicked" "reader_bytes r \<le> reader_bytes r' + MAX_HEADER_BYTES + MAX_BODY_BYTES + 1"
    "x = Done s \<Longrightarrow> length s \<le> MAX_BODY_BYTES" by auto
qed

lemma https_get_no_panic:
  assumes "32 \<le> W"
  shows "fst (https_get W parser lib net tls outbound host path w) \<noteq> Panicked"
proof -
  have "fst (read_http_response_body W parser r) \<noteq> Panicked" for r
    using response_bounded(1) [OF assms, of parser r] by (cases "read_http_response_body W parser r") auto
  then show ?thesis
    by (auto simp: https_get_def split: prod.splits sum.splits option.splits io.splits)
qed

text \<open>
  C40: Fetching the default domains is total and bounded, whatever the server sends and however
  its bytes arrive. Reading a response never panics on a slice, takes at most the header limit,
  the body limit and one byte from the connection, and returns a body within the body limit;
  and the fetch always gives a list that is not empty.\<close>

theorem http_response_bounded:
  assumes "32 \<le> W" and "read_http_response_body W parser r = (x, r')"
  shows "x \<noteq> Panicked \<and>
    reader_bytes r \<le> reader_bytes r' + MAX_HEADER_BYTES + MAX_BODY_BYTES + 1 \<and>
    (\<forall>s. x = Done s \<longrightarrow> length s \<le> MAX_BODY_BYTES) \<and>
    (\<exists>ds. fst (fetch_default_domains_with_outbound W parser lib net tls outbound w) = Ret ds \<and> ds \<noteq> [])"
proof -
  have "\<exists>ds. fst (fetch_default_domains_with_outbound W parser lib net tls outbound w) = Ret ds \<and> ds \<noteq> []"
    using https_get_no_panic [OF assms(1), of parser lib net tls outbound DOMAINS_URL_HOST DOMAINS_URL_PATH w]
      fetch_default_domains_nonempty
    by (auto simp: fetch_default_domains_with_outbound_def split: prod.splits io.splits)
  then show ?thesis using response_bounded [OF assms] by blast
qed

section \<open>Responses in pieces\<close>

text \<open>
  The connection still delivers, after what is buffered, the rest of \<open>T\<close> in nonempty
  pieces, and then behaves like \<open>tail\<close>.
\<close>

definition feeds :: "bytes \<Rightarrow> reader_state \<Rightarrow> bytes \<Rightarrow> reader_state \<Rightarrow> bool" where
  "feeds T tail buf r \<longleftrightarrow>
     (\<exists>segs. r = map Data segs @ tail \<and> [] \<notin> set segs \<and> buf @ concat segs = T)"

lemma feeds_take: "feeds T tail buf r \<Longrightarrow> buf = take (length buf) T"
  by (auto simp: feeds_def)

lemma read_more_feeds:
  assumes "feeds T tail buf r" and "length buf < length T" and "length buf < limit"
  shows "\<exists>buf' r'. read_more buf limit r = (Done buf', r') \<and> feeds T tail buf' r' \<and> length buf < length buf'"
proof -
  obtain segs where segs: "r = map Data segs @ tail" "[] \<notin> set segs" "buf @ concat segs = T"
    using assms(1) by (auto simp: feeds_def)
  then obtain bs rest where s: "segs = bs # rest" using assms(2) by (cases segs) auto
  let ?k = "min (limit - length buf) 8192"
  have k: "0 < ?k" using assms(3) by simp
  have bs: "bs \<noteq> []" using segs(2) s by auto
  have got: "read_more buf limit r =
      (Done (buf @ take ?k bs), if length bs \<le> ?k then map Data rest @ tail else Data (drop ?k bs) # map Data rest @ tail)"
    using assms(3) k bs segs(1) s by (auto simp: read_more_def)
  have "feeds T tail (buf @ take ?k bs)
      (if length bs \<le> ?k then map Data rest @ tail else Data (drop ?k bs) # map Data rest @ tail)"
  proof (cases "length bs \<le> ?k")
    case True
    have "feeds T tail (buf @ bs) (map Data rest @ tail)"
      unfolding feeds_def using segs s by (intro exI [of _ rest]) simp
    then show ?thesis using True by (simp only: if_True take_all)
  next
    case False
    have "take ?k bs @ drop ?k bs = bs" by (rule append_take_drop_id)
    then have "(buf @ take ?k bs) @ concat (drop ?k bs # rest) = T"
      using segs(3) s by (metis append.assoc concat.simps(2))
    moreover have "[] \<notin> set (drop ?k bs # rest)" using segs(2) s False by auto
    ultimately have "feeds T tail (buf @ take ?k bs) (map Data (drop ?k bs # rest) @ tail)"
      unfolding feeds_def by blast
    then show ?thesis using False by (simp only: if_False list.map append.simps)
  qed
  moreover have "length buf < length (buf @ take ?k bs)" using bs k by simp
  ultimately show ?thesis using got by blast
qed

lemma fill_until_feeds:
  assumes "feeds T tail buf r" and "n \<le> length T" and "n \<le> limit"
    and "\<And>k. n \<le> k \<Longrightarrow> length buf \<le> k \<Longrightarrow> found (take k T) = Some x"
    and "\<And>k. length buf \<le> k \<Longrightarrow> k < n \<Longrightarrow> found (take k T) = None \<and> guard (take k T) = None"
  shows "\<exists>buf' r'. fill_until found guard limit buf r = (Done (x, buf'), r') \<and> feeds T tail buf' r' \<and>
    n \<le> length buf' \<and> length buf \<le> length buf'"
  using assms
proof (induction "n - length buf" arbitrary: buf r rule: less_induct)
  case less
  note t = feeds_take [OF less.prems(1)]
  show ?case
  proof (cases "n \<le> length buf")
    case True
    then have "found buf = Some x" using less.prems(4) [of "length buf"] t by simp
    then show ?thesis using True less.prems(1) by (simp add: fill_until.simps [of found])
  next
    case False
    have none: "found buf = None" "guard buf = None" using less.prems(5) [of "length buf"] t False by simp_all
    obtain b r1 where m: "read_more buf limit r = (Done b, r1)" "feeds T tail b r1" "length buf < length b"
      using read_more_feeds [OF less.prems(1), of limit] less.prems(2,3) False by auto
    have "\<exists>buf' r'. fill_until found guard limit b r1 = (Done (x, buf'), r') \<and> feeds T tail buf' r' \<and>
      n \<le> length buf' \<and> length b \<le> length buf'"
      by (rule less.hyps [OF _ m(2) less.prems(2,3)]) (use False m(3) less.prems(4,5) in auto)
    then show ?thesis using none m by (auto simp: fill_until.simps [of found guard limit buf])
  qed
qed

lemma find_window_prefix:
  "find_window p bs = Some i \<Longrightarrow> p \<noteq> [] \<Longrightarrow>
   find_window p (take m (bs @ post)) = (if i + length p \<le> m then Some i else None)"
proof (induction bs arbitrary: i m)
  case (Cons b bs)
  show ?case
  proof (cases m)
    case 0
    then show ?thesis using Cons.prems by simp
  next
    case (Suc m')
    have w: "take m ((b # bs) @ post) = b # take m' (bs @ post)" using Suc by simp
    have short: "find_window p (take m' (bs @ post)) = None" if "m < length p"
      using find_window_bound [of p "take m' (bs @ post)"] that Suc
      by (cases "find_window p (take m' (bs @ post))") auto
    show ?thesis
    proof (cases "take (length p) (b # bs) = p")
      case True
      then have len: "length p \<le> length (b # bs)" by (metis length_take min.cobounded2 min_def nat_le_linear)
      have i: "i = 0" using Cons.prems True by simp
      have "take (length p) (take m ((b # bs) @ post)) = (if length p \<le> m then p else take m p)"
        using True len by (metis append_take_drop_id min.absorb1 min.commute nat_le_linear take_all_iff
            take_append take_take append_Nil2 diff_is_0_eq' take0)
      then have "take (length p) (b # take m' (bs @ post)) = p \<longleftrightarrow> length p \<le> m"
        unfolding w using Suc by (auto simp: not_le simp del: take_append dest: arg_cong [where f = length])
      then show ?thesis
        unfolding w find_window.simps using i short Cons.prems(2) by (simp del: take_append)
    next
      case False
      then obtain j where j: "find_window p bs = Some j" "i = Suc j" using Cons.prems by auto
      have len: "length p \<le> length bs" using find_window_bound [OF j(1)] by simp
      have "take (length p) (take m ((b # bs) @ post)) \<noteq> p"
      proof
        assume e: "take (length p) (take m ((b # bs) @ post)) = p"
        then have "length p \<le> m" by (metis length_take min.cobounded1 min.cobounded2 min.boundedE)
        then have "take (length p) ((b # bs) @ post) = p" using e by (simp add: min_def)
        moreover have "take (length p) ((b # bs) @ post) = take (length p) (b # bs)"
          unfolding take_append using len by simp
        ultimately show False using False by simp
      qed
      then show ?thesis using w j Cons.IH [OF j(1) Cons.prems(2), of m'] Suc by simp
    qed
  qed
qed simp

subsection \<open>Text of a chunk size\<close>

fun hex_text :: "nat \<Rightarrow> bytes" where
  "hex_text n =
     (let d = (\<lambda>i. if i < 10 then word_of_nat (48 + i) else word_of_nat (87 + i))
      in if n < 16 then [d n] else hex_text (n div 16) @ [d (n mod 16)])"

declare hex_text.simps [simp del]

definition hex_byte :: "byte \<Rightarrow> bool" where
  "hex_byte b \<longleftrightarrow> b < 128 \<and> hex_digit_value (unat b) \<noteq> None"

lemma hex_digit_byte:
  assumes "i < 16"
  defines "b \<equiv> (if i < 10 then word_of_nat (48 + i) else word_of_nat (87 + i)) :: byte"
  shows "b < 128" and "hex_digit_value (unat b) = Some i"
proof -
  have nat: "unat (word_of_nat k :: byte) = k" if "k < 256" for k
    using that by (simp only: unat_of_nat length_byte mod_less)
  have u: "unat b = (if i < 10 then 48 + i else 87 + i)"
    using assms(1) nat [of "48 + i"] nat [of "87 + i"] by (simp add: b_def del: of_nat_add)
  then show "hex_digit_value (unat b) = Some i" using assms(1) by (simp add: hex_digit_value_def)
  have "unat b < unat (128 :: byte)" using u assms(1) by simp
  then show "b < 128" by (simp add: word_less_nat_alt)
qed

lemma hex_text_bytes: "list_all hex_byte (hex_text n)"
proof (induction n rule: hex_text.induct)
  case (1 n)
  then show ?case
    using hex_digit_byte [of n] hex_digit_byte [of "n mod 16"]
    by (subst hex_text.simps) (simp add: Let_def hex_byte_def [of "if _ then _ else _"] del: of_nat_add)
qed

lemma hex_text_nonempty [simp]: "hex_text n \<noteq> []"
  by (subst hex_text.simps) (simp add: Let_def)

lemma parse_hex_digits_append:
  "parse_hex_digits m acc (a @ b) =
     (case parse_hex_digits m acc a of None \<Rightarrow> None | Some n \<Rightarrow> parse_hex_digits m n b)"
  by (induction a arbitrary: acc) (auto split: option.splits)

lemma parse_hex_digits_text: "n \<le> m \<Longrightarrow> parse_hex_digits m 0 (map unat (hex_text n)) = Some n"
proof (induction n rule: hex_text.induct)
  case (1 n)
  show ?case
  proof (cases "n < 16")
    case True
    then show ?thesis using hex_digit_byte(2) [of n] 1 by (subst hex_text.simps) (auto simp: Let_def)
  next
    case False
    have ih: "parse_hex_digits m 0 (map unat (hex_text (n div 16))) = Some (n div 16)"
      using 1 False by (metis div_le_dividend le_trans)
    show ?thesis
      using False ih hex_digit_byte(2) [of "n mod 16"] 1(2)
      by (subst hex_text.simps) (auto simp: Let_def parse_hex_digits_append)
  qed
qed

lemma ascii_str: "list_all (\<lambda>b. b < 128) bs \<Longrightarrow> str_from_utf8 bs = Some (map unat bs)"
proof -
  assume a: "list_all (\<lambda>b. b < 128) bs"
  then have "utf8_valid bs" by (induction bs) (auto simp: utf8_tail_def)
  moreover have "utf8_chars bs = map unat bs"
    using a by (induction bs) (auto simp: utf8_tail_def utf8_scalar_def)
  ultimately show ?thesis by (simp add: str_from_utf8_def from_utf8_def)
qed

lemma chunk_size_text:
  assumes "n \<le> 2 ^ W - 1"
  shows "chunk_size W (hex_text n) = Inr n"
proof -
  let ?s = "map unat (hex_text n)"
  have hex: "hex_digit_value c \<noteq> None" if "c \<in> set ?s" for c
    using hex_text_bytes [of n] that by (auto simp: list_all_iff hex_byte_def)
  have no: "c \<notin> set ?s" if "hex_digit_value c = None" for c using hex that by blast
  have ascii: "list_all (\<lambda>b. b < 128) (hex_text n)"
    using hex_text_bytes [of n] by (auto simp: list_all_iff hex_byte_def)
  have "\<not> is_whitespace c" if "c \<in> set ?s" for c
    using hex [OF that] by (auto simp: hex_digit_value_def is_whitespace_def split: if_splits)
  then have trim: "trim ?s = ?s" by (intro trim_id) (simp add: list_all_iff)
  have "hd ?s \<noteq> 43" using no [of 43] hd_in_set [of ?s] by (auto simp: hex_digit_value_def)
  then have "parse_hex (2 ^ W - 1) ?s = Some n"
    using parse_hex_digits_text [OF assms] by (cases "hex_text n") (auto simp: parse_hex_def)
  moreover have "split_once 59 ?s = None"
    unfolding split_once_None using no [of 59] by (simp add: hex_digit_value_def)
  ultimately show ?thesis
    using ascii_str [OF ascii] trim by (simp add: chunk_size_def del: split_once_None)
qed

subsection \<open>Chunks\<close>

lemma find_line: "13 \<notin> set line \<Longrightarrow> find_window CRLF (line @ CRLF) = Some (length line)"
  by (induction line) (auto simp: CRLF_def)

lemma line_end_from_take:
  assumes "T = pre @ line @ CRLF @ post" and "13 \<notin> set line" and "length pre \<le> k"
  shows "line_end_from (length pre) (take k T) =
    (if length pre + length line + 2 \<le> k then Some (Ret (length pre + length line)) else None)"
proof -
  have "drop (length pre) (take k T) = take (k - length pre) ((line @ CRLF) @ post)"
    using assms(1,3) by (simp add: drop_take)
  moreover have "\<not> length (take k T) < length pre" using assms(1,3) by simp
  ultimately show ?thesis
    using find_window_prefix [OF find_line [OF assms(2)], of "k - length pre" post] assms(3)
    by (auto simp: line_end_from_def CRLF_def)
qed

lemma read_line_end_feeds:
  assumes "feeds T tail body r" and T: "T = pre @ line @ CRLF @ post" and "13 \<notin> set line"
    and "length pre \<le> length body" and "length pre + length line + 2 \<le> MAX_BODY_BYTES"
    and "\<And>k. length pre \<le> k \<Longrightarrow> k < length pre + length line + 2 \<Longrightarrow> guard (take k T) = None"
  shows "\<exists>body' r'. read_line_end guard (length pre) body r = (Done (length pre + length line, body'), r') \<and>
    feeds T tail body' r' \<and> length pre + length line + 2 \<le> length body'"
proof -
  have len: "length pre + length line + 2 \<le> length T" by (simp add: T CRLF_def)
  have "\<exists>b r'. fill_until (line_end_from (length pre)) guard MAX_BODY_BYTES body r =
      (Done (Ret (length pre + length line), b), r') \<and> feeds T tail b r' \<and>
      length pre + length line + 2 \<le> length b \<and> length body \<le> length b"
    by (rule fill_until_feeds [OF assms(1)])
      (use len assms(4-6) line_end_from_take [OF T assms(3)] in auto)
  then show ?thesis by (auto simp: read_line_end_def io_exec_def)
qed

lemma slice_feeds:
  assumes "feeds T tail body r" and "T = pre @ xs @ post" and "length pre + length xs \<le> length body"
  shows "slice_of body (length pre) (length pre + length xs) = xs"
proof -
  have "body = take (length body) (pre @ xs @ post)" using feeds_take [OF assms(1)] assms(2) by simp
  then have "slice_of body (length pre) (length pre + length xs) =
      take (length xs) (drop (length pre) (take (length body) (pre @ xs @ post)))"
    by (metis add_diff_cancel_left' slice_of_def)
  then show ?thesis using assms(3) by (simp add: drop_take min_def)
qed

lemma hex_text_no_cr: "13 \<notin> set (hex_text n)"
  using hex_text_bytes [of n] by (auto simp: list_all_iff hex_byte_def hex_digit_value_def)

lemma read_chunk_data_feeds:
  assumes "feeds T tail body r" and T: "T = pre @ c @ CRLF @ post"
    and "length pre + length c + 2 \<le> MAX_BODY_BYTES"
  shows "\<exists>body' r'. read_chunk_data decoded (length pre) (length c) body r =
      (Done (NextChunk (decoded @ c) (length pre + length c + 2) body'), r') \<and> feeds T tail body' r' \<and>
      length pre + length c + 2 \<le> length body'"
proof -
  have "\<exists>b r'. fill_until (\<lambda>b. if length b < length pre + length c + 2 then None else Some ()) no_guard
      MAX_BODY_BYTES body r = (Done ((), b), r') \<and> feeds T tail b r' \<and>
      length pre + length c + 2 \<le> length b \<and> length body \<le> length b"
    by (rule fill_until_feeds [OF assms(1)]) (use assms in \<open>auto simp: CRLF_def no_guard_def\<close>)
  then obtain b r' where fill: "fill_until (\<lambda>b. if length b < length pre + length c + 2 then None else Some ())
      no_guard MAX_BODY_BYTES body r = (Done ((), b), r')"
    and f: "feeds T tail b r'" "length pre + length c + 2 \<le> length b" by blast
  have "slice_of b (length pre) (length pre + length c) = c"
    by (rule slice_feeds [OF f(1) T]) (use f(2) in simp)
  moreover have "slice_of b (length (pre @ c)) (length (pre @ c) + length CRLF) = CRLF"
    by (rule slice_feeds [OF f(1)]) (use T f(2) in \<open>auto simp: CRLF_def\<close>)
  ultimately show ?thesis
    using fill f by (auto simp: read_chunk_data_def slice_at_in CRLF_def)
qed

lemma next_chunk_feeds:
  assumes "feeds T tail body r" and T: "T = pre @ hex_text (length c) @ CRLF @ c @ CRLF @ post"
    and "c \<noteq> []" and "length pre \<le> length body" and W: "32 \<le> W"
    and "length pre + length (hex_text (length c)) + length c + 4 \<le> MAX_BODY_BYTES"
    and "length decoded + length c \<le> MAX_BODY_BYTES"
  shows "\<exists>body' r'. next_chunk W decoded (length pre) body r =
      (Done (NextChunk (decoded @ c) (length (pre @ hex_text (length c) @ CRLF @ c @ CRLF)) body'), r') \<and>
      feeds T tail body' r' \<and> length (pre @ hex_text (length c) @ CRLF @ c @ CRLF) \<le> length body'"
proof -
  let ?h = "hex_text (length c)"
  obtain b r1 where line: "read_line_end no_guard (length pre) body r = (Done (length pre + length ?h, b), r1)"
    and f: "feeds T tail b r1" "length pre + length ?h + 2 \<le> length b"
    using read_line_end_feeds [OF assms(1), of pre ?h "c @ CRLF @ post" no_guard] T hex_text_no_cr assms
    by (auto simp: no_guard_def)
  have slice: "slice_of b (length pre) (length pre + length ?h) = ?h"
    by (rule slice_feeds [OF f(1)]) (use T f(2) in auto)
  have "(2 :: nat) ^ 32 \<le> 2 ^ W" using W by (rule power_increasing) simp
  then have big: "MAX_BODY_BYTES \<le> 2 ^ W - 1" by (simp add: MAX_BODY_BYTES_def)
  have sz: "chunk_size W ?h = Inr (length c)" by (rule chunk_size_text) (use big assms(7) in simp)
  obtain b2 r2 where data: "read_chunk_data decoded (length (pre @ ?h @ CRLF)) (length c) b r1 =
      (Done (NextChunk (decoded @ c) (length (pre @ ?h @ CRLF) + length c + 2) b2), r2)"
    and g: "feeds T tail b2 r2" "length (pre @ ?h @ CRLF) + length c + 2 \<le> length b2"
    using read_chunk_data_feeds [OF f(1), of "pre @ ?h @ CRLF" c post decoded] T assms(6)
    by (auto simp: CRLF_def)
  show ?thesis
    using line slice sz data g f(2) assms(3,7)
    by (auto simp: next_chunk_def slice_at_in io_result_def CRLF_def)
qed

lemma last_chunk_feeds:
  assumes "feeds T tail body r" and T: "T = pre @ hex_text 0 @ CRLF @ CRLF @ post"
    and "length pre \<le> length body" and "length pre + 5 \<le> MAX_BODY_BYTES"
  shows "\<exists>r'. next_chunk W decoded (length pre) body r = (Done (LastChunk decoded), r')"
proof -
  have zero: "length (hex_text 0) = 1" by (subst hex_text.simps) (simp add: Let_def)
  obtain b r1 where line: "read_line_end no_guard (length pre) body r = (Done (length pre + 1, b), r1)"
    and f: "feeds T tail b r1" "length pre + 3 \<le> length b"
    using read_line_end_feeds [OF assms(1), of pre "hex_text 0" "CRLF @ post" no_guard] T hex_text_no_cr assms
    by (auto simp: no_guard_def zero)
  have slice: "slice_of b (length pre) (length pre + length (hex_text 0)) = hex_text 0"
    by (rule slice_feeds [OF f(1)]) (use T f(2) zero in auto)
  let ?pre = "pre @ hex_text 0 @ CRLF"
  have p: "length ?pre = length pre + 3" by (simp add: zero CRLF_def)
  have guard: "trailer_guard (length ?pre) (take k T) = None" if "k < length ?pre + 2" for k
    using that by (auto simp: trailer_guard_def MAX_HEADER_BYTES_def)
  have T': "T = ?pre @ [] @ CRLF @ post" by (simp add: T)
  have "\<exists>b2 r2. read_line_end (trailer_guard (length ?pre)) (length ?pre) b r1 =
      (Done (length ?pre + length ([] :: bytes), b2), r2) \<and> feeds T tail b2 r2 \<and>
      length ?pre + length ([] :: bytes) + 2 \<le> length b2"
    by (rule read_line_end_feeds [OF f(1) T']) (use f(2) assms(4) p guard in auto)
  then obtain b2 r2 where "read_line_end (trailer_guard (length ?pre)) (length ?pre) b r1 = (Done (length ?pre, b2), r2)"
    by auto
  then have "read_chunk_trailers (length pre + 3) b (length pre + 3) r1 = (Done (), r2)"
    unfolding p by (simp add: read_chunk_trailers.simps)
  then show ?thesis
    using line slice chunk_size_text [of 0 W] f(2)
    by (simp add: next_chunk_def slice_at_in zero io_result_def numeral_3_eq_3)
qed

fun chunk_wire :: "bytes list \<Rightarrow> bytes" where
  "chunk_wire [] = hex_text 0 @ CRLF @ CRLF"
| "chunk_wire (c # cs) = hex_text (length c) @ CRLF @ c @ CRLF @ chunk_wire cs"

lemma chunk_wire_length: "length (concat cs) + 5 \<le> length (chunk_wire cs)"
  by (induction cs) (simp_all add: CRLF_def hex_text.simps [of 0] Let_def)

lemma read_chunks_feeds:
  assumes "feeds T tail body r" and "T = pre @ chunk_wire cs @ post" and "[] \<notin> set cs" and "32 \<le> W"
    and "length pre \<le> length body" and "length pre + length (chunk_wire cs) \<le> MAX_BODY_BYTES"
    and "length decoded + length (concat cs) \<le> MAX_BODY_BYTES"
  shows "\<exists>r'. read_chunks W decoded (length pre) body r = (Done (decoded @ concat cs), r')"
  using assms
proof (induction cs arbitrary: decoded pre body r)
  case Nil
  then obtain r' where "next_chunk W decoded (length pre) body r = (Done (LastChunk decoded), r')"
    using last_chunk_feeds [of T tail body r pre post W decoded]
    by (auto simp: CRLF_def hex_text.simps [of 0] Let_def)
  then show ?case by (subst read_chunks.simps) simp
next
  case (Cons c cs)
  let ?pre = "pre @ hex_text (length c) @ CRLF @ c @ CRLF"
  obtain b r1 where n: "next_chunk W decoded (length pre) body r =
      (Done (NextChunk (decoded @ c) (length ?pre) b), r1)" "feeds T tail b r1" "length ?pre \<le> length b"
    using next_chunk_feeds [of T tail body r pre c "chunk_wire cs @ post" W decoded] Cons.prems
    by (auto simp: CRLF_def)
  have "\<exists>r'. read_chunks W (decoded @ c) (length ?pre) b r1 = (Done ((decoded @ c) @ concat cs), r')"
    by (rule Cons.IH [OF n(2) _ _ Cons.prems(4) n(3)]) (use Cons.prems in auto)
  then show ?case using n(1) by (subst read_chunks.simps) simp
qed

text \<open>How the headers frame a body: chunked, or with a declared length.\<close>

definition framed :: "nat \<Rightarrow> header list \<Rightarrow> bytes \<Rightarrow> bytes \<Rightarrow> bool" where
  "framed W headers body wire \<longleftrightarrow>
     (if is_chunked headers
      then (\<exists>declared. content_length W headers = Inr declared) \<and>
           (\<exists>cs. wire = chunk_wire cs \<and> body = concat cs \<and> [] \<notin> set cs \<and> length wire \<le> MAX_BODY_BYTES)
      else content_length W headers = Inr (Some (length body)) \<and> length body \<le> MAX_BODY_BYTES \<and>
           (\<exists>extra. wire = body @ extra))"

lemma read_body_feeds:
  assumes "framed W headers body wire" and "feeds wire tail rest r" and "32 \<le> W"
  shows "\<exists>declared r'. content_length W headers = Inr declared \<and>
    read_body W headers declared rest r = (Done body, r')"
proof (cases "is_chunked headers")
  case True
  then obtain declared cs where d: "content_length W headers = Inr declared"
    and cs: "wire = chunk_wire cs" "body = concat cs" "[] \<notin> set cs" "length wire \<le> MAX_BODY_BYTES"
    using assms(1) by (auto simp: framed_def)
  have "\<exists>r'. read_chunks W [] (length ([] :: bytes)) rest r = (Done ([] @ concat cs), r')"
    by (rule read_chunks_feeds [OF assms(2)])
      (use cs chunk_wire_length [of cs] assms(3) in auto)
  then show ?thesis using d cs True by (auto simp: read_body_def read_chunked_body_def)
next
  case False
  then obtain extra where d: "content_length W headers = Inr (Some (length body))" "length body \<le> MAX_BODY_BYTES"
    and wire: "wire = body @ extra"
    using assms(1) by (auto simp: framed_def)
  have "\<exists>b r'. fill_until (\<lambda>b. if length b < length body then None else Some ()) (\<lambda>_. None) (length body) rest r =
      (Done ((), b), r') \<and> feeds wire tail b r' \<and> length body \<le> length b \<and> length rest \<le> length b"
    by (rule fill_until_feeds [OF assms(2)]) (use wire in auto)
  then obtain b r' where b: "fill_until (\<lambda>b. if length b < length body then None else Some ()) (\<lambda>_. None)
      (length body) rest r = (Done ((), b), r')" "feeds wire tail b r'" "length body \<le> length b"
    by blast
  have "b = take (length b) wire" by (rule feeds_take [OF b(2)])
  then have "take (length body) b = take (length body) (take (length b) wire)" by simp
  then have "take (length body) b = body" using wire b(3) by (simp add: min_def)
  then show ?thesis
    using d b(1) False by (simp add: read_body_def read_content_length_body_def)
qed

lemma header_end_take:
  assumes "header_end head = Some (length head)"
  shows "header_end (take k (head @ post)) = (if length head \<le> k then Some (length head) else None)"
proof -
  obtain i where i: "find_window (CRLF @ CRLF) head = Some i" "length head = i + 4"
    using assms by (force simp: header_end_def)
  show ?thesis
    using find_window_prefix [OF i(1), of k post] i(2)
    by (simp add: header_end_def CRLF_def del: take_append)
qed

text \<open>
  C17: A response is read back whatever pieces it arrives in. If the headers parse to status 200
  and frame the body, by chunks of any sizes or by a declared length, then for every cutting of
  headers and body into nonempty reads, and whatever follows on the connection, the fetch
  returns the text of the body.\<close>

theorem http_response_any_pieces:
  assumes "32 \<le> W" and "header_end head = Some (length head)" and "length head \<le> MAX_HEADER_BYTES"
    and "parser (http_header_count head) head = Complete (Some 200) headers"
    and "framed W headers body wire" and "str_from_utf8 body = Some txt"
    and "concat segs = head @ wire" and "[] \<notin> set segs"
  shows "fst (read_http_response_body W parser (map Data segs @ tail)) = Done txt"
proof -
  let ?guard = "\<lambda>buf. if MAX_HEADER_BYTES \<le> length buf
      then Some (lit ''HTTP response headers exceed limit'') else None"
  have feeds: "feeds (head @ wire) tail [] (map Data segs @ tail)"
    using assms(7,8) by (auto simp: feeds_def)
  have "\<exists>buf r. fill_until header_end ?guard MAX_HEADER_BYTES [] (map Data segs @ tail) =
      (Done (length head, buf), r) \<and> feeds (head @ wire) tail buf r \<and> length head \<le> length buf \<and>
      length ([] :: bytes) \<le> length buf"
    by (rule fill_until_feeds [OF feeds]) (use assms(3) header_end_take [OF assms(2)] in \<open>auto simp del: take_append\<close>)
  then obtain buf r where h: "read_until_headers [] (map Data segs @ tail) = (Done (length head, buf), r)"
    and f: "feeds (head @ wire) tail buf r" "length head \<le> length buf"
    by (auto simp: read_until_headers_def)
  have buf: "buf = take (length buf) (head @ wire)" by (rule feeds_take [OF f(1)])
  have head: "slice_of buf 0 (length head) = head"
    using slice_feeds [OF f(1), of "[]" head wire] f(2) by simp
  have rest: "feeds wire tail (drop (length head) buf) r"
  proof -
    obtain rs where "r = map Data rs @ tail" "[] \<notin> set rs" "buf @ concat rs = head @ wire"
      using f(1) by (auto simp: feeds_def)
    moreover from this f(2) have "drop (length head) buf @ concat rs = wire"
      by (metis append_eq_append_conv_if append_eq_conv_conj drop_append diff_is_0_eq' drop0)
    ultimately show ?thesis by (auto simp: feeds_def)
  qed
  obtain declared r' where "content_length W headers = Inr declared"
    "read_body W headers declared (drop (length head) buf) r = (Done body, r')"
    using read_body_feeds [OF assms(5) rest assms(1)] by blast
  then show ?thesis
    using h head f(2) assms(4,6)
    by (simp add: read_http_response_body_def finish_response_def slice_at_in io_result_def)
qed

section \<open>Witnesses\<close>

definition sample_parser :: http_parser where
  "sample_parser slots head = Complete (Some 200) [(lit ''Transfer-Encoding'', utf8_encode (lit ''chunked''))]"

definition sample_tls :: "unit tls_client" where
  "sample_tls =
     \<lparr>tc_bad_name = (\<lambda>_. None), tc_handshake = (\<lambda>s h w. (Some (Inr s), w)),
      tc_write = (\<lambda>s b w. (Inr (), w)), tc_reads = (\<lambda>s w. [Data [13, 10], Stall])\<rparr>"

lemma http_response_bounded_witness:
  "fst (read_http_response_body 64 sample_parser [Data [13, 10], Stall]) \<noteq> Panicked \<and>
   (\<exists>ds. fst (fetch_default_domains_with_outbound 64 sample_parser sample_libs sample_proxy_net sample_tls
      direct_connector ()) = Ret ds \<and> ds \<noteq> [])"
  using http_response_bounded [of 64 sample_parser "[Data [13, 10], Stall]"
      "fst (read_http_response_body 64 sample_parser [Data [13, 10], Stall])"
      "snd (read_http_response_body 64 sample_parser [Data [13, 10], Stall])"
      sample_libs sample_proxy_net sample_tls direct_connector "()"]
  by simp

lemma sample_framed:
  "framed 64 [(lit ''Transfer-Encoding'', utf8_encode (lit ''chunked''))] [104, 105]
     [50, 13, 10, 104, 105, 13, 10, 48, 13, 10, 13, 10]"
proof -
  let ?h = "[(lit ''Transfer-Encoding'', utf8_encode (lit ''chunked''))]"
  have "str_from_utf8 (utf8_encode (lit ''chunked'')) = Some (lit ''chunked'')"
    by (subst ascii_str) (simp_all add: lit_def utf8_encode_def utf8_char_def)
  moreover have "trim (lit ''chunked'') = lit ''chunked''"
    "split_at (\<lambda>c. c = 44) (lit ''chunked'') = [lit ''chunked'']"
    by (simp_all add: trim_id lit_def is_whitespace_def)
  ultimately have chunked: "is_chunked ?h"
    by (simp add: is_chunked_def List.map_filter_def eq_ignore_ascii_case_def to_ascii_lowercase_def lit_def
        ascii_lower_def)
  have len: "content_length 64 ?h = Inr None"
    by (simp add: content_length_def eq_ignore_ascii_case_def to_ascii_lowercase_def lit_def ascii_lower_def)
  have wire: "chunk_wire [[104, 105]] = [50, 13, 10, 104, 105, 13, 10, 48, 13, 10, 13, 10]"
    by (simp add: hex_text.simps [of 2] hex_text.simps [of 0] CRLF_def numeral_2_eq_2 [symmetric])
  have "\<exists>cs. [50, 13, 10, 104, 105, 13, 10, 48, 13, 10, 13, 10] = chunk_wire cs \<and> [104, 105] = concat cs \<and>
      [] \<notin> set cs \<and> length [50, 13, 10, 104, 105, 13, 10, 48, 13, 10, 13, 10 :: byte] \<le> MAX_BODY_BYTES"
    by (rule exI [of _ "[[104, 105]]"]) (simp add: wire MAX_BODY_BYTES_def del: chunk_wire.simps)
  then show ?thesis using chunked len unfolding framed_def by simp
qed

lemma http_response_any_pieces_witness:
  "fst (read_http_response_body 64 sample_parser
     [Data [13, 10, 13], Data [10, 50], Data [13, 10, 104], Data [105, 13, 10, 48], Data [13, 10, 13, 10], Stall]) =
   Done (lit ''hi'')"
proof -
  have "fst (read_http_response_body 64 sample_parser
     (map Data [[13, 10, 13], [10, 50], [13, 10, 104], [105, 13, 10, 48], [13, 10, 13, 10]] @ [Stall])) =
     Done (lit ''hi'')"
    by (rule http_response_any_pieces [OF _ _ _ _ sample_framed, where head = "[13, 10, 13, 10]"])
      (simp_all add: sample_parser_def header_end_def CRLF_def MAX_HEADER_BYTES_def ascii_str lit_def)
  then show ?thesis by simp
qed

end
