(* ===== verification/Crypto.thy ===== *)
theory Crypto
  imports Prelude
begin

text \<open>
  The obfuscation layer of MTProto, after \<^verbatim>\<open>src/crypto.rs\<close>.

  AES-256 in counter mode and SHA-256 come from third-party crates and are parameters:
  \<open>ks key iv i\<close> is byte \<open>i\<close> of the keystream for a key and an initial counter, and
  \<open>sha m\<close> is the digest of a message. A cipher is the pair of key material and the number
  of keystream bytes it has already used, and \<open>apply_keystream\<close> adds the keystream to
  the data, as the \<open>StreamCipher\<close> trait documents. The only fact used of \<open>sha\<close> is
  the length of its output.
\<close>

section \<open>Ciphers\<close>

type_synonym keystream = "bytes \<Rightarrow> bytes \<Rightarrow> nat \<Rightarrow> byte"
type_synonym digest = "bytes \<Rightarrow> bytes"

record AesCtr256 =
  cipher_key :: bytes
  cipher_iv :: bytes
  cipher_pos :: nat

fun xor_from :: "(nat \<Rightarrow> byte) \<Rightarrow> nat \<Rightarrow> bytes \<Rightarrow> bytes" where
  "xor_from f p [] = []"
| "xor_from f p (x # xs) = (x XOR f p) # xor_from f (Suc p) xs"

definition apply_keystream :: "keystream \<Rightarrow> AesCtr256 \<Rightarrow> bytes \<Rightarrow> bytes \<times> AesCtr256" where
  "apply_keystream ks c buf =
     (xor_from (ks (cipher_key c) (cipher_iv c)) (cipher_pos c) buf,
      c\<lparr>cipher_pos := cipher_pos c + length buf\<rparr>)"

definition HANDSHAKE_LEN :: nat where "HANDSHAKE_LEN = 64"
definition SKIP_LEN :: nat where "SKIP_LEN = 8"
definition PREKEY_LEN :: nat where "PREKEY_LEN = 32"
definition IV_LEN :: nat where "IV_LEN = 16"
definition PROTO_TAG_POS :: nat where "PROTO_TAG_POS = 56"
definition DC_IDX_POS :: nat where "DC_IDX_POS = 60"

lemmas layout_defs = HANDSHAKE_LEN_def SKIP_LEN_def PREKEY_LEN_def IV_LEN_def
  PROTO_TAG_POS_def DC_IDX_POS_def

definition make_cipher :: "bytes \<Rightarrow> bytes \<Rightarrow> AesCtr256 exec" where
  "make_cipher key iv =
     (if length key = PREKEY_LEN \<and> length iv = IV_LEN
      then Ret \<lparr>cipher_key = key, cipher_iv = iv, cipher_pos = 0\<rparr>
      else Panic)"

text \<open>The one fact the code relies on of SHA-256: the length of a digest.\<close>

definition digest_len :: "digest \<Rightarrow> nat \<Rightarrow> bool" where
  "digest_len sha n \<longleftrightarrow> (\<forall>m. length (sha m) = n)"

section \<open>Protocol tags\<close>

definition PROTO_TAG_ABRIDGED :: bytes where "PROTO_TAG_ABRIDGED = [0xef, 0xef, 0xef, 0xef]"
definition PROTO_TAG_INTERMEDIATE :: bytes where
  "PROTO_TAG_INTERMEDIATE = [0xee, 0xee, 0xee, 0xee]"
definition PROTO_TAG_SECURE :: bytes where "PROTO_TAG_SECURE = [0xdd, 0xdd, 0xdd, 0xdd]"

lemmas tag_defs = PROTO_TAG_ABRIDGED_def PROTO_TAG_INTERMEDIATE_def PROTO_TAG_SECURE_def

datatype ProtoTag = Abridged | Intermediate | PaddedIntermediate

definition from_bytes :: "bytes \<Rightarrow> ProtoTag option" where
  "from_bytes b =
     (if b = PROTO_TAG_ABRIDGED then Some Abridged
      else if b = PROTO_TAG_INTERMEDIATE then Some Intermediate
      else if b = PROTO_TAG_SECURE then Some PaddedIntermediate
      else None)"

fun as_bytes :: "ProtoTag \<Rightarrow> bytes" where
  "as_bytes Abridged = PROTO_TAG_ABRIDGED"
| "as_bytes Intermediate = PROTO_TAG_INTERMEDIATE"
| "as_bytes PaddedIntermediate = PROTO_TAG_SECURE"

section \<open>Proxy secrets\<close>

definition SECRET_MODE_PREFIX_LEN :: nat where "SECRET_MODE_PREFIX_LEN = 1"
definition SECRET_KEY_LEN :: nat where "SECRET_KEY_LEN = 16"
definition PREFIXED_SECRET_LEN :: nat where
  "PREFIXED_SECRET_LEN = SECRET_MODE_PREFIX_LEN + SECRET_KEY_LEN"
definition SECRET_MODE_FAKETLS :: byte where "SECRET_MODE_FAKETLS = 0xee"
definition SECRET_MODE_PADDED :: byte where "SECRET_MODE_PADDED = 0xdd"

lemmas secret_defs = SECRET_MODE_PREFIX_LEN_def SECRET_KEY_LEN_def PREFIXED_SECRET_LEN_def
  SECRET_MODE_FAKETLS_def SECRET_MODE_PADDED_def

definition has_mode_prefix :: "bytes \<Rightarrow> bool" where
  "has_mode_prefix raw \<longleftrightarrow>
     PREFIXED_SECRET_LEN \<le> length raw \<and>
     (raw ! 0 = SECRET_MODE_PADDED \<or> raw ! 0 = SECRET_MODE_FAKETLS)"

definition secret_key :: "bytes \<Rightarrow> bytes" where
  "secret_key raw =
     (if has_mode_prefix raw then slice_of raw SECRET_MODE_PREFIX_LEN PREFIXED_SECRET_LEN
      else raw)"

definition faketls_hostname :: "bytes \<Rightarrow> bytes option" where
  "faketls_hostname raw =
     (if PREFIXED_SECRET_LEN < length raw \<and> raw ! 0 = SECRET_MODE_FAKETLS
      then Some (drop PREFIXED_SECRET_LEN raw) else None)"

section \<open>Parsing the client handshake\<close>

record HandshakeInfo =
  hs_dc_id :: u32
  hs_is_media :: bool
  hs_proto :: ProtoTag
  hs_prekey_and_iv :: bytes

definition unsigned_abs16 :: "i16 \<Rightarrow> u16" where
  "unsigned_abs16 w = (if sint w < 0 then - w else w)"

definition parse_handshake ::
    "digest \<Rightarrow> keystream \<Rightarrow> bytes \<Rightarrow> bytes \<Rightarrow> HandshakeInfo option exec" where
  "parse_handshake sha ks handshake secret =
     (let prekey = slice_of handshake SKIP_LEN (SKIP_LEN + PREKEY_LEN);
          iv = slice_of handshake (SKIP_LEN + PREKEY_LEN) (SKIP_LEN + PREKEY_LEN + IV_LEN);
          key = sha (prekey @ secret)
      in exec_bind (make_cipher key iv) (\<lambda>cipher.
        let buf = fst (apply_keystream ks cipher handshake)
        in Ret (case from_bytes (slice_of buf PROTO_TAG_POS (PROTO_TAG_POS + 4)) of
             None \<Rightarrow> None
           | Some tag \<Rightarrow>
               let dc_idx = from_le_bytes16 (buf ! DC_IDX_POS) (buf ! (DC_IDX_POS + 1))
               in Some \<lparr>hs_dc_id = ucast (unsigned_abs16 dc_idx),
                        hs_is_media = (sint dc_idx < 0),
                        hs_proto = tag,
                        hs_prekey_and_iv =
                          slice_of handshake SKIP_LEN (SKIP_LEN + PREKEY_LEN + IV_LEN)\<rparr>)))"

section \<open>Generating the relay init\<close>

definition RESERVED_FIRST_BYTES :: bytes where "RESERVED_FIRST_BYTES = [0xef]"
definition RESERVED_STARTS :: "bytes list" where
  "RESERVED_STARTS =
     [[0x48, 0x45, 0x41, 0x44],
      [0x50, 0x4f, 0x53, 0x54],
      [0x47, 0x45, 0x54, 0x20],
      [0xee, 0xee, 0xee, 0xee],
      [0xdd, 0xdd, 0xdd, 0xdd],
      [0x16, 0x03, 0x01, 0x02]]"
definition RESERVED_CONTINUE :: bytes where "RESERVED_CONTINUE = [0x00, 0x00, 0x00, 0x00]"

definition reserved_prefix :: "bytes \<Rightarrow> bool" where
  "reserved_prefix rnd \<longleftrightarrow>
     rnd ! 0 \<in> set RESERVED_FIRST_BYTES \<or>
     (\<exists>s \<in> set RESERVED_STARTS. take 4 rnd = s) \<or>
     slice_of rnd 4 8 = RESERVED_CONTINUE"

text \<open>The body of the loop of \<open>generate_relay_init\<close> once a draw is accepted.\<close>

definition relay_init_from ::
    "keystream \<Rightarrow> ProtoTag \<Rightarrow> i16 \<Rightarrow> bytes \<Rightarrow> bytes \<Rightarrow> bytes exec" where
  "relay_init_from ks tag dc_idx rnd pad =
     (let enc_key = slice_of rnd SKIP_LEN (SKIP_LEN + PREKEY_LEN);
          enc_iv = slice_of rnd (SKIP_LEN + PREKEY_LEN) (SKIP_LEN + PREKEY_LEN + IV_LEN)
      in exec_bind (make_cipher enc_key enc_iv) (\<lambda>cipher.
        let encrypted = fst (apply_keystream ks cipher rnd);
            tail_plain = as_bytes tag @ to_le_bytes16 dc_idx @ pad
        in Ret (put rnd PROTO_TAG_POS
             (map (\<lambda>i. tail_plain ! i XOR
                       (encrypted ! (PROTO_TAG_POS + i) XOR rnd ! (PROTO_TAG_POS + i)))
                [0..<8]))))"

partial_function (option) generate_relay_init ::
    "keystream \<Rightarrow> rng \<Rightarrow> ProtoTag \<Rightarrow> i16 \<Rightarrow> (bytes \<times> rng) exec option" where
  "generate_relay_init ks g tag dc_idx =
     (let (rnd, g1) = fill_bytes g HANDSHAKE_LEN
      in if reserved_prefix rnd then generate_relay_init ks g1 tag dc_idx
         else let (pad, g2) = fill_bytes g1 2
              in Some (exec_bind (relay_init_from ks tag dc_idx rnd pad)
                        (\<lambda>result. Ret (result, g2))))"

section \<open>Generating a client handshake for an upstream proxy\<close>

text \<open>The body of the loop of \<open>generate_client_handshake\<close> once a draw is accepted.\<close>

definition client_handshake_from ::
    "digest \<Rightarrow> keystream \<Rightarrow> bytes \<Rightarrow> i16 \<Rightarrow> ProtoTag \<Rightarrow> bytes \<Rightarrow>
     (bytes \<times> AesCtr256 \<times> AesCtr256) exec" where
  "client_handshake_from sha ks secret dc_idx tag raw =
     (let key = sha (slice_of raw SKIP_LEN (SKIP_LEN + PREKEY_LEN) @ secret);
          iv = slice_of raw (SKIP_LEN + PREKEY_LEN) (SKIP_LEN + PREKEY_LEN + IV_LEN)
      in exec_bind (make_cipher key iv) (\<lambda>cipher.
        let stream = fst (apply_keystream ks cipher (replicate HANDSHAKE_LEN 0));
            handshake = put raw PROTO_TAG_POS
              (map (\<lambda>i. as_bytes tag ! i XOR stream ! (PROTO_TAG_POS + i)) [0..<4]);
            handshake = put handshake DC_IDX_POS
              (map (\<lambda>i. to_le_bytes16 dc_idx ! i XOR stream ! (DC_IDX_POS + i)) [0..<2]);
            enc_key = sha (slice_of handshake SKIP_LEN (SKIP_LEN + PREKEY_LEN) @ secret);
            enc_iv = slice_of handshake (SKIP_LEN + PREKEY_LEN) (SKIP_LEN + PREKEY_LEN + IV_LEN)
        in exec_bind (make_cipher enc_key enc_iv) (\<lambda>enc.
          let enc = snd (apply_keystream ks enc (replicate HANDSHAKE_LEN 0));
              reversed = rev (slice_of handshake SKIP_LEN (SKIP_LEN + PREKEY_LEN + IV_LEN));
              dec_key = sha (take PREKEY_LEN reversed @ secret);
              dec_iv = drop PREKEY_LEN reversed
          in exec_bind (make_cipher dec_key dec_iv) (\<lambda>dec. Ret (handshake, enc, dec)))))"

partial_function (option) generate_client_handshake ::
    "digest \<Rightarrow> keystream \<Rightarrow> rng \<Rightarrow> bytes \<Rightarrow> i16 \<Rightarrow> ProtoTag \<Rightarrow>
     ((bytes \<times> AesCtr256 \<times> AesCtr256) \<times> rng) exec option" where
  "generate_client_handshake sha ks g secret dc_idx tag =
     (let (raw, g1) = fill_bytes g HANDSHAKE_LEN
      in if reserved_prefix raw then generate_client_handshake sha ks g1 secret dc_idx tag
         else Some (exec_bind (client_handshake_from sha ks secret dc_idx tag raw)
                     (\<lambda>result. Ret (result, g1))))"

section \<open>The four ciphers of a connection\<close>

record ConnectionCiphers =
  clt_dec :: AesCtr256
  clt_enc :: AesCtr256
  tg_enc :: AesCtr256
  tg_dec :: AesCtr256

definition build_connection_ciphers ::
    "digest \<Rightarrow> keystream \<Rightarrow> bytes \<Rightarrow> bytes \<Rightarrow> bytes \<Rightarrow> ConnectionCiphers exec" where
  "build_connection_ciphers sha ks pki secret relay_init =
     (let clt_dec_key = sha (take PREKEY_LEN pki @ secret);
          clt_dec_iv = drop PREKEY_LEN pki;
          reversed = rev pki;
          clt_enc_key = sha (take PREKEY_LEN reversed @ secret);
          clt_enc_iv = drop PREKEY_LEN reversed
      in exec_bind (make_cipher clt_dec_key clt_dec_iv) (\<lambda>cd.
         exec_bind (make_cipher clt_enc_key clt_enc_iv) (\<lambda>ce.
           let (dummy, cd) = apply_keystream ks cd (replicate HANDSHAKE_LEN 0);
               relay_enc_key = slice_of relay_init SKIP_LEN (SKIP_LEN + PREKEY_LEN);
               relay_enc_iv =
                 slice_of relay_init (SKIP_LEN + PREKEY_LEN) (SKIP_LEN + PREKEY_LEN + IV_LEN);
               relay_prekey_iv_rev =
                 rev (slice_of relay_init SKIP_LEN (SKIP_LEN + PREKEY_LEN + IV_LEN));
               relay_dec_key = take PREKEY_LEN relay_prekey_iv_rev;
               relay_dec_iv = drop PREKEY_LEN relay_prekey_iv_rev
           in exec_bind (make_cipher relay_enc_key relay_enc_iv) (\<lambda>te.
              exec_bind (make_cipher relay_dec_key relay_dec_iv) (\<lambda>td.
                let te = snd (apply_keystream ks te dummy)
                in Ret \<lparr>clt_dec = cd, clt_enc = ce, tg_enc = te, tg_dec = td\<rparr>)))))"

section \<open>Keystreams\<close>

lemma length_xor_from [simp]: "length (xor_from f p xs) = length xs"
  by (induction xs arbitrary: p) auto

lemma nth_xor_from: "i < length xs \<Longrightarrow> xor_from f p xs ! i = xs ! i XOR f (p + i)"
  by (induction xs arbitrary: p i) (auto simp: nth_Cons split: nat.splits)

lemma xor_from_append:
  "xor_from f p (xs @ ys) = xor_from f p xs @ xor_from f (p + length xs) ys"
  by (induction xs arbitrary: p) auto

lemma byte_xor_cancel [simp]: "(x XOR k) XOR k = (x :: byte)"
  by (simp add: xor.assoc)

lemma xor_from_involution [simp]: "xor_from f p (xor_from f p xs) = xs"
  by (induction xs arbitrary: p) auto

lemma apply_keystream_length [simp]: "length (fst (apply_keystream ks c xs)) = length xs"
  by (simp add: apply_keystream_def)

lemma apply_keystream_key [simp]:
  "cipher_key (snd (apply_keystream ks c xs)) = cipher_key c"
  "cipher_iv (snd (apply_keystream ks c xs)) = cipher_iv c"
  "cipher_pos (snd (apply_keystream ks c xs)) = cipher_pos c + length xs"
  by (simp_all add: apply_keystream_def)

text \<open>
  What the rest of the program relies on of a stream cipher: applying it to a message cut
  in two is applying it to the pieces in order, nothing is added or dropped, and two
  ciphers in the same state undo each other.
\<close>

locale stream_cipher =
  fixes ap :: "'c \<Rightarrow> bytes \<Rightarrow> bytes \<times> 'c"
  assumes ap_append:
    "ap c (xs @ ys) =
       (fst (ap c xs) @ fst (ap (snd (ap c xs)) ys), snd (ap (snd (ap c xs)) ys))"
    and ap_length: "length (fst (ap c xs)) = length xs"
begin

lemma ap_Nil: "ap c [] = ([], c)" if "snd (ap c []) = c"
proof -
  have "fst (ap c []) = []" using ap_length [of c "[]"] by simp
  with that show ?thesis by (cases "ap c []") simp
qed

lemma ap_fst_append: "fst (ap c (xs @ ys)) = fst (ap c xs) @ fst (ap (snd (ap c xs)) ys)"
  by (subst ap_append) simp

lemma ap_snd_append: "snd (ap c (xs @ ys)) = snd (ap (snd (ap c xs)) ys)"
  by (subst ap_append) simp

end

locale xor_cipher = stream_cipher ap for ap :: "'c \<Rightarrow> bytes \<Rightarrow> bytes \<times> 'c" +
  assumes ap_involution: "fst (ap c (fst (ap c xs))) = xs"
    and ap_state: "length xs = length ys \<Longrightarrow> snd (ap c xs) = snd (ap c ys)"
    and ap_state_Nil: "snd (ap c []) = c"
begin

lemma ap_empty [simp]: "ap c [] = ([], c)"
  by (rule ap_Nil) (rule ap_state_Nil)

lemma ap_decrypts: "ap c (fst (ap c xs)) = (xs, snd (ap c xs))"
  using ap_involution [of c xs] ap_state [OF ap_length, of c c xs]
  by (cases "ap c (fst (ap c xs))") simp

end

interpretation ctr: xor_cipher "apply_keystream ks" for ks
  by unfold_locales
    (simp_all add: apply_keystream_def xor_from_append add.assoc)

section \<open>Draws of the rejection loops\<close>

definition draw :: "rng \<Rightarrow> nat \<Rightarrow> bytes" where
  "draw g n = map (\<lambda>i. g (HANDSHAKE_LEN * n + i)) [0..<HANDSHAKE_LEN]"

definition draws_accepted :: "rng \<Rightarrow> bool" where
  "draws_accepted g \<longleftrightarrow> (\<exists>n. \<not> reserved_prefix (draw g n))"

lemma length_draw [simp]: "length (draw g n) = 64"
  by (simp add: draw_def layout_defs)

lemma sample_draws_accepted: "draws_accepted (\<lambda>_. 1)"
  by (auto simp: draws_accepted_def draw_def reserved_prefix_def RESERVED_FIRST_BYTES_def
      RESERVED_STARTS_def RESERVED_CONTINUE_def layout_defs slice_of_def upt_rec intro!: exI [of _ 0])

definition sample_ks :: keystream where
  "sample_ks k iv i = word_of_nat i"

definition sample_cipher :: AesCtr256 where
  "sample_cipher = \<lparr>cipher_key = replicate 32 1, cipher_iv = replicate 16 2, cipher_pos = 0\<rparr>"

lemma sample_digest_len: "digest_len (\<lambda>m. take 32 (m @ replicate 32 0)) 32"
  by (auto simp: digest_len_def)

lemma take_take_eq: "take n xs = take n ys \<Longrightarrow> k \<le> n \<Longrightarrow> take k xs = take k ys"
  by (metis min.absorb1 take_take)

lemma draw_shift: "draw (\<lambda>i. g (HANDSHAKE_LEN + i)) n = draw g (Suc n)"
  by (simp add: draw_def add.assoc add.left_commute)

lemma fill_bytes_draw: "fill_bytes g HANDSHAKE_LEN = (draw g 0, \<lambda>i. g (HANDSHAKE_LEN + i))"
  by (simp add: fill_bytes_def draw_def)

lemma generate_relay_init_returns:
  assumes "\<not> reserved_prefix (draw g n)"
  shows "\<exists>m pad g'. \<not> reserved_prefix (draw g m) \<and> length pad = 2 \<and>
           generate_relay_init ks g tag dc_idx =
             Some (exec_bind (relay_init_from ks tag dc_idx (draw g m) pad)
                    (\<lambda>result. Ret (result, g')))"
  using assms
proof (induction n arbitrary: g)
  case 0
  then show ?case
    by (subst generate_relay_init.simps)
      (force simp: fill_bytes_draw fill_bytes_def [of _ 2])
next
  case (Suc n)
  show ?case
  proof (cases "reserved_prefix (draw g 0)")
    case True
    let ?g = "\<lambda>i. g (HANDSHAKE_LEN + i)"
    from Suc.prems have "\<not> reserved_prefix (draw ?g n)" by (simp add: draw_shift)
    from Suc.IH [OF this] obtain m pad g' where
      "\<not> reserved_prefix (draw ?g m)" "length pad = 2"
      "generate_relay_init ks ?g tag dc_idx =
         Some (exec_bind (relay_init_from ks tag dc_idx (draw ?g m) pad)
                (\<lambda>result. Ret (result, g')))" by blast
    with True show ?thesis
      by (subst generate_relay_init.simps) (auto simp: fill_bytes_draw draw_shift)
  next
    case False
    then show ?thesis
      by (subst generate_relay_init.simps)
        (force simp: fill_bytes_draw fill_bytes_def [of _ 2])
  qed
qed

lemma generate_client_handshake_returns:
  assumes "\<not> reserved_prefix (draw g n)"
  shows "\<exists>m g'. \<not> reserved_prefix (draw g m) \<and>
           generate_client_handshake sha ks g secret dc_idx tag =
             Some (exec_bind (client_handshake_from sha ks secret dc_idx tag (draw g m))
                    (\<lambda>result. Ret (result, g')))"
  using assms
proof (induction n arbitrary: g)
  case 0
  then show ?case
    by (subst generate_client_handshake.simps) (force simp: fill_bytes_draw)
next
  case (Suc n)
  show ?case
  proof (cases "reserved_prefix (draw g 0)")
    case True
    let ?g = "\<lambda>i. g (HANDSHAKE_LEN + i)"
    from Suc.prems have "\<not> reserved_prefix (draw ?g n)" by (simp add: draw_shift)
    from Suc.IH [OF this] obtain m g' where
      "\<not> reserved_prefix (draw ?g m)"
      "generate_client_handshake sha ks ?g secret dc_idx tag =
         Some (exec_bind (client_handshake_from sha ks secret dc_idx tag (draw ?g m))
                (\<lambda>result. Ret (result, g')))" by blast
    with True show ?thesis
      by (subst generate_client_handshake.simps) (auto simp: fill_bytes_draw draw_shift)
  next
    case False
    then show ?thesis
      by (subst generate_client_handshake.simps) (force simp: fill_bytes_draw)
  qed
qed

section \<open>What a peer reads from the sixty-four bytes\<close>

text \<open>
  A server that holds the key decrypts the whole packet and reads the tag and the data
  centre index from its tail; this is what the packets are built for.
\<close>

definition peer_reads :: "(nat \<Rightarrow> byte) \<Rightarrow> bytes \<Rightarrow> (ProtoTag \<times> i16) option" where
  "peer_reads f packet =
     (let buf = xor_from f 0 packet
      in map_option (\<lambda>tag. (tag, from_le_bytes16 (buf ! DC_IDX_POS) (buf ! (DC_IDX_POS + 1))))
           (from_bytes (slice_of buf PROTO_TAG_POS (PROTO_TAG_POS + 4))))"

definition raw_key_stream :: "keystream \<Rightarrow> bytes \<Rightarrow> nat \<Rightarrow> byte" where
  "raw_key_stream ks packet =
     ks (slice_of packet SKIP_LEN (SKIP_LEN + PREKEY_LEN))
        (slice_of packet (SKIP_LEN + PREKEY_LEN) (SKIP_LEN + PREKEY_LEN + IV_LEN))"

definition secret_stream :: "digest \<Rightarrow> keystream \<Rightarrow> bytes \<Rightarrow> bytes \<Rightarrow> nat \<Rightarrow> byte" where
  "secret_stream sha ks secret packet =
     ks (sha (slice_of packet SKIP_LEN (SKIP_LEN + PREKEY_LEN) @ secret))
        (slice_of packet (SKIP_LEN + PREKEY_LEN) (SKIP_LEN + PREKEY_LEN + IV_LEN))"

lemma secret_stream_cong:
  "slice_of h 8 40 = slice_of h' 8 40 \<Longrightarrow> slice_of h 40 56 = slice_of h' 40 56 \<Longrightarrow>
   secret_stream sha ks secret h = secret_stream sha ks secret h'"
  by (simp add: secret_stream_def layout_defs)

lemma length_as_bytes [simp]: "length (as_bytes t) = 4"
  by (cases t) (simp_all add: tag_defs)

lemma from_bytes_as_bytes [simp]: "from_bytes (as_bytes t) = Some t"
  by (cases t) (simp_all add: tag_defs from_bytes_def)

lemma list_eq_iff_nth: "length xs = length ys \<Longrightarrow> (\<And>i. i < length ys \<Longrightarrow> xs ! i = ys ! i) \<Longrightarrow> xs = ys"
  by (simp add: list_eq_iff_nth_eq)

lemma peer_reads_tail:
  assumes len: "length packet = 64"
    and tag: "\<And>i. i < 4 \<Longrightarrow> packet ! (56 + i) = as_bytes t ! i XOR f (56 + i)"
    and dc: "\<And>i. i < 2 \<Longrightarrow> packet ! (60 + i) = to_le_bytes16 dc ! i XOR f (60 + i)"
  shows "peer_reads f packet = Some (t, dc)"
proof -
  let ?buf = "xor_from f 0 packet"
  have "slice_of ?buf 56 60 = as_bytes t"
    by (rule list_eq_iff_nth) (auto simp: len nth_slice nth_xor_from tag)
  moreover have "?buf ! 60 = to_le_bytes16 dc ! 0" "?buf ! 61 = to_le_bytes16 dc ! Suc 0"
    using dc [of 0] dc [of 1] by (simp_all add: nth_xor_from len)
  ultimately show ?thesis
    by (simp add: peer_reads_def layout_defs Let_def from_to_le_bytes16)
qed

lemma put_tail_frame:
  assumes "length xs = 64" and "length ys \<le> 8" and "56 \<le> i" and "i + length ys \<le> 64"
  shows "b \<le> 56 \<Longrightarrow> slice_of (put xs i ys) a b = slice_of xs a b"
  using assms by (intro slice_put_before) auto

lemma make_cipher_Ret:
  "length key = 32 \<Longrightarrow> length iv = 16 \<Longrightarrow>
   make_cipher key iv = Ret \<lparr>cipher_key = key, cipher_iv = iv, cipher_pos = 0\<rparr>"
  by (simp add: make_cipher_def layout_defs)

lemma reserved_prefix_frame:
  assumes "take 8 xs = take 8 ys" and "8 \<le> length xs" and "8 \<le> length ys"
  shows "reserved_prefix xs = reserved_prefix ys"
proof -
  have "xs ! 0 = ys ! 0"
    using arg_cong [OF assms(1), of "\<lambda>zs. zs ! 0"] by simp
  moreover have "take 4 xs = take 4 ys"
    using arg_cong [OF assms(1), of "take 4"] by simp
  moreover have "slice_of xs 4 8 = slice_of ys 4 8"
    using arg_cong [OF assms(1), of "drop 4"] by (simp add: slice_of_def drop_take)
  ultimately show ?thesis by (simp add: reserved_prefix_def)
qed

lemma relay_init_from_spec:
  assumes len: "length rnd = 64" and pad: "length pad = 2"
  shows "\<exists>init. relay_init_from ks t dc rnd pad = Ret init \<and> length init = 64 \<and>
           take 56 init = take 56 rnd \<and>
           peer_reads (raw_key_stream ks init) init = Some (t, dc)"
proof -
  let ?f = "raw_key_stream ks rnd"
  let ?tail = "as_bytes t @ to_le_bytes16 dc @ pad"
  let ?ys = "map (\<lambda>i. ?tail ! i XOR ?f (56 + i)) [0..<8]"
  let ?init = "put rnd 56 ?ys"
  have stream: "xor_from ?f 0 rnd ! (56 + i) XOR rnd ! (56 + i) = ?f (56 + i)" if "i < 8" for i
    using that len by (simp add: nth_xor_from xor.commute xor.left_commute)
  have "relay_init_from ks t dc rnd pad =
      Ret (put rnd 56
        (map (\<lambda>i. ?tail ! i XOR (xor_from ?f 0 rnd ! (56 + i) XOR rnd ! (56 + i))) [0..<8]))"
    using len
    by (simp add: relay_init_from_def make_cipher_Ret layout_defs Let_def apply_keystream_def
        raw_key_stream_def)
  also have "map (\<lambda>i. ?tail ! i XOR (xor_from ?f 0 rnd ! (56 + i) XOR rnd ! (56 + i))) [0..<8] = ?ys"
    by (rule map_cong) (simp_all add: stream)
  finally have ret: "relay_init_from ks t dc rnd pad = Ret ?init" .
  have f: "raw_key_stream ks ?init = ?f"
    using len by (simp add: raw_key_stream_def layout_defs slice_put_before)
  have "peer_reads ?f ?init = Some (t, dc)"
    using len by (intro peer_reads_tail) (auto simp: nth_put nth_append)
  with ret f len show ?thesis
    by (simp add: put_def)
qed

lemma client_handshake_from_spec:
  assumes sha: "digest_len sha 32" and len: "length raw = 64"
  shows "\<exists>h. client_handshake_from sha ks secret dc t raw =
             Ret (h,
                  \<lparr>cipher_key = sha (slice_of h 8 40 @ secret), cipher_iv = slice_of h 40 56,
                    cipher_pos = 64\<rparr>,
                  \<lparr>cipher_key = sha (take 32 (rev (slice_of h 8 56)) @ secret),
                    cipher_iv = drop 32 (rev (slice_of h 8 56)), cipher_pos = 0\<rparr>) \<and>
           length h = 64 \<and> take 56 h = take 56 raw \<and>
           peer_reads (secret_stream sha ks secret h) h = Some (t, dc)"
proof -
  let ?f = "secret_stream sha ks secret raw"
  let ?s = "xor_from ?f 0 (replicate 64 0)"
  let ?h1 = "put raw 56 (map (\<lambda>i. as_bytes t ! i XOR ?s ! (56 + i)) [0..<4])"
  let ?h = "put ?h1 60 (map (\<lambda>i. to_le_bytes16 dc ! i XOR ?s ! (60 + i)) [0..<2])"
  have stream: "?s ! i = ?f i" if "i < 64" for i
    using that by (simp add: nth_xor_from)
  have len1: "length ?h1 = 64" and lenh: "length ?h = 64"
    using len by simp_all
  have frame: "slice_of ?h a b = slice_of raw a b" if "b \<le> 56" for a b
    using that len by (simp add: slice_put_before)
  have ret: "client_handshake_from sha ks secret dc t raw =
      Ret (?h,
           \<lparr>cipher_key = sha (slice_of ?h 8 40 @ secret), cipher_iv = slice_of ?h 40 56,
             cipher_pos = 64\<rparr>,
           \<lparr>cipher_key = sha (take 32 (rev (slice_of ?h 8 56)) @ secret),
             cipher_iv = drop 32 (rev (slice_of ?h 8 56)), cipher_pos = 0\<rparr>)"
    using len sha [unfolded digest_len_def]
    by (simp add: client_handshake_from_def make_cipher_Ret layout_defs Let_def frame
        apply_keystream_def secret_stream_def)
  have "peer_reads ?f ?h = Some (t, dc)"
  proof (rule peer_reads_tail [OF lenh])
    show "?h ! (56 + i) = as_bytes t ! i XOR ?f (56 + i)" if "i < 4" for i
      using that len1 len by (simp add: nth_put stream)
    show "?h ! (60 + i) = to_le_bytes16 dc ! i XOR ?f (60 + i)" if "i < 2" for i
      using that len1 by (simp add: nth_put stream)
  qed
  moreover have "secret_stream sha ks secret ?h = ?f"
    by (rule secret_stream_cong) (rule frame, simp)+
  moreover have "take 56 ?h = take 56 raw"
    using frame [of 56 0] by (simp add: slice_of_def)
  ultimately show ?thesis
    using ret lenh by auto
qed

lemma parse_handshake_peer_reads:
  assumes sha: "digest_len sha 32" and len: "length h = 64"
  shows "parse_handshake sha ks h secret =
    Ret (map_option (\<lambda>(t, dc). \<lparr>hs_dc_id = ucast (unsigned_abs16 dc), hs_is_media = (sint dc < 0),
            hs_proto = t, hs_prekey_and_iv = slice_of h 8 56\<rparr>)
          (peer_reads (secret_stream sha ks secret h) h))"
  using len sha [unfolded digest_len_def]
  by (simp add: parse_handshake_def peer_reads_def secret_stream_def make_cipher_Ret layout_defs
      Let_def apply_keystream_def split: option.splits)

lemma take_slice_prefix: "take 32 (slice_of h 8 56) = slice_of h 8 40"
  by (simp add: take_slice)

lemma drop_slice_prefix: "drop 32 (slice_of h 8 56) = slice_of h 40 56"
  by (simp add: drop_slice)

lemma build_connection_ciphers_spec:
  assumes sha: "digest_len sha 32" and pki: "length pki = 48" and init: "length init = 64"
  shows "build_connection_ciphers sha ks pki secret init =
    Ret \<lparr>clt_dec = \<lparr>cipher_key = sha (take 32 pki @ secret), cipher_iv = drop 32 pki, cipher_pos = 64\<rparr>,
         clt_enc = \<lparr>cipher_key = sha (take 32 (rev pki) @ secret), cipher_iv = drop 32 (rev pki),
                     cipher_pos = 0\<rparr>,
         tg_enc = \<lparr>cipher_key = slice_of init 8 40, cipher_iv = slice_of init 40 56, cipher_pos = 64\<rparr>,
         tg_dec = \<lparr>cipher_key = take 32 (rev (slice_of init 8 56)),
                    cipher_iv = drop 32 (rev (slice_of init 8 56)), cipher_pos = 0\<rparr>\<rparr>"
  using assms [unfolded digest_len_def]
  by (simp add: build_connection_ciphers_def make_cipher_Ret layout_defs Let_def
      apply_keystream_def)

text \<open>The cipher states a client holds after sending the handshake \<open>h\<close>.\<close>

definition client_enc :: "digest \<Rightarrow> bytes \<Rightarrow> bytes \<Rightarrow> AesCtr256" where
  "client_enc sha secret h =
     \<lparr>cipher_key = sha (slice_of h 8 40 @ secret), cipher_iv = slice_of h 40 56, cipher_pos = 64\<rparr>"

definition client_dec :: "digest \<Rightarrow> bytes \<Rightarrow> bytes \<Rightarrow> AesCtr256" where
  "client_dec sha secret h =
     \<lparr>cipher_key = sha (take 32 (rev (slice_of h 8 56)) @ secret),
      cipher_iv = drop 32 (rev (slice_of h 8 56)), cipher_pos = 0\<rparr>"

lemma generate_client_handshake_spec:
  assumes sha: "digest_len sha 32" and acc: "draws_accepted g"
  shows "\<exists>h g'. generate_client_handshake sha ks g secret dc t =
             Some (Ret ((h, client_enc sha secret h, client_dec sha secret h), g')) \<and>
           length h = 64 \<and> \<not> reserved_prefix h \<and>
           peer_reads (secret_stream sha ks secret h) h = Some (t, dc)"
proof -
  from acc obtain n where "\<not> reserved_prefix (draw g n)" by (auto simp: draws_accepted_def)
  from generate_client_handshake_returns [OF this] obtain m g' where
    m: "\<not> reserved_prefix (draw g m)" and
    gen: "generate_client_handshake sha ks g secret dc t =
      Some (exec_bind (client_handshake_from sha ks secret dc t (draw g m))
             (\<lambda>result. Ret (result, g')))" by blast
  from client_handshake_from_spec [OF sha length_draw] obtain h where
    h: "client_handshake_from sha ks secret dc t (draw g m) =
      Ret (h, client_enc sha secret h, client_dec sha secret h)"
      "length h = 64" "take 56 h = take 56 (draw g m)"
      "peer_reads (secret_stream sha ks secret h) h = Some (t, dc)"
    unfolding client_enc_def client_dec_def by blast
  have "\<not> reserved_prefix h"
    using m h(2) reserved_prefix_frame [OF take_take_eq [OF h(3), of 8]] by simp
  with gen h show ?thesis by auto
qed

lemma generate_relay_init_spec:
  assumes "draws_accepted g"
  shows "\<exists>init g'. generate_relay_init ks g t dc = Some (Ret (init, g')) \<and> length init = 64 \<and>
           \<not> reserved_prefix init \<and> peer_reads (raw_key_stream ks init) init = Some (t, dc)"
proof -
  from assms obtain n where "\<not> reserved_prefix (draw g n)" by (auto simp: draws_accepted_def)
  from generate_relay_init_returns [OF this] obtain m pad g' where
    m: "\<not> reserved_prefix (draw g m)" "length pad = 2" and
    gen: "generate_relay_init ks g t dc =
      Some (exec_bind (relay_init_from ks t dc (draw g m) pad) (\<lambda>result. Ret (result, g')))"
    by blast
  from relay_init_from_spec [OF length_draw m(2)] obtain init where
    init: "relay_init_from ks t dc (draw g m) pad = Ret init" "length init = 64"
      "take 56 init = take 56 (draw g m)"
      "peer_reads (raw_key_stream ks init) init = Some (t, dc)" by blast
  have "\<not> reserved_prefix init"
    using m(1) init(2) reserved_prefix_frame [OF take_take_eq [OF init(3), of 8]] by simp
  with gen init show ?thesis by auto
qed

lemma connection_ciphers_in_step:
  assumes sha: "digest_len sha 32" and h: "length h = 64" and init: "length init = 64"
  shows "build_connection_ciphers sha ks (slice_of h 8 56) secret init =
    Ret \<lparr>clt_dec = client_enc sha secret h, clt_enc = client_dec sha secret h,
         tg_enc = \<lparr>cipher_key = slice_of init 8 40, cipher_iv = slice_of init 40 56, cipher_pos = 64\<rparr>,
         tg_dec = \<lparr>cipher_key = take 32 (rev (slice_of init 8 56)),
                    cipher_iv = drop 32 (rev (slice_of init 8 56)), cipher_pos = 0\<rparr>\<rparr>"
  using h init
  by (simp add: build_connection_ciphers_spec [OF sha] client_enc_def client_dec_def
      take_slice_prefix drop_slice_prefix)

section \<open>Properties\<close>

text \<open>
  C21: A handshake the proxy generates as a client is one it accepts as a server. For every
  secret, data centre index and transport, \<open>generate_client_handshake\<close> returns as soon
  as one draw of random bytes has no reserved prefix, it does not panic, the packet it
  returns has no reserved prefix, and \<open>parse_handshake\<close> with the same secret recovers
  the transport, the data centre and the media flag.
\<close>

theorem client_handshake_roundtrip:
  assumes "digest_len sha 32" and "draws_accepted g"
  shows "\<exists>h enc dec g'.
    generate_client_handshake sha ks g secret dc t = Some (Ret ((h, enc, dec), g')) \<and>
    length h = HANDSHAKE_LEN \<and> \<not> reserved_prefix h \<and>
    parse_handshake sha ks h secret =
      Ret (Some \<lparr>hs_dc_id = ucast (unsigned_abs16 dc), hs_is_media = (sint dc < 0),
                 hs_proto = t, hs_prekey_and_iv = slice_of h 8 56\<rparr>)"
  using generate_client_handshake_spec [OF assms, of ks secret dc t] assms(1)
  by (auto simp: parse_handshake_peer_reads HANDSHAKE_LEN_def)

theorem client_handshake_roundtrip_witness:
  "digest_len (\<lambda>m. take 32 (m @ replicate 32 0)) 32 \<and> draws_accepted (\<lambda>_. 1) \<and>
   (\<exists>h enc dec g'.
      generate_client_handshake (\<lambda>m. take 32 (m @ replicate 32 0)) (\<lambda>k iv i. word_of_nat i)
        (\<lambda>_. 1) [7] 2 Abridged = Some (Ret ((h, enc, dec), g')) \<and>
      length h = HANDSHAKE_LEN \<and> \<not> reserved_prefix h \<and>
      parse_handshake (\<lambda>m. take 32 (m @ replicate 32 0)) (\<lambda>k iv i. word_of_nat i) h [7] =
        Ret (Some \<lparr>hs_dc_id = ucast (unsigned_abs16 2), hs_is_media = (sint (2 :: i16) < 0),
                   hs_proto = Abridged, hs_prekey_and_iv = slice_of h 8 56\<rparr>))"
  using client_handshake_roundtrip [OF sample_digest_len sample_draws_accepted]
    sample_digest_len sample_draws_accepted by blast

text \<open>
  C8: The client and the proxy hold the same ciphers. For the packet and the two ciphers
  that \<open>generate_client_handshake\<close> returns, the ciphers that
  \<open>build_connection_ciphers\<close> derives on the server side from the packet's key material
  are the client's own: what the client encrypts with \<open>enc\<close> is decrypted by
  \<open>clt_dec\<close> from the same keystream position, past the handshake, and what the proxy
  encrypts with \<open>clt_enc\<close> is decrypted by \<open>dec\<close>.
\<close>

theorem client_ciphers_in_step:
  assumes "digest_len sha 32" and "draws_accepted g" and "length init = HANDSHAKE_LEN"
  shows "\<exists>h enc dec g' ciphers.
    generate_client_handshake sha ks g secret dc t = Some (Ret ((h, enc, dec), g')) \<and>
    build_connection_ciphers sha ks (slice_of h 8 56) secret init = Ret ciphers \<and>
    clt_dec ciphers = enc \<and> clt_enc ciphers = dec \<and> cipher_pos enc = HANDSHAKE_LEN \<and>
    fst (apply_keystream ks (clt_dec ciphers) (fst (apply_keystream ks enc up))) = up \<and>
    fst (apply_keystream ks dec (fst (apply_keystream ks (clt_enc ciphers) down))) = down"
  using generate_client_handshake_spec [OF assms(1,2), of ks secret dc t] assms(1,3)
  by (auto simp: connection_ciphers_in_step HANDSHAKE_LEN_def client_enc_def ctr.ap_involution)

theorem client_ciphers_in_step_witness:
  "digest_len (\<lambda>m. take 32 (m @ replicate 32 0)) 32 \<and> draws_accepted (\<lambda>_. 1) \<and>
   (\<exists>h enc dec g' ciphers.
      generate_client_handshake (\<lambda>m. take 32 (m @ replicate 32 0)) (\<lambda>k iv i. word_of_nat i)
        (\<lambda>_. 1) [7] 2 Abridged = Some (Ret ((h, enc, dec), g')) \<and>
      build_connection_ciphers (\<lambda>m. take 32 (m @ replicate 32 0)) (\<lambda>k iv i. word_of_nat i)
        (slice_of h 8 56) [7] (replicate 64 3) = Ret ciphers \<and>
      clt_dec ciphers = enc \<and> clt_enc ciphers = dec \<and> cipher_pos enc = HANDSHAKE_LEN \<and>
      fst (apply_keystream (\<lambda>k iv i. word_of_nat i) (clt_dec ciphers)
        (fst (apply_keystream (\<lambda>k iv i. word_of_nat i) enc [1, 2]))) = [1, 2] \<and>
      fst (apply_keystream (\<lambda>k iv i. word_of_nat i) dec
        (fst (apply_keystream (\<lambda>k iv i. word_of_nat i) (clt_enc ciphers) [3]))) = [3])"
  using client_ciphers_in_step [OF sample_digest_len sample_draws_accepted, of "replicate 64 3"]
    sample_digest_len sample_draws_accepted by (simp add: HANDSHAKE_LEN_def)

text \<open>
  The relay init packet carries its metadata. \<open>generate_relay_init\<close> returns as soon
  as one draw is acceptable and does not panic; the packet is sixty-four bytes with no
  reserved prefix, and a server that decrypts it with the key material embedded in it reads
  exactly the requested transport and data centre index.
\<close>

lemma relay_init_readable:
  assumes "draws_accepted g"
  shows "\<exists>init g'. generate_relay_init ks g t dc = Some (Ret (init, g')) \<and>
    length init = HANDSHAKE_LEN \<and> \<not> reserved_prefix init \<and>
    peer_reads (raw_key_stream ks init) init = Some (t, dc)"
  using generate_relay_init_spec [OF assms] by (simp add: HANDSHAKE_LEN_def)

theorem relay_init_readable_witness:
  "draws_accepted (\<lambda>_. 1) \<and>
   (\<exists>init g'. generate_relay_init (\<lambda>k iv i. word_of_nat i) (\<lambda>_. 1) PaddedIntermediate (-4) =
        Some (Ret (init, g')) \<and>
      length init = HANDSHAKE_LEN \<and> \<not> reserved_prefix init \<and>
      peer_reads (raw_key_stream (\<lambda>k iv i. word_of_nat i) init) init =
        Some (PaddedIntermediate, -4))"
  using relay_init_readable [OF sample_draws_accepted] sample_draws_accepted by blast

end
