(* ===== verification/Splitter.thy ===== *)
theory Splitter
  imports Crypto
begin

text \<open>
  The message splitter, after \<^verbatim>\<open>src/splitter.rs\<close>: it cuts the plaintext of a
  client into MTProto packets and encrypts them, in stream order, for the WebSocket to
  Telegram, where every message has to be exactly one packet.

  The definitions follow the source with the pointer width \<open>W\<close> as a parameter. One
  pass of the \<open>while\<close> loop is \<open>split_step\<close>; the slice that is still to be consumed
  stands for the pair of buffer and offset. The loop itself is partial: with a pointer
  narrower than 26 bits \<open>checked_mul\<close> could fail on a complete header and the loop
  would spin, so that it returns is a theorem about the widths the program is built for. The reference is \<open>frames\<close>, which cuts a whole plaintext at once
  from the packet headers; the splitter is shown to agree with it however the plaintext is
  cut into reads.
\<close>

section \<open>State and helpers\<close>

definition MAX_HEADER_LEN :: nat where "MAX_HEADER_LEN = 4"

record MsgSplitter =
  sp_proto :: ProtoTag
  sp_packet :: bytes
  sp_header :: bytes
  sp_header_len :: nat
  sp_packet_len :: "nat option"
  sp_disabled :: bool

definition new_splitter :: "ProtoTag \<Rightarrow> MsgSplitter" where
  "new_splitter tag =
     \<lparr>sp_proto = tag, sp_packet = [], sp_header = replicate MAX_HEADER_LEN 0,
      sp_header_len = 0, sp_packet_len = None, sp_disabled = False\<rparr>"

definition extended_header :: "byte \<Rightarrow> bool" where
  "extended_header b \<longleftrightarrow> b = 0x7f \<or> b = 0xff"

fun required_for :: "ProtoTag \<Rightarrow> MsgSplitter \<Rightarrow> nat" where
  "required_for Abridged s =
     (if sp_header_len s = 0 \<or> \<not> extended_header (sp_header s ! 0) then 1 else 4)"
| "required_for Intermediate s = 4"
| "required_for PaddedIntermediate s = 4"

definition required_header_len :: "MsgSplitter \<Rightarrow> nat" where
  "required_header_len s = required_for (sp_proto s) s"

definition padded_payload_len :: "nat \<Rightarrow> nat \<Rightarrow> nat \<Rightarrow> nat" where
  "padded_payload_len W payload header =
     (case checked_add W payload header of Some n \<Rightarrow> n | None \<Rightarrow> 0)"

definition parsed_packet_len :: "nat \<Rightarrow> MsgSplitter \<Rightarrow> nat option" where
  "parsed_packet_len W s =
     (let h = sp_header s in
      case sp_proto s of
        Abridged \<Rightarrow>
          (let extended = extended_header (h ! 0);
               header_len = (if extended then 4 else 1)
           in if sp_header_len s < header_len then None
              else let words = (if extended then unat (from_le_bytes32 (h ! 1) (h ! 2) (h ! 3) 0)
                                else unat (h ! 0 AND 0x7f))
                   in case checked_mul W words 4 of
                        None \<Rightarrow> None
                      | Some payload_len \<Rightarrow>
                          (if payload_len = 0 then Some 0
                           else Some (padded_payload_len W payload_len header_len)))
      | _ \<Rightarrow>
          (if sp_header_len s < 4 then None
           else let payload_len =
                      unat (from_le_bytes32 (h ! 0) (h ! 1) (h ! 2) (h ! 3) AND 0x7fffffff)
                in if payload_len = 0 then Some 0
                   else Some (padded_payload_len W payload_len 4)))"

definition encrypt_into_packet ::
    "keystream \<Rightarrow> MsgSplitter \<Rightarrow> bytes \<Rightarrow> AesCtr256 \<Rightarrow> MsgSplitter \<times> AesCtr256" where
  "encrypt_into_packet ks s plaintext enc =
     (let (plaintext, enc) = apply_keystream ks enc plaintext
      in (s\<lparr>sp_packet := sp_packet s @ plaintext\<rparr>, enc))"

section \<open>Splitting\<close>

datatype split_iter =
    Next MsgSplitter bytes AesCtr256 "bytes list"
  | Done MsgSplitter AesCtr256 "bytes list"

text \<open>The second half of a pass: the length of the packet is known.\<close>

definition split_body ::
    "keystream \<Rightarrow> nat \<Rightarrow> MsgSplitter \<Rightarrow> bytes \<Rightarrow> AesCtr256 \<Rightarrow> bytes list \<Rightarrow>
     split_iter exec" where
  "split_body ks packet_len s rest enc parts =
     (if packet_len < length (sp_packet s) then Panic
      else let n = min (packet_len - length (sp_packet s)) (length rest);
               (s', enc') = encrypt_into_packet ks s (take n rest) enc
           in if length (sp_packet s') = packet_len
              then Ret (Next (s'\<lparr>sp_packet := [], sp_header_len := 0, sp_packet_len := None\<rparr>)
                          (drop n rest) enc' (parts @ [sp_packet s']))
              else Ret (Next s' (drop n rest) enc' parts))"

text \<open>One pass of the loop over the input that is left.\<close>

definition split_step ::
    "keystream \<Rightarrow> nat \<Rightarrow> MsgSplitter \<Rightarrow> bytes \<Rightarrow> AesCtr256 \<Rightarrow> bytes list \<Rightarrow>
     split_iter exec" where
  "split_step ks W s rest enc parts =
     (case sp_packet_len s of
        Some packet_len \<Rightarrow> split_body ks packet_len s rest enc parts
      | None \<Rightarrow>
          (let required = required_header_len s
           in if required < sp_header_len s then Panic
              else
                let n = min (required - sp_header_len s) (length rest);
                    s = s\<lparr>sp_header := put (sp_header s) (sp_header_len s) (take n rest),
                          sp_header_len := sp_header_len s + n\<rparr>;
                    (s, enc) = encrypt_into_packet ks s (take n rest) enc;
                    rest = drop n rest
                in if sp_header_len s < required then Ret (Next s rest enc parts)
                   else case parsed_packet_len W s of
                     None \<Rightarrow> Ret (Next s rest enc parts)
                   | Some packet_len \<Rightarrow>
                       (if packet_len = 0
                        then let (s, enc) = encrypt_into_packet ks s rest enc
                             in Ret (Done (s\<lparr>sp_packet := [], sp_disabled := True, sp_header_len := 0\<rparr>)
                                       enc (parts @ [sp_packet s]))
                        else split_body ks packet_len (s\<lparr>sp_packet_len := Some packet_len\<rparr>)
                               rest enc parts)))"

partial_function (option) split_loop ::
    "keystream \<Rightarrow> nat \<Rightarrow> MsgSplitter \<Rightarrow> bytes \<Rightarrow> AesCtr256 \<Rightarrow> bytes list \<Rightarrow>
     (bytes list \<times> MsgSplitter \<times> AesCtr256) exec option" where
  "split_loop ks W s rest enc parts =
     (if rest = [] then Some (Ret (parts, s, enc))
      else case split_step ks W s rest enc parts of
             Panic \<Rightarrow> Some Panic
           | Ret it \<Rightarrow>
               (case it of
                  Done s enc parts \<Rightarrow> Some (Ret (parts, s, enc))
                | Next s rest enc parts \<Rightarrow> split_loop ks W s rest enc parts))"

definition split_and_encrypt ::
    "keystream \<Rightarrow> nat \<Rightarrow> MsgSplitter \<Rightarrow> bytes \<Rightarrow> AesCtr256 \<Rightarrow>
     (bytes list \<times> MsgSplitter \<times> AesCtr256) exec option" where
  "split_and_encrypt ks W s plaintext enc =
     (if plaintext = [] then Some (Ret ([], s, enc))
      else if sp_disabled s
      then let (plaintext, enc) = apply_keystream ks enc plaintext
           in Some (Ret ([plaintext], s, enc))
      else split_loop ks W s plaintext enc [])"

definition flush_splitter :: "MsgSplitter \<Rightarrow> bytes list \<times> MsgSplitter" where
  "flush_splitter s =
     (if sp_packet s = [] then ([], s)
      else ([sp_packet s], s\<lparr>sp_packet := [], sp_header_len := 0, sp_packet_len := None\<rparr>))"

section \<open>Reference: packets of a plaintext\<close>

text \<open>
  The size of the packet that starts a byte string, from its transport header:
  \<open>None\<close> while the header is incomplete, \<open>Some 0\<close> for a header that announces no
  payload.
\<close>

fun packet_size :: "ProtoTag \<Rightarrow> bytes \<Rightarrow> nat option" where
  "packet_size Abridged buf =
     (case buf of
        [] \<Rightarrow> None
      | b # rest \<Rightarrow>
          (if extended_header b
           then (if length rest < 3 then None
                 else let w = unat (from_le_bytes32 (rest ! 0) (rest ! 1) (rest ! 2) 0)
                      in Some (if w = 0 then 0 else 4 * w + 4))
           else let w = unat (b AND 0x7f) in Some (if w = 0 then 0 else 4 * w + 1)))"
| "packet_size _ buf =
     (if length buf < 4 then None
      else let n = unat (from_le_bytes32 (buf ! 0) (buf ! 1) (buf ! 2) (buf ! 3) AND 0x7fffffff)
           in Some (if n = 0 then 0 else n + 4))"

text \<open>
  The packets of a plaintext in order, the incomplete packet at its end, and whether a
  header without payload was met: from there on nothing is cut any more.
\<close>

function frames :: "ProtoTag \<Rightarrow> bytes \<Rightarrow> bytes list \<times> bytes \<times> bool" where
  "frames proto buf =
     (case packet_size proto buf of
        None \<Rightarrow> ([], buf, False)
      | Some n \<Rightarrow>
          (if n = 0 then ([buf], [], True)
           else if length buf < n then ([], buf, False)
           else let (ps, rest, d) = frames proto (drop n buf) in (take n buf # ps, rest, d)))"
  by auto
termination
  by (relation "measure (length \<circ> snd)") auto

declare frames.simps [simp del]

section \<open>Headers\<close>

lemma packet_size_append:
  "packet_size proto xs = Some n \<Longrightarrow> packet_size proto (xs @ ys) = Some n"
  by (cases proto) (auto simp: nth_append Let_def split: list.splits if_splits)

lemma packet_size_None_length: "packet_size proto xs = None \<Longrightarrow> length xs < 4"
  by (cases proto) (auto simp: Let_def split: list.splits if_splits)

lemma packet_size_Nil [simp]: "packet_size proto [] = None"
  by (cases proto) auto

lemma from_le_bytes24_bound: "unat (from_le_bytes32 a b c 0) < 2 ^ 24"
proof -
  have "from_le_bytes32 a b c 0 = take_bit 24 (from_le_bytes32 a b c 0)"
    by (rule bit_word_eqI) (auto simp: from_le_bytes32_def bit_simps dest: bit_imp_le_length)
  then have "unat (from_le_bytes32 a b c 0) = take_bit 24 (unat (from_le_bytes32 a b c 0))"
    by (metis unsigned_take_bit_eq)
  then show ?thesis
    by (metis take_bit_nat_less_exp)
qed

lemma low31_bound: "unat ((w :: u32) AND 0x7fffffff) < 2 ^ 31"
proof -
  have "w AND 0x7fffffff \<le> 0x7fffffff" by (rule word_and_le1)
  then show ?thesis by (simp add: word_le_nat_alt)
qed

lemma low7_bound: "unat ((b :: byte) AND 0x7f) < 128"
proof -
  have "b AND 0x7f \<le> 0x7f" by (rule word_and_le1)
  then show ?thesis by (simp add: word_le_nat_alt)
qed

section \<open>The packet being assembled\<close>

text \<open>
  \<open>assembling s pb\<close>: the splitter has consumed exactly the plaintext \<open>pb\<close> of the
  current packet, which is not complete.
\<close>

definition assembling :: "MsgSplitter \<Rightarrow> bytes \<Rightarrow> bool" where
  "assembling s pb \<longleftrightarrow>
     \<not> sp_disabled s \<and> length (sp_header s) = 4 \<and> length (sp_packet s) = length pb \<and>
     (case sp_packet_len s of
        None \<Rightarrow> sp_header_len s = length pb \<and> take (length pb) (sp_header s) = pb \<and>
               packet_size (sp_proto s) pb = None
      | Some n \<Rightarrow> packet_size (sp_proto s) pb = Some n \<and> length pb < n)"

lemma assembling_new [simp]: "assembling (new_splitter proto) []"
  by (simp add: assembling_def new_splitter_def MAX_HEADER_LEN_def)

lemma assembling_packet_Nil: "assembling s pb \<Longrightarrow> sp_packet s = [] \<longleftrightarrow> pb = []"
  by (auto simp: assembling_def)

lemma header_nth:
  assumes "take n h = pb" and "i < n" and "n \<le> length h"
  shows "h ! i = pb ! i"
  using assms by (metis nth_take)

lemma required_header_len_bounds:
  assumes "take (length pb) (sp_header s) = pb" and "sp_header_len s = length pb"
    and "packet_size (sp_proto s) pb = None"
  shows "length pb < required_header_len s" and "required_header_len s \<le> 4"
proof -
  have "length pb < 4" by (rule packet_size_None_length) (rule assms)
  then show "length pb < required_header_len s"
    using assms
    by (cases "sp_proto s"; cases pb; cases "sp_header s")
      (auto simp: required_header_len_def Let_def split: if_splits)
  show "required_header_len s \<le> 4"
    by (cases "sp_proto s") (auto simp: required_header_len_def)
qed

text \<open>A header of the required length is one that decides the size of the packet.\<close>

lemma packet_size_short_header:
  assumes "take (length pb) (sp_header s) = pb" and "sp_header_len s = length pb"
    and "length pb + length ys < required_header_len s"
    and "packet_size (sp_proto s) pb = None"
  shows "packet_size (sp_proto s) (pb @ ys) = None"
  using assms
  by (cases "sp_proto s"; cases pb; cases "sp_header s")
    (auto simp: required_header_len_def Let_def split: if_splits)

lemma packet_size_gt_header:
  assumes "packet_size (sp_proto s) (pb @ ys) = Some n" and "n \<noteq> 0"
    and "packet_size (sp_proto s) pb = None"
    and "take (length pb) (sp_header s) = pb" and "sp_header_len s = length pb"
    and "length pb + length ys = required_header_len s"
  shows "length pb + length ys < n"
  using assms
  by (cases "sp_proto s"; cases pb; cases "sp_header s")
    (auto simp: required_header_len_def Let_def split: if_splits list.splits)

lemma parsed_packet_len_eq:
  assumes W: "32 \<le> W" and len: "length (sp_header s) = 4" and hl: "sp_header_len s = length pb"
    and pre: "take (length pb) (sp_header s) = pb" and "length pb \<le> 4" and "pb \<noteq> []"
  shows "parsed_packet_len W s = packet_size (sp_proto s) pb"
proof -
  obtain a b c d where h: "sp_header s = [a, b, c, d]"
    using len by (auto simp: length_Suc_conv numeral_eq_Suc)
  have "0 < length pb" using assms(6) by simp
  then have "length pb = 1 \<or> length pb = 2 \<or> length pb = 3 \<or> length pb = 4"
    using assms(5) by linarith
  then have "pb \<in> {[a], [a, b], [a, b, c], [a, b, c, d]}"
    using pre h by auto
  moreover have "unat (from_le_bytes32 b c d 0) * 4 + 4 \<le> usize_max W"
    using from_le_bytes24_bound [of b c d] usize_max_ge_32 [OF W] by simp
  moreover have "unat (a AND 0x7f) * 4 + 4 \<le> usize_max W"
    using low7_bound [of a] usize_max_ge_32 [OF W] by simp
  moreover have "unat (from_le_bytes32 a b c d AND 0x7fffffff) + 4 \<le> usize_max W"
    using low31_bound [of "from_le_bytes32 a b c d"] usize_max_ge_32 [OF W] by simp
  ultimately show ?thesis
    using hl h
    by (cases "sp_proto s")
      (auto simp: parsed_packet_len_def padded_payload_len_def checked_mul_def checked_add_def
        Let_def numeral_eq_Suc)
qed

section \<open>One pass refines one step of the reference\<close>

lemma encrypt_into_packet_eq:
  "encrypt_into_packet ks s xs enc =
     (s\<lparr>sp_packet := sp_packet s @ fst (apply_keystream ks enc xs)\<rparr>, snd (apply_keystream ks enc xs))"
  by (simp add: encrypt_into_packet_def split: prod.split)

lemma keystream_take_add:
  "fst (apply_keystream ks enc (take n xs)) @
     fst (apply_keystream ks (snd (apply_keystream ks enc (take n xs))) (take k (drop n xs))) =
   fst (apply_keystream ks enc (take (n + k) xs))"
  "snd (apply_keystream ks (snd (apply_keystream ks enc (take n xs))) (take k (drop n xs))) =
   snd (apply_keystream ks enc (take (n + k) xs))"
  by (simp_all add: take_add ctr.ap_append)

text \<open>
  What a pass over non-empty input may do: consume input without completing the packet,
  complete it, or meet a header without payload.
\<close>

inductive pass_result ::
    "keystream \<Rightarrow> MsgSplitter \<Rightarrow> bytes \<Rightarrow> bytes \<Rightarrow> AesCtr256 \<Rightarrow> bytes list \<Rightarrow> split_iter \<Rightarrow> bool"
  for ks s pb rest enc parts where
  consumed:
    "\<lbrakk>0 < k; k \<le> length rest; assembling s' (pb @ take k rest); sp_proto s' = sp_proto s;
      sp_packet s' = sp_packet s @ fst (apply_keystream ks enc (take k rest))\<rbrakk> \<Longrightarrow>
     pass_result ks s pb rest enc parts
       (Next s' (drop k rest) (snd (apply_keystream ks enc (take k rest))) parts)"
| completed:
    "\<lbrakk>0 < k; k \<le> length rest; assembling s' []; sp_proto s' = sp_proto s;
      packet_size (sp_proto s) (pb @ take k rest) = Some (length pb + k)\<rbrakk> \<Longrightarrow>
     pass_result ks s pb rest enc parts
       (Next s' (drop k rest) (snd (apply_keystream ks enc (take k rest)))
          (parts @ [sp_packet s @ fst (apply_keystream ks enc (take k rest))]))"
| gave_up:
    "\<lbrakk>sp_disabled s'; sp_packet s' = []; sp_proto s' = sp_proto s;
      packet_size (sp_proto s) (pb @ rest) = Some 0\<rbrakk> \<Longrightarrow>
     pass_result ks s pb rest enc parts
       (Done s' (snd (apply_keystream ks enc rest))
          (parts @ [sp_packet s @ fst (apply_keystream ks enc rest)]))"

text \<open>
  The second half of a pass, entered after \<open>n\<close> bytes of this input went into the header.
\<close>

lemma split_body_result:
  fixes rest :: bytes and n :: nat
  defines "pre \<equiv> take n rest"
  assumes "n < length rest \<or> 0 < n" and "n \<le> length rest" and "\<not> sp_disabled s1"
    and "length (sp_header s1) = 4" and "sp_packet_len s1 = Some m"
    and "packet_size (sp_proto s) (pb @ pre) = Some m" and "length (pb @ pre) < m"
    and "sp_packet s1 = sp_packet s @ fst (apply_keystream ks enc pre)"
    and "sp_proto s1 = sp_proto s" and "length (sp_packet s) = length pb"
  shows "\<exists>it. split_body ks m s1 (drop n rest) (snd (apply_keystream ks enc pre)) parts = Ret it \<and>
              pass_result ks s pb rest enc parts it"
proof -
  define k where "k = min (m - length (pb @ pre)) (length rest - n)"
  have len: "length pre = n" using assms by simp
  have ext: "packet_size (sp_proto s) (pb @ take (n + k) rest) = Some m"
    using packet_size_append [OF assms(7), of "take k (drop n rest)"]
    by (simp add: take_add pre_def)
  have kn: "0 < n + k" "n + k \<le> length rest"
    using assms len by (auto simp: k_def)
  let ?s' = "s1\<lparr>sp_packet := sp_packet s @ fst (apply_keystream ks enc (take (n + k) rest))\<rparr>"
  have step: "split_body ks m s1 (drop n rest) (snd (apply_keystream ks enc pre)) parts =
    (if length pb + (n + k) = m
     then Ret (Next (?s'\<lparr>sp_packet := [], sp_header_len := 0, sp_packet_len := None\<rparr>)
            (drop (n + k) rest) (snd (apply_keystream ks enc (take (n + k) rest)))
            (parts @ [sp_packet ?s']))
     else Ret (Next ?s' (drop (n + k) rest) (snd (apply_keystream ks enc (take (n + k) rest))) parts))"
    using assms len kn
    by (simp add: split_body_def encrypt_into_packet_eq keystream_take_add k_def
        add.commute pre_def Let_def)
  show ?thesis
  proof (cases "length pb + (n + k) = m")
    case True
    then show ?thesis
      unfolding step using completed [OF kn] ext assms(4,5,10)
      by (simp add: assembling_def)
  next
    case False
    then have "length pb + (n + k) < m"
      using assms len by (simp add: k_def)
    then show ?thesis
      unfolding step using consumed [OF kn] ext assms kn False
      by (simp add: assembling_def)
  qed
qed

text \<open>The state after the first \<open>n\<close> bytes of the input went into the header.\<close>

definition absorbed :: "keystream \<Rightarrow> MsgSplitter \<Rightarrow> nat \<Rightarrow> bytes \<Rightarrow> AesCtr256 \<Rightarrow> MsgSplitter" where
  "absorbed ks s n rest enc =
     s\<lparr>sp_header := put (sp_header s) (sp_header_len s) (take n rest),
       sp_header_len := sp_header_len s + n,
       sp_packet := sp_packet s @ fst (apply_keystream ks enc (take n rest))\<rparr>"

lemma absorbed_header:
  assumes "sp_header_len s = length pb" and "take (length pb) (sp_header s) = pb"
    and "length (sp_header s) = 4" and "length pb + n \<le> 4" and "n \<le> length rest"
  shows "length (sp_header (absorbed ks s n rest enc)) = 4"
    and "sp_header_len (absorbed ks s n rest enc) = length (pb @ take n rest)"
    and "take (length (pb @ take n rest)) (sp_header (absorbed ks s n rest enc)) = pb @ take n rest"
  using assms by (auto simp: absorbed_def put_def)

lemma split_step_header:
  fixes s :: MsgSplitter and rest :: bytes and ks :: keystream and enc :: AesCtr256
  defines "n \<equiv> min (required_header_len s - sp_header_len s) (length rest)"
  defines "s1 \<equiv> absorbed ks s n rest enc" and "enc1 \<equiv> snd (apply_keystream ks enc (take n rest))"
  assumes "sp_packet_len s = None" and "sp_header_len s \<le> required_header_len s"
  shows "split_step ks W s rest enc parts =
    (if sp_header_len s1 < required_header_len s then Ret (Next s1 (drop n rest) enc1 parts)
     else case parsed_packet_len W s1 of
       None \<Rightarrow> Ret (Next s1 (drop n rest) enc1 parts)
     | Some m \<Rightarrow>
         if m = 0
         then Ret (Done (s1\<lparr>sp_packet := [], sp_disabled := True, sp_header_len := 0\<rparr>)
                (snd (apply_keystream ks enc rest))
                (parts @ [sp_packet s @ fst (apply_keystream ks enc rest)]))
         else split_body ks m (s1\<lparr>sp_packet_len := Some m\<rparr>) (drop n rest) enc1 parts)"
proof -
  have "encrypt_into_packet ks s1 (drop n rest) enc1 =
    (s1\<lparr>sp_packet := sp_packet s @ fst (apply_keystream ks enc rest)\<rparr>,
     snd (apply_keystream ks enc rest))"
    using ctr.ap_append [of ks enc "take n rest" "drop n rest"]
    by (simp add: encrypt_into_packet_eq s1_def absorbed_def enc1_def)
  moreover have "encrypt_into_packet ks
      (s\<lparr>sp_header := put (sp_header s) (sp_header_len s) (take n rest),
         sp_header_len := sp_header_len s + n\<rparr>) (take n rest) enc = (s1, enc1)"
    by (simp add: encrypt_into_packet_eq s1_def absorbed_def enc1_def)
  ultimately show ?thesis
    using assms(4,5) unfolding split_step_def n_def [symmetric]
    by (simp add: Let_def n_def [symmetric] split: option.split)
qed

lemma split_step_result:
  assumes asm: "assembling s pb" and W: "32 \<le> W" and rest: "rest \<noteq> []"
  shows "\<exists>it. split_step ks W s rest enc parts = Ret it \<and> pass_result ks s pb rest enc parts it"
proof (cases "sp_packet_len s")
  case (Some m)
  then show ?thesis
    using split_body_result [of 0 rest s m s pb ks enc parts] asm rest
    by (simp add: split_step_def assembling_def)
next
  case None
  define req where "req = required_header_len s"
  define n where "n = min (req - sp_header_len s) (length rest)"
  define s1 where "s1 = absorbed ks s n rest enc"
  have st: "sp_header_len s = length pb" "take (length pb) (sp_header s) = pb"
    "packet_size (sp_proto s) pb = None" "length (sp_packet s) = length pb"
    "length (sp_header s) = 4" "\<not> sp_disabled s"
    using asm None by (auto simp: assembling_def)
  have req: "length pb < req" "req \<le> 4"
    using required_header_len_bounds [OF st(2,1,3)] by (simp_all add: req_def)
  have n: "0 < n" "n \<le> length rest" "length pb + n \<le> req"
    using req rest st by (auto simp: n_def)
  have s1: "length (sp_header s1) = 4" "sp_header_len s1 = length (pb @ take n rest)"
    "take (length (pb @ take n rest)) (sp_header s1) = pb @ take n rest"
    using absorbed_header [OF st(1,2,5), of n rest] n req by (simp_all add: s1_def)
  let ?size = "packet_size (sp_proto s) (pb @ take n rest)"
  have size: "parsed_packet_len W s1 = ?size"
    using parsed_packet_len_eq [OF W s1(1,2,3)] n req rest by (simp add: s1_def absorbed_def)
  note step = split_step_header [OF None, where rest = rest and ks = ks and enc = enc and W = W
        and parts = parts, folded req_def, folded n_def,
      folded s1_def, unfolded size]
  consider (more) "?size = None" | (bad) "?size = Some 0" "length pb + n = req"
    | (body) m where "?size = Some m" "m \<noteq> 0" "length pb + n = req"
    using packet_size_short_header [OF st(2,1) _ st(3), of "take n rest"] n
    by (cases "length pb + n = req"; cases ?size) (auto simp: req_def)
  then show ?thesis
  proof cases
    case more
    then show ?thesis
      using step req st s1 n None consumed [of n rest s1 pb s ks enc parts]
      by (auto simp: assembling_def s1_def absorbed_def)
  next
    case bad
    then show ?thesis
      using step req st s1 n packet_size_append [of "sp_proto s" "pb @ take n rest" 0 "drop n rest"]
      by (auto simp: s1_def absorbed_def intro!: gave_up)
  next
    case body
    then have "length (pb @ take n rest) < m"
      using packet_size_gt_header [OF body(1,2) st(3,2,1)] n by (simp add: req_def)
    then show ?thesis
      using step req st s1 n body
        split_body_result [of n rest "s1\<lparr>sp_packet_len := Some m\<rparr>" m s pb ks enc parts]
      by (simp add: s1_def absorbed_def)
  qed
qed

section \<open>A call refines the reference\<close>

lemma frames_assembling: "assembling s pb \<Longrightarrow> frames (sp_proto s) pb = ([], pb, False)"
  by (auto simp: assembling_def frames.simps [of _ pb] split: option.splits)

lemma frames_packet:
  "packet_size proto xs = Some (length xs) \<Longrightarrow> xs \<noteq> [] \<Longrightarrow>
   frames proto (xs @ ys) = (let (ps, r, d) = frames proto ys in (xs # ps, r, d))"
  by (subst frames.simps) (simp add: packet_size_append)

lemma frames_no_payload: "packet_size proto xs = Some 0 \<Longrightarrow> frames proto xs = ([xs], [], True)"
  by (simp add: frames.simps [of _ xs])

lemma frames_append:
  assumes "frames proto xs = (ps, r, False)"
  shows "frames proto (xs @ ys) = (let (qs, r', d) = frames proto (r @ ys) in (ps @ qs, r', d))"
  using assms
proof (induction proto xs arbitrary: ps rule: frames.induct)
  case (1 proto buf)
  show ?case
  proof (cases "packet_size proto buf")
    case None
    then show ?thesis using "1.prems"
      by (simp add: frames.simps [of proto buf] split: prod.split)
  next
    case (Some n)
    have n: "n \<noteq> 0"
      using "1.prems" Some by (auto simp: frames.simps [of proto buf] split: if_splits)
    show ?thesis
    proof (cases "length buf < n")
      case True
      then show ?thesis using "1.prems" Some n
        by (simp add: frames.simps [of proto buf] split: prod.split)
    next
      case False
      then obtain ps' where ps': "frames proto (drop n buf) = (ps', r, False)" "ps = take n buf # ps'"
        using "1.prems" Some n by (auto simp: frames.simps [of proto buf] split: prod.splits)
      show ?thesis
        using "1.IH" [OF Some n False ps'(1)] ps'(2) False n packet_size_append [OF Some, of ys]
        by (subst frames.simps) (simp split: prod.splits)
    qed
  qed
qed

lemma frames_concat: "frames proto xs = (ps, r, d) \<Longrightarrow> concat ps @ r = xs"
proof (induction proto xs arbitrary: ps rule: frames.induct)
  case (1 proto buf)
  then show ?case
    by (subst (asm) frames.simps)
      (fastforce split: option.splits if_splits prod.splits)
qed

lemma frames_append_disabled:
  assumes "frames proto xs = (ps, r, True)"
  shows "\<exists>qs. frames proto (xs @ ys) = (qs, [], True)"
  using assms
proof (induction proto xs arbitrary: ps rule: frames.induct)
  case (1 proto buf)
  then obtain n where n: "packet_size proto buf = Some n"
    by (auto simp: frames.simps [of proto buf] split: option.splits)
  show ?case
  proof (cases "n = 0")
    case True
    then show ?thesis
      using packet_size_append [OF n, of ys] by (simp add: frames_no_payload)
  next
    case False
    then have long: "\<not> length buf < n"
      using "1.prems" n by (auto simp: frames.simps [of proto buf] split: if_splits)
    then obtain ps' where "frames proto (drop n buf) = (ps', r, True)"
      using "1.prems" n False by (auto simp: frames.simps [of proto buf] split: prod.splits)
    then show ?thesis
      using "1.IH" [OF n False long] packet_size_append [OF n, of ys] False long
      by (subst frames.simps) fastforce
  qed
qed

text \<open>What a splitter must look like after the reference has consumed the same plaintext.\<close>

definition in_state :: "MsgSplitter \<Rightarrow> bytes \<Rightarrow> bool \<Rightarrow> bool" where
  "in_state s r d \<longleftrightarrow> (if d then sp_disabled s \<and> sp_packet s = [] else assembling s r)"

definition splits_as ::
    "keystream \<Rightarrow> MsgSplitter \<Rightarrow> bytes \<Rightarrow> AesCtr256 \<Rightarrow> bytes list \<Rightarrow>
     (bytes list \<times> MsgSplitter \<times> AesCtr256) exec option \<Rightarrow> bytes list \<times> bytes \<times> bool \<Rightarrow> bool" where
  "splits_as ks s rest enc parts result = (\<lambda>(ps, r, d).
     (\<exists>outs s'. result = Some (Ret (parts @ outs, s', snd (apply_keystream ks enc rest))) \<and>
        sp_proto s' = sp_proto s \<and> map length outs = map length ps \<and>
        concat outs @ sp_packet s' = sp_packet s @ fst (apply_keystream ks enc rest) \<and>
        in_state s' r d))"

lemma split_loop_frames:
  assumes "assembling s pb" and "32 \<le> W"
  shows "splits_as ks s rest enc parts (split_loop ks W s rest enc parts)
           (frames (sp_proto s) (pb @ rest))"
  using assms(1)
proof (induction "length rest" arbitrary: s pb rest enc parts rule: less_induct)
  case less
  show ?case
  proof (cases "rest = []")
    case True
    with less.prems show ?thesis
      by (simp add: split_loop.simps splits_as_def frames_assembling in_state_def)
  next
    case False
    obtain it where it: "split_step ks W s rest enc parts = Ret it"
      and "pass_result ks s pb rest enc parts it"
      using split_step_result [OF less.prems assms(2) False] by blast
    from this(2) show ?thesis
    proof cases
      case (consumed k s')
      have "splits_as ks s' (drop k rest) (snd (apply_keystream ks enc (take k rest))) parts
          (split_loop ks W s' (drop k rest) (snd (apply_keystream ks enc (take k rest))) parts)
          (frames (sp_proto s') ((pb @ take k rest) @ drop k rest))"
        using consumed by (intro less.hyps) auto
      then show ?thesis
        using consumed it False ctr.ap_append [of ks enc "take k rest" "drop k rest"]
        by (auto simp: splits_as_def split_loop.simps [of ks W s])
    next
      case (completed k s')
      let ?part = "sp_packet s @ fst (apply_keystream ks enc (take k rest))"
      have "splits_as ks s' (drop k rest) (snd (apply_keystream ks enc (take k rest))) (parts @ [?part])
          (split_loop ks W s' (drop k rest) (snd (apply_keystream ks enc (take k rest))) (parts @ [?part]))
          (frames (sp_proto s') ([] @ drop k rest))"
        using completed by (intro less.hyps) auto
      moreover have "frames (sp_proto s) (pb @ rest) =
          (let (ps, r, d) = frames (sp_proto s) (drop k rest) in ((pb @ take k rest) # ps, r, d))"
        using completed False frames_packet [of "sp_proto s" "pb @ take k rest" "drop k rest"] by auto
      ultimately show ?thesis
        using completed it False less.prems ctr.ap_append [of ks enc "take k rest" "drop k rest"]
          assembling_packet_Nil [OF completed(4)]
        by (force simp: splits_as_def split_loop.simps [of ks W s] assembling_def)
    next
      case (gave_up s')
      then show ?thesis
        using it False less.prems
        by (auto simp: splits_as_def split_loop.simps [of ks W s] frames_no_payload in_state_def
            assembling_def intro!: exI [of _ "[_]"])
    qed
  qed
qed

lemma split_and_encrypt_frames:
  assumes "assembling s pb" and "32 \<le> W"
  shows "splits_as ks s rest enc [] (split_and_encrypt ks W s rest enc)
           (frames (sp_proto s) (pb @ rest))"
proof (cases "rest = []")
  case True
  then show ?thesis
    using assms by (simp add: split_and_encrypt_def splits_as_def frames_assembling in_state_def)
next
  case False
  then show ?thesis
    using assms split_loop_frames [OF assms, of ks rest enc "[]"]
    by (simp add: split_and_encrypt_def assembling_def)
qed

lemma split_and_encrypt_disabled:
  assumes "sp_disabled s" and "sp_packet s = []"
  shows "\<exists>outs. split_and_encrypt ks W s rest enc = Some (Ret (outs, s, snd (apply_keystream ks enc rest))) \<and>
           concat outs = fst (apply_keystream ks enc rest)"
  using assms by (auto simp: split_and_encrypt_def split: prod.split)

section \<open>A sequence of reads\<close>

text \<open>
  The uploads of a connection: each read of the client's plaintext goes through the
  splitter, and the messages are sent in order.
\<close>

fun split_reads ::
    "keystream \<Rightarrow> nat \<Rightarrow> MsgSplitter \<Rightarrow> bytes list \<Rightarrow> AesCtr256 \<Rightarrow>
     (bytes list \<times> MsgSplitter \<times> AesCtr256) exec option" where
  "split_reads ks W s [] enc = Some (Ret ([], s, enc))"
| "split_reads ks W s (c # cs) enc =
     (case split_and_encrypt ks W s c enc of
        Some (Ret (outs, s, enc)) \<Rightarrow>
          (case split_reads ks W s cs enc of
             Some (Ret (outs', s, enc)) \<Rightarrow> Some (Ret (outs @ outs', s, enc))
           | other \<Rightarrow> other)
      | other \<Rightarrow> other)"

text \<open>What the peer reads from the messages, decrypting them one after the other.\<close>

fun each_message :: "('c \<Rightarrow> bytes \<Rightarrow> bytes \<times> 'c) \<Rightarrow> 'c \<Rightarrow> bytes list \<Rightarrow> bytes list" where
  "each_message ap c [] = []"
| "each_message ap c (m # ms) = fst (ap c m) # each_message ap (snd (ap c m)) ms"

context xor_cipher
begin

lemma each_message_cut:
  assumes "concat outs = fst (ap c (concat ps))" and "map length outs = map length ps"
  shows "each_message ap c outs = ps"
  using assms
proof (induction outs arbitrary: c ps)
  case Nil
  then show ?case by simp
next
  case (Cons out outs)
  then obtain p ps' where ps: "ps = p # ps'" by (cases ps) auto
  have cut: "out = fst (ap c p)" "concat outs = fst (ap (snd (ap c p)) (concat ps'))"
    using Cons.prems ps by (simp_all add: ap_append ap_length)
  then show ?case
    using Cons.IH [of "snd (ap c p)" ps'] Cons.prems ps by (simp add: ap_decrypts)
qed

end

lemma split_reads_frames:
  assumes "assembling s pb" and "32 \<le> W"
    and "frames (sp_proto s) (pb @ concat reads) = (ps, r, False)"
  shows "splits_as ks s (concat reads) enc [] (split_reads ks W s reads enc) (ps, r, False)"
  using assms
proof (induction reads arbitrary: s pb enc ps)
  case Nil
  then show ?case by (simp add: splits_as_def frames_assembling in_state_def)
next
  case (Cons c cs)
  obtain ps1 r1 where fr: "frames (sp_proto s) (pb @ c) = (ps1, r1, False)"
    using Cons.prems(3) frames_append_disabled [of "sp_proto s" "pb @ c" _ _ "concat cs"]
    by (cases "frames (sp_proto s) (pb @ c)") fastforce
  then obtain ps2 where ps2: "frames (sp_proto s) (r1 @ concat cs) = (ps2, r, False)" "ps = ps1 @ ps2"
    using Cons.prems(3) frames_append [OF fr, of "concat cs"] by (auto split: prod.splits)
  obtain outs s' where call: "split_and_encrypt ks W s c enc =
      Some (Ret (outs, s', snd (apply_keystream ks enc c)))"
    and s': "sp_proto s' = sp_proto s" "map length outs = map length ps1" "assembling s' r1"
      "concat outs @ sp_packet s' = sp_packet s @ fst (apply_keystream ks enc c)"
    using split_and_encrypt_frames [OF Cons.prems(1,2), of ks c enc] fr
    by (auto simp: splits_as_def in_state_def)
  have "splits_as ks s' (concat cs) (snd (apply_keystream ks enc c)) []
      (split_reads ks W s' cs (snd (apply_keystream ks enc c))) (ps2, r, False)"
    using Cons.IH [OF s'(3) Cons.prems(2)] ps2 s'(1) by simp
  then show ?case
    using s' ps2 call ctr.ap_append [of ks enc c "concat cs"]
    by (auto simp: splits_as_def)
qed

lemma split_reads_stream:
  assumes "in_state s pb d" and "32 \<le> W"
  shows "\<exists>outs s'. split_reads ks W s reads enc =
             Some (Ret (outs, s', snd (apply_keystream ks enc (concat reads)))) \<and>
           concat outs @ sp_packet s' = sp_packet s @ fst (apply_keystream ks enc (concat reads))"
  using assms
proof (induction reads arbitrary: s pb d enc)
  case Nil
  then show ?case by simp
next
  case (Cons c cs)
  obtain outs s' pb' d' where call: "split_and_encrypt ks W s c enc =
      Some (Ret (outs, s', snd (apply_keystream ks enc c)))"
    and s': "in_state s' pb' d'"
      "concat outs @ sp_packet s' = sp_packet s @ fst (apply_keystream ks enc c)"
  proof (cases d)
    case True
    with Cons.prems show ?thesis
      using split_and_encrypt_disabled [of s ks W c enc] that [of _ s "[]" True]
      by (auto simp: in_state_def)
  next
    case False
    with Cons.prems show ?thesis
      using split_and_encrypt_frames [of s pb W ks c enc] that
      by (auto simp: in_state_def splits_as_def split: prod.splits)
  qed
  then show ?case
    using Cons.IH [OF s'(1) Cons.prems(2), of "snd (apply_keystream ks enc c)"]
      ctr.ap_append [of ks enc c "concat cs"]
    by auto
qed

lemma concat_flush: "concat (fst (flush_splitter s)) = sp_packet s"
  by (simp add: flush_splitter_def)

section \<open>Properties\<close>

text \<open>
  C4: One packet per message. However the client's plaintext is cut into reads,
  the splitter returns on every read (no panic, no endless loop) and the messages, followed
  by what \<open>flush\<close> yields at the end of the stream, decrypt one by one to exactly the
  packets of the whole plaintext, in order, and last the incomplete packet if there is one.
  The hypothesis is that no packet header of the stream announces an empty payload.
\<close>

theorem splitter_one_packet_per_message:
  assumes "32 \<le> W" and "frames proto (concat reads) = (packets, incomplete, False)"
  shows "\<exists>outs s enc'. split_reads ks W (new_splitter proto) reads enc = Some (Ret (outs, s, enc')) \<and>
           each_message (apply_keystream ks) enc (outs @ fst (flush_splitter s)) =
             packets @ (if incomplete = [] then [] else [incomplete])"
proof -
  have proto: "sp_proto (new_splitter proto) = proto" "sp_packet (new_splitter proto) = []"
    by (simp_all add: new_splitter_def)
  obtain outs s where run: "split_reads ks W (new_splitter proto) reads enc =
      Some (Ret (outs, s, snd (apply_keystream ks enc (concat reads))))"
    and s: "map length outs = map length packets" "assembling s incomplete"
      "concat outs @ sp_packet s = fst (apply_keystream ks enc (concat reads))"
    using split_reads_frames [OF assembling_new assms(1), of proto reads packets incomplete ks enc]
      assms(2) by (auto simp: splits_as_def in_state_def proto)
  let ?ps = "packets @ (if incomplete = [] then [] else [incomplete])"
  have "concat reads = concat ?ps"
    using frames_concat [OF assms(2)] by auto
  moreover have "map length (outs @ fst (flush_splitter s)) = map length ?ps"
    using s assembling_packet_Nil [OF s(2)] by (auto simp: flush_splitter_def assembling_def)
  ultimately have "each_message (apply_keystream ks) enc (outs @ fst (flush_splitter s)) = ?ps"
    using s(3) by (intro ctr.each_message_cut) (simp_all add: concat_flush)
  with run show ?thesis by blast
qed

theorem splitter_one_packet_per_message_witness:
  "\<exists>outs s enc'. split_reads sample_ks 32 (new_splitter Abridged)
       [[2, 1, 1], [1, 1, 1, 1, 1, 1, 1], [9]] sample_cipher = Some (Ret (outs, s, enc')) \<and>
     each_message (apply_keystream sample_ks) sample_cipher (outs @ fst (flush_splitter s)) =
       [[2, 1, 1, 1, 1, 1, 1, 1, 1], [1, 9]]"
proof -
  have "frames Abridged (concat [[2, 1, 1], [1, 1, 1, 1, 1, 1, 1], [9]]) =
      ([[2, 1, 1, 1, 1, 1, 1, 1, 1]], [1, 9], False)"
    by code_simp
  from splitter_one_packet_per_message [OF _ this, of 32 sample_ks sample_cipher] show ?thesis
    by simp
qed

text \<open>
  Nothing is lost, added or reordered. For any plaintext, malformed headers
  included, every call returns and the bytes sent, with those still buffered, are the
  encryption of the plaintext as one stream.
\<close>

lemma splitter_preserves_stream:
  assumes "32 \<le> W"
  shows "\<exists>outs s enc'. split_reads ks W (new_splitter proto) reads enc = Some (Ret (outs, s, enc')) \<and>
           concat (outs @ fst (flush_splitter s)) = fst (apply_keystream ks enc (concat reads)) \<and>
           enc' = snd (apply_keystream ks enc (concat reads))"
proof -
  have "in_state (new_splitter proto) [] False" by (simp add: in_state_def)
  from split_reads_stream [OF this assms, of ks reads enc] show ?thesis
    by (auto simp: concat_flush) (simp add: new_splitter_def)
qed

theorem splitter_preserves_stream_witness:
  "\<exists>outs s enc'. split_reads sample_ks 64 (new_splitter Intermediate)
       [[0, 0], [0, 0x80, 7], [8]] sample_cipher =
       Some (Ret (outs, s, enc')) \<and>
     concat (outs @ fst (flush_splitter s)) =
       fst (apply_keystream sample_ks sample_cipher (concat [[0, 0], [0, 0x80, 7], [8]])) \<and>
     enc' = snd (apply_keystream sample_ks sample_cipher (concat [[0, 0], [0, 0x80, 7], [8]]))"
  by (rule splitter_preserves_stream) simp

end
