(* ===== verification/FakeTls.thy ===== *)
theory FakeTls
  imports Prelude
begin

text \<open>
  The fake TLS layer, after \<^verbatim>\<open>src/faketls.rs\<close>: construction, signature and
  parsing of the ClientHello, the synthetic ServerHello and its draining, and the
  application-data records of the data phase.

  HMAC-SHA256 is the parameter \<open>hmac\<close> (key, then message); the only fact used of it is
  the length of its output. Time is a parameter of the signature. The parser reads bytes of
  an unauthenticated peer, so it is written with the bounds checks of the source and shown
  never to panic.
\<close>

section \<open>Constants\<close>

definition TLS_RECORD_HANDSHAKE :: byte where "TLS_RECORD_HANDSHAKE = 0x16"
definition TLS_RECORD_CHANGE_CIPHER_SPEC :: byte where "TLS_RECORD_CHANGE_CIPHER_SPEC = 0x14"
definition TLS_RECORD_APPLICATION_DATA :: byte where "TLS_RECORD_APPLICATION_DATA = 0x17"
definition TLS_RECORD_ALERT :: byte where "TLS_RECORD_ALERT = 0x15"
definition TLS_VERSION_12 :: bytes where "TLS_VERSION_12 = [0x03, 0x03]"
definition TLS_RECORD_VERSION :: bytes where "TLS_RECORD_VERSION = [0x03, 0x01]"
definition TLS_MAX_RECORD_PAYLOAD :: nat where "TLS_MAX_RECORD_PAYLOAD = 16384"
definition TLS_MAX_APPDATA_WRITE :: nat where "TLS_MAX_APPDATA_WRITE = TLS_MAX_RECORD_PAYLOAD"
definition TLS_MAX_HANDSHAKE_RECORDS :: nat where "TLS_MAX_HANDSHAKE_RECORDS = 20"
definition TLS_DIGEST_POS :: nat where "TLS_DIGEST_POS = 11"
definition TLS_DIGEST_LEN :: nat where "TLS_DIGEST_LEN = 32"
definition TLS_HANDSHAKE_CLIENT_HELLO :: byte where "TLS_HANDSHAKE_CLIENT_HELLO = 0x01"
definition TLS_HANDSHAKE_SERVER_HELLO :: byte where "TLS_HANDSHAKE_SERVER_HELLO = 0x02"
definition TLS_CLIENT_RANDOM_OFFSET_IN_HANDSHAKE :: nat where
  "TLS_CLIENT_RANDOM_OFFSET_IN_HANDSHAKE = 6"
definition TLS_SERVER_RANDOM_OFFSET_IN_PACKET :: nat where
  "TLS_SERVER_RANDOM_OFFSET_IN_PACKET = 11"
definition TLS_CHANGE_CIPHER_SPEC_VALUE :: byte where "TLS_CHANGE_CIPHER_SPEC_VALUE = 0x01"

lemmas tls_consts =
  TLS_RECORD_HANDSHAKE_def TLS_RECORD_CHANGE_CIPHER_SPEC_def TLS_RECORD_APPLICATION_DATA_def
  TLS_RECORD_ALERT_def TLS_VERSION_12_def TLS_RECORD_VERSION_def TLS_MAX_RECORD_PAYLOAD_def
  TLS_MAX_APPDATA_WRITE_def TLS_DIGEST_POS_def TLS_DIGEST_LEN_def TLS_HANDSHAKE_CLIENT_HELLO_def
  TLS_HANDSHAKE_SERVER_HELLO_def TLS_CLIENT_RANDOM_OFFSET_IN_HANDSHAKE_def
  TLS_SERVER_RANDOM_OFFSET_IN_PACKET_def TLS_CHANGE_CIPHER_SPEC_VALUE_def

type_synonym mac = "bytes \<Rightarrow> bytes \<Rightarrow> bytes"

definition mac_len :: "mac \<Rightarrow> bool" where
  "mac_len hmac \<longleftrightarrow> (\<forall>k m. length (hmac k m) = 32)"

record FakeTlsClientHello =
  ch_random :: bytes
  ch_session_id :: bytes
  ch_cipher_suite :: bytes
  ch_hostname :: "bytes option"

section \<open>ClientHello construction\<close>

definition FIXED_EXTENSIONS :: bytes where
  "FIXED_EXTENSIONS =
     [0x00, 0x17, 0x00, 0x00,
      0xff, 0x01, 0x00, 0x01, 0x00,
      0x00, 0x0a, 0x00, 0x0a, 0x00, 0x08,
      0x00, 0x1d, 0x00, 0x17, 0x00, 0x18, 0x00, 0x19,
      0x00, 0x0b, 0x00, 0x02, 0x01, 0x00,
      0x00, 0x23, 0x00, 0x00,
      0x00, 0x0d, 0x00, 0x14, 0x00, 0x12,
      0x04, 0x03, 0x08, 0x04, 0x04, 0x01,
      0x05, 0x03, 0x08, 0x05, 0x05, 0x01,
      0x08, 0x06, 0x06, 0x01, 0x02, 0x01]"

definition CIPHER_SUITES :: bytes where
  "CIPHER_SUITES =
     [0x13, 0x01, 0x13, 0x02, 0x13, 0x03,
      0xc0, 0x2b, 0xc0, 0x2f, 0xc0, 0x2c, 0xc0, 0x30,
      0xcc, 0xa9, 0xcc, 0xa8,
      0xc0, 0x13, 0xc0, 0x14,
      0x00, 0x9c, 0x00, 0x9d, 0x00, 0x2f, 0x00, 0x35, 0x00, 0x0a]"

text \<open>The three bytes of a handshake length and a \<open>usize\<close> cast to \<open>u16\<close>.\<close>

definition u24_bytes :: "nat \<Rightarrow> bytes" where
  "u24_bytes n = [word_of_nat (drop_bit 16 n), word_of_nat (drop_bit 8 n), word_of_nat n]"

definition len16 :: "nat \<Rightarrow> bytes" where
  "len16 n = to_be_bytes16 (word_of_nat n)"

definition build_faketls_client_hello :: "rng \<Rightarrow> bytes \<Rightarrow> bytes \<times> rng" where
  "build_faketls_client_hello g host_b =
     (let host_len = (word_of_nat (length host_b) :: u16);
          sni_list_len = 3 + host_len;
          sni_data_len = 2 + sni_list_len;
          extensions_len = 4 + unat sni_data_len + length FIXED_EXTENSIONS;
          hello_len = 2 + 32 + 1 + 32 + 2 + length CIPHER_SUITES + 2 + 2 + extensions_len;
          handshake_len = 4 + hello_len;
          (session_id, g) = fill_bytes g 32
      in ([TLS_RECORD_HANDSHAKE] @ TLS_RECORD_VERSION @ len16 handshake_len @
          [TLS_HANDSHAKE_CLIENT_HELLO] @ u24_bytes hello_len @
          TLS_VERSION_12 @ replicate 32 0 @
          [word_of_nat (length session_id)] @ session_id @
          len16 (length CIPHER_SUITES) @ CIPHER_SUITES @
          [0x01, 0x00] @ len16 extensions_len @
          to_be_bytes16 0x0000 @ to_be_bytes16 sni_data_len @ to_be_bytes16 sni_list_len @
          [0x00] @ to_be_bytes16 host_len @ host_b @ FIXED_EXTENSIONS, g))"

definition sign_faketls_client_hello :: "mac \<Rightarrow> u32 \<Rightarrow> bytes \<Rightarrow> bytes \<Rightarrow> bytes exec" where
  "sign_faketls_client_hello hmac timestamp rec secret =
     (if length rec < TLS_DIGEST_POS + TLS_DIGEST_LEN then Panic
      else let rec = put rec TLS_DIGEST_POS (replicate TLS_DIGEST_LEN 0);
               computed = hmac secret rec;
               rec = put rec TLS_DIGEST_POS (take 28 computed);
               ts_bytes = to_le_bytes32 timestamp
           in Ret (put rec (TLS_DIGEST_POS + 28)
                (map (\<lambda>i. computed ! (28 + i) XOR ts_bytes ! i) [0..<4])))"

section \<open>ClientHello parsing\<close>

fun chunks2 :: "bytes \<Rightarrow> bytes list" where
  "chunks2 (a # b # rest) = [a, b] # chunks2 rest"
| "chunks2 _ = []"

definition select_tls13_cipher_suite :: "bytes \<Rightarrow> bytes" where
  "select_tls13_cipher_suite cipher_suites =
     (case find (\<lambda>suite. suite ! 0 = 0x13 \<and> 0x01 \<le> suite ! 1 \<and> suite ! 1 \<le> 0x03)
             (chunks2 cipher_suites) of
        None \<Rightarrow> [0x13, 0x01]
      | Some suite \<Rightarrow> [suite ! 0, suite ! 1])"

definition len16_at :: "bytes \<Rightarrow> nat \<Rightarrow> nat exec" where
  "len16_at xs i =
     exec_bind (index_at xs i) (\<lambda>a. exec_bind (index_at xs (i + 1)) (\<lambda>b.
       Ret (unat (from_be_bytes16 a b))))"

definition sni_host :: "bytes \<Rightarrow> bytes option exec" where
  "sni_host ext =
     exec_bind (len16_at ext 0) (\<lambda>list_len.
       if length ext < 2 + list_len \<or> list_len < 3 then Ret None
       else exec_bind (index_at ext 2) (\<lambda>kind.
         if kind \<noteq> 0 then Ret None
         else exec_bind (len16_at ext 3) (\<lambda>host_len.
           if length ext < 5 + host_len then Ret None
           else exec_bind (slice_at ext 5 (5 + host_len)) (\<lambda>host. Ret (from_utf8 host)))))"

function parse_sni_extension :: "bytes \<Rightarrow> bytes option exec" where
  "parse_sni_extension extensions =
     (if length extensions < 4 then Ret None
      else exec_bind (len16_at extensions 0) (\<lambda>ext_type.
        exec_bind (len16_at extensions 2) (\<lambda>ext_len.
          let extensions = drop 4 extensions
          in if length extensions < ext_len then Ret None
             else let ext = take ext_len extensions;
                      extensions = drop ext_len extensions
                  in if ext_type \<noteq> 0 \<or> length ext < 5 then parse_sni_extension extensions
                     else sni_host ext)))"
  by auto
termination
  by (relation "measure length") auto

declare parse_sni_extension.simps [simp del]

text \<open>The record and handshake headers.\<close>

definition client_hello_framed :: "bytes \<Rightarrow> bool exec" where
  "client_hello_framed rec =
     (if length rec < 5 + 4 + TLS_CLIENT_RANDOM_OFFSET_IN_HANDSHAKE + TLS_DIGEST_LEN
      then Ret False
      else exec_bind (index_at rec 0) (\<lambda>kind.
        if kind \<noteq> TLS_RECORD_HANDSHAKE then Ret False
        else exec_bind (len16_at rec 3) (\<lambda>record_len.
          if length rec \<noteq> 5 + record_len then Ret False
          else exec_bind (slice_at rec 5 (length rec)) (\<lambda>handshake.
            if length handshake < 4 then Ret False
            else exec_bind (index_at handshake 0) (\<lambda>msg.
              if msg \<noteq> TLS_HANDSHAKE_CLIENT_HELLO then Ret False
              else exec_bind (index_at handshake 1) (\<lambda>a.
                exec_bind (index_at handshake 2) (\<lambda>b.
                  exec_bind (index_at handshake 3) (\<lambda>c.
                    let handshake_len = push_bit 16 (unat a) OR push_bit 8 (unat b) OR unat c
                    in Ret (length handshake = 4 + handshake_len)))))))))"

text \<open>The authentication of the \<open>random\<close> field; it yields the field when it matches.\<close>

definition client_hello_random :: "mac \<Rightarrow> bytes \<Rightarrow> bytes \<Rightarrow> bytes option exec" where
  "client_hello_random hmac rec secret =
     (let random_offset = 5 + TLS_CLIENT_RANDOM_OFFSET_IN_HANDSHAKE
      in exec_bind (slice_at rec random_offset (random_offset + TLS_DIGEST_LEN)) (\<lambda>client_random.
        let signed = put rec random_offset (replicate TLS_DIGEST_LEN 0);
            computed = hmac secret signed;
            xored = map (\<lambda>i. computed ! i XOR client_random ! i) [0..<TLS_DIGEST_LEN]
        in Ret (if list_ex (\<lambda>b. b \<noteq> 0) (take 28 xored) then None else Some client_random)))"

text \<open>The session id, the suites, the compression methods and the extensions.\<close>

definition client_hello_body :: "bytes \<Rightarrow> bytes \<Rightarrow> FakeTlsClientHello option exec" where
  "client_hello_body body client_random =
     (if length body < 2 + 32 + 1 then Ret None
      else exec_bind (index_at body 34) (\<lambda>n.
        let session_start = 35; session_end = session_start + unat n
        in if length body < session_end + 2 then Ret None
        else exec_bind (slice_at body session_start session_end) (\<lambda>session_id.
          exec_bind (len16_at body session_end) (\<lambda>cipher_suites_len.
            if cipher_suites_len < 2 \<or> length body < session_end + 2 + cipher_suites_len + 1
            then Ret None
            else exec_bind (slice_at body (session_end + 2) (session_end + 2 + cipher_suites_len)) (\<lambda>suites.
              let cipher_suite = select_tls13_cipher_suite suites;
                  p = session_end + 2 + cipher_suites_len
              in if length body \<le> p then Ret None
              else let p = p + 1 + unat (body ! p)
              in if length body < p + 2 then Ret None
              else exec_bind (len16_at body p) (\<lambda>extensions_len.
                let p = p + 2
                in if length body < p + extensions_len then Ret None
                else exec_bind (slice_at body p (p + extensions_len)) (\<lambda>exts.
                  exec_bind (parse_sni_extension exts) (\<lambda>hostname.
                    Ret (Some \<lparr>ch_random = client_random, ch_session_id = session_id,
                               ch_cipher_suite = cipher_suite, ch_hostname = hostname\<rparr>)))))))))"

definition parse_faketls_client_hello :: "mac \<Rightarrow> bytes \<Rightarrow> bytes \<Rightarrow> FakeTlsClientHello option exec" where
  "parse_faketls_client_hello hmac rec secret =
     exec_bind (client_hello_framed rec) (\<lambda>framed.
       if \<not> framed then Ret None
       else exec_bind (client_hello_random hmac rec secret) (\<lambda>random.
         case random of
           None \<Rightarrow> Ret None
         | Some client_random \<Rightarrow>
             exec_bind (slice_at rec (5 + 4) (length rec)) (\<lambda>body.
               client_hello_body body client_random)))"

section \<open>ServerHello\<close>

definition push_tls_record_header :: "bytes \<Rightarrow> byte \<Rightarrow> nat \<Rightarrow> bytes" where
  "push_tls_record_header out record_type payload_len =
     out @ [record_type] @ TLS_VERSION_12 @ len16 payload_len"

definition server_hello_tail :: bytes where
  "server_hello_tail =
     [0x00, 0x00, 0x2e, 0x00, 0x2b, 0x00, 0x02, 0x03, 0x04, 0x00, 0x33, 0x00, 0x24, 0x00, 0x1d,
      0x00, 0x20]"

text \<open>The packet before the digest is written into its \<open>random\<close> field.\<close>

definition unsigned_server_hello :: "FakeTlsClientHello \<Rightarrow> bytes \<Rightarrow> bytes \<Rightarrow> bytes" where
  "unsigned_server_hello hello key_share cert =
     (let server_body_len = 86 + length (ch_session_id hello);
          handshake_len = 4 + server_body_len;
          packet = push_tls_record_header [] TLS_RECORD_HANDSHAKE handshake_len;
          packet = packet @ [TLS_HANDSHAKE_SERVER_HELLO] @ u24_bytes server_body_len @
            TLS_VERSION_12 @ replicate TLS_DIGEST_LEN 0 @
            [word_of_nat (length (ch_session_id hello))] @ ch_session_id hello @
            ch_cipher_suite hello @ server_hello_tail @ key_share;
          packet = push_tls_record_header packet TLS_RECORD_CHANGE_CIPHER_SPEC 1 @
            [TLS_CHANGE_CIPHER_SPEC_VALUE];
          packet = push_tls_record_header packet TLS_RECORD_APPLICATION_DATA (length cert)
      in packet @ cert)"

definition build_faketls_server_hello ::
    "mac \<Rightarrow> rng \<Rightarrow> bytes \<Rightarrow> FakeTlsClientHello \<Rightarrow> bytes \<times> rng" where
  "build_faketls_server_hello hmac g secret hello =
     (let (key_share, g) = fill_bytes g 32;
          (r, g) = next_u32 g;
          cert_len = 1024 + unat r mod 3092;
          (cert, g) = fill_bytes g cert_len;
          packet = unsigned_server_hello hello key_share cert;
          digest = hmac secret (ch_random hello @ packet)
      in (put packet TLS_SERVER_RANDOM_OFFSET_IN_PACKET digest, g))"

section \<open>Records\<close>

datatype io_error = UnexpectedEof | WriteFailed

definition read_tls_record ::
    "bytes \<Rightarrow> nat \<Rightarrow> io_error + (byte \<times> bytes \<times> bytes) option \<times> bytes" where
  "read_tls_record reader max_payload_len =
     (case read_exact 5 reader of
        None \<Rightarrow> Inr (None, [])
      | Some (header, reader) \<Rightarrow>
          let payload_len = unat (from_be_bytes16 (header ! 3) (header ! 4))
          in if max_payload_len < payload_len then Inr (None, reader)
             else case read_exact payload_len reader of
                    None \<Rightarrow> Inl UnexpectedEof
                  | Some (payload, reader) \<Rightarrow>
                      Inr (Some (header ! 0, [header ! 1, header ! 2], payload), reader))"

definition read_tls_record_bytes :: "bytes \<Rightarrow> nat \<Rightarrow> io_error + bytes option \<times> bytes" where
  "read_tls_record_bytes reader max_payload_len =
     (case read_exact 5 reader of
        None \<Rightarrow> Inr (None, [])
      | Some (header, reader) \<Rightarrow>
          let payload_len = unat (from_be_bytes16 (header ! 3) (header ! 4))
          in if max_payload_len < payload_len then Inr (None, reader)
             else case read_exact payload_len reader of
                    None \<Rightarrow> Inl UnexpectedEof
                  | Some (payload, reader) \<Rightarrow> Inr (Some (header @ payload), reader))"

fun drain_records :: "nat \<Rightarrow> bytes \<Rightarrow> bool \<times> bytes" where
  "drain_records 0 reader = (False, reader)"
| "drain_records (Suc n) reader =
     (case read_exact 5 reader of
        None \<Rightarrow> (False, [])
      | Some (header, reader) \<Rightarrow>
          let record_type = header ! 0;
              version = [header ! 1, header ! 2];
              payload_len = unat (from_be_bytes16 (header ! 3) (header ! 4))
          in if version \<noteq> TLS_VERSION_12 then (False, reader)
             else if TLS_MAX_RECORD_PAYLOAD + 256 < payload_len then (False, reader)
             else case read_exact payload_len reader of
                    None \<Rightarrow> (False, [])
                  | Some (payload, reader) \<Rightarrow>
                      (if record_type = TLS_RECORD_HANDSHAKE \<or> record_type = TLS_RECORD_CHANGE_CIPHER_SPEC
                       then drain_records n reader
                       else if record_type = TLS_RECORD_APPLICATION_DATA then (True, reader)
                       else (False, reader)))"

definition drain_faketls_server_hello :: "bytes \<Rightarrow> bool \<times> bytes" where
  "drain_faketls_server_hello reader = drain_records TLS_MAX_HANDSHAKE_RECORDS reader"

definition appdata_header :: "nat \<Rightarrow> bytes" where
  "appdata_header len =
     [TLS_RECORD_APPLICATION_DATA, TLS_VERSION_12 ! 0, TLS_VERSION_12 ! 1,
      word_of_nat (drop_bit 8 len), word_of_nat len]"

function write_tls_appdata :: "'w writer \<Rightarrow> 'w \<Rightarrow> bytes \<Rightarrow> io_error + 'w" where
  "write_tls_appdata write_all w data =
     (if data = [] then Inr w
      else let chunk = take TLS_MAX_APPDATA_WRITE data
           in case write_all (appdata_header (length chunk)) w of
                None \<Rightarrow> Inl WriteFailed
              | Some w \<Rightarrow>
                  (case write_all chunk w of
                     None \<Rightarrow> Inl WriteFailed
                   | Some w \<Rightarrow> write_tls_appdata write_all w (drop TLS_MAX_APPDATA_WRITE data)))"
  by auto
termination
  by (relation "measure (\<lambda>(_, _, data). length data)") (auto simp: tls_consts)

declare write_tls_appdata.simps [simp del]

text \<open>
  \<open>read_tls_appdata\<close> yields the bytes it put into a buffer of \<open>buf_len\<close> bytes, none of
  them standing for \<open>Ok(0)\<close>, and what is left of the stream.
\<close>

function read_tls_appdata :: "nat \<Rightarrow> bytes \<Rightarrow> bytes \<times> bytes" where
  "read_tls_appdata buf_len reader =
     (case read_exact 5 reader of
        None \<Rightarrow> ([], [])
      | Some (header, reader) \<Rightarrow>
          let record_type = header ! 0;
              payload_len = unat (from_be_bytes16 (header ! 3) (header ! 4))
          in if buf_len < payload_len then ([], reader)
             else if record_type = TLS_RECORD_APPLICATION_DATA
             then (case read_exact payload_len reader of
                     None \<Rightarrow> ([], [])
                   | Some (payload, reader) \<Rightarrow> (payload, reader))
             else if record_type = TLS_RECORD_CHANGE_CIPHER_SPEC
             then (case read_exact payload_len reader of
                     None \<Rightarrow> ([], [])
                   | Some (payload, reader) \<Rightarrow> read_tls_appdata buf_len reader)
             else ([], reader))"
  by auto
termination
  by (relation "measure (\<lambda>(_, reader). length reader)")
    (auto simp: read_exact_def split: if_splits)

declare read_tls_appdata.simps [simp del]

section \<open>Parsing does not panic\<close>

lemma len16_at_Ret [exec_simps]:
  "i + 1 < length xs \<Longrightarrow> len16_at xs i = Ret (unat (from_be_bytes16 (xs ! i) (xs ! (i + 1))))"
  by (simp add: len16_at_def exec_simps)

lemma sni_host_no_panic: "5 \<le> length ext \<Longrightarrow> sni_host ext \<noteq> Panic"
  by (simp add: sni_host_def exec_simps)

lemma parse_sni_extension_no_panic: "parse_sni_extension exts \<noteq> Panic"
proof (induction exts rule: parse_sni_extension.induct)
  case (1 exts)
  show ?case
  proof (cases "length exts < 4")
    case True
    then show ?thesis by (simp add: parse_sni_extension.simps)
  next
    case False
    then have len: "len16_at exts 0 = Ret (unat (from_be_bytes16 (exts ! 0) (exts ! 1)))"
      "len16_at exts 2 = Ret (unat (from_be_bytes16 (exts ! 2) (exts ! 3)))"
      by (simp_all add: exec_simps eval_nat_numeral)
    show ?thesis
      using "1.IH" False sni_host_no_panic
      by (subst parse_sni_extension.simps) (simp add: len Let_def)
  qed
qed

lemma client_hello_framed_no_panic: "client_hello_framed rec \<noteq> Panic"
  by (auto simp: client_hello_framed_def exec_simps tls_consts Let_def)

lemma client_hello_framed_length:
  "client_hello_framed rec = Ret True \<Longrightarrow> 47 \<le> length rec"
  by (auto simp: client_hello_framed_def tls_consts split: if_splits)

lemma client_hello_random_no_panic:
  "43 \<le> length rec \<Longrightarrow> client_hello_random hmac rec secret \<noteq> Panic"
  by (simp add: client_hello_random_def exec_simps tls_consts Let_def)

lemma client_hello_body_no_panic: "client_hello_body body r \<noteq> Panic"
  by (simp add: client_hello_body_def exec_simps Let_def parse_sni_extension_no_panic)

section \<open>Layout of a ClientHello\<close>

lemma put_middle:
  "length mid = length ys \<Longrightarrow> length pre = i \<Longrightarrow> put (pre @ mid @ post) i ys = pre @ ys @ post"
  by (simp add: put_def)

lemma index_at_middle [exec_simps]: "length pre = i \<Longrightarrow> index_at (pre @ x # post) i = Ret x"
  by (simp add: index_at_def nth_append)

lemma slice_at_middle:
  "length pre = i \<Longrightarrow> j = i + length mid \<Longrightarrow> slice_at (pre @ mid @ post) i j = Ret mid"
  by (simp add: slice_at_def slice_of_def)

lemma length_len16 [simp]: "length (len16 n) = 2"
  by (simp add: len16_def)

lemma len16_decode:
  "n < 65536 \<Longrightarrow> unat (from_be_bytes16 (len16 n ! 0) (len16 n ! Suc 0)) = n"
  by (simp add: len16_def from_to_be_bytes16 unat_of_nat take_bit_nat_eq_self)

lemma len16_at_middle:
  assumes "length pre = i" and "n < 65536"
  shows "len16_at (pre @ len16 n @ post) i = Ret n"
  using assms len16_decode [of n]
  by (simp add: len16_at_Ret nth_append)

lemma u24_decode:
  assumes "n < 2 ^ 24"
  shows "push_bit 16 (unat (u24_bytes n ! 0)) OR push_bit 8 (unat (u24_bytes n ! 1)) OR
           unat (u24_bytes n ! 2) = n"
proof (rule bit_eqI)
  fix k
  have "bit n k \<Longrightarrow> k < 24"
    using assms by (metis bit_take_bit_iff take_bit_nat_eq_self)
  then show "bit (push_bit 16 (unat (u24_bytes n ! 0)) OR push_bit 8 (unat (u24_bytes n ! 1)) OR
      unat (u24_bytes n ! 2)) k \<longleftrightarrow> bit n k"
    by (cases "k < 16") (auto simp: u24_bytes_def numeral_2_eq_2 unsigned_of_nat bit_simps)
qed

text \<open>The digest that \<open>sign_faketls_client_hello\<close> leaves in the \<open>random\<close> field.\<close>

definition signed_random :: "bytes \<Rightarrow> u32 \<Rightarrow> bytes" where
  "signed_random computed timestamp =
     take 28 computed @ map (\<lambda>i. computed ! (28 + i) XOR to_le_bytes32 timestamp ! i) [0..<4]"

lemma length_signed_random [simp]: "length d = 32 \<Longrightarrow> length (signed_random d ts) = 32"
  by (simp add: signed_random_def)

lemma sign_layout:
  assumes "mac_len hmac" and "length pre = 11" and "length mid = 32"
  shows "sign_faketls_client_hello hmac ts (pre @ mid @ post) secret =
           Ret (pre @ signed_random (hmac secret (pre @ replicate 32 0 @ post)) ts @ post)"
proof -
  let ?d = "hmac secret (pre @ replicate 32 0 @ post)"
  let ?last = "map (\<lambda>i. ?d ! (28 + i) XOR to_le_bytes32 ts ! i) [0..<4]"
  have d: "length ?d = 32" using assms(1) by (simp add: mac_len_def)
  have zero: "put (pre @ mid @ post) 11 (replicate 32 0) = pre @ replicate 32 0 @ post"
    using assms by (intro put_middle) auto
  have first: "put (pre @ replicate 32 0 @ post) 11 (take 28 ?d) = pre @ take 28 ?d @ replicate 4 0 @ post"
    using assms d put_middle [of "replicate 28 0" "take 28 ?d" pre 11 "replicate 4 0 @ post"]
    by (simp add: replicate_add [symmetric] flip: append_assoc)
  have last: "put (pre @ take 28 ?d @ replicate 4 0 @ post) 39 ?last = pre @ take 28 ?d @ ?last @ post"
    using assms d put_middle [of "replicate 4 0" ?last "pre @ take 28 ?d" 39 post] by simp
  show ?thesis
    using assms
    by (simp add: sign_faketls_client_hello_def tls_consts zero Let_def first last signed_random_def
        del: upt_Suc)
qed

lemma client_hello_random_layout:
  assumes "mac_len hmac" and "length pre = 11" and "length r = 32"
  shows "client_hello_random hmac (pre @ r @ post) secret =
           Ret (if take 28 (hmac secret (pre @ replicate 32 0 @ post)) = take 28 r then Some r else None)"
proof -
  let ?d = "hmac secret (pre @ replicate 32 0 @ post)"
  have d: "length ?d = 32" using assms(1) by (simp add: mac_len_def)
  have "put (pre @ r @ post) 11 (replicate 32 0) = pre @ replicate 32 0 @ post"
    using assms by (intro put_middle) auto
  moreover have "slice_at (pre @ r @ post) 11 43 = Ret r"
    using assms by (intro slice_at_middle) auto
  moreover have "list_ex (\<lambda>b. b \<noteq> 0) (take 28 (map (\<lambda>i. ?d ! i XOR r ! i) [0..<32])) \<longleftrightarrow>
      take 28 ?d \<noteq> take 28 r"
    using d assms(3) by (auto simp: list_ex_iff list_eq_iff_nth_eq take_map byte_simps)
  ultimately show ?thesis
    by (simp add: client_hello_random_def tls_consts Let_def del: upt_Suc)
qed

lemma client_hello_body_layout:
  assumes "length version = 2" and "length random = 32" and "length sid < 256"
    and "2 \<le> length suites" and "length suites < 65536" and "length exts < 65536"
    and sni: "parse_sni_extension exts = Ret host"
  shows "client_hello_body
           (version @ random @ [word_of_nat (length sid)] @ sid @ len16 (length suites) @ suites @
            [0x01, 0x00] @ len16 (length exts) @ exts) r =
         Ret (Some \<lparr>ch_random = r, ch_session_id = sid,
                    ch_cipher_suite = select_tls13_cipher_suite suites, ch_hostname = host\<rparr>)"
proof -
  let ?se = "35 + length sid"
  let ?p = "?se + 2 + length suites"
  define body where "body = version @ random @ [word_of_nat (length sid)] @ sid @
      len16 (length suites) @ suites @ [0x01, 0x00] @ len16 (length exts) @ exts"
  have len: "length body = ?p + 4 + length exts"
    using assms by (simp add: body_def)
  have "index_at body 34 = Ret (word_of_nat (length sid))"
    using assms unfolding body_def by (simp add: index_at_def nth_append)
  moreover have "unat (word_of_nat (length sid) :: byte) = length sid"
    using assms by (simp add: unat_of_nat)
  moreover have "slice_at body 35 ?se = Ret sid"
    using assms slice_at_middle [of "version @ random @ [word_of_nat (length sid)]" 35 ?se sid]
    unfolding body_def by simp
  moreover have "len16_at body ?se = Ret (length suites)"
    using assms len16_at_middle [of "version @ random @ [word_of_nat (length sid)] @ sid" ?se
        "length suites"]
    unfolding body_def by simp
  moreover have "slice_at body (?se + 2) ?p = Ret suites"
    using assms slice_at_middle [of "version @ random @ [word_of_nat (length sid)] @ sid @
        len16 (length suites)" "?se + 2" ?p suites]
    unfolding body_def by simp
  moreover have "body ! ?p = 1"
    using assms unfolding body_def by (simp add: nth_append)
  moreover have "len16_at body (?p + 2) = Ret (length exts)"
    using assms len16_at_middle [of "version @ random @ [word_of_nat (length sid)] @ sid @
        len16 (length suites) @ suites @ [0x01, 0x00]" "?p + 2" "length exts"]
    unfolding body_def by simp
  moreover have "slice_at body (?p + 4) (?p + 4 + length exts) = Ret exts"
    using assms slice_at_middle [of "version @ random @ [word_of_nat (length sid)] @ sid @
        len16 (length suites) @ suites @ [0x01, 0x00] @ len16 (length exts)" "?p + 4"
        "?p + 4 + length exts" exts "[]"]
    unfolding body_def by simp
  ultimately show ?thesis
    using assms(4) sni len unfolding body_def [symmetric]
    by (simp add: client_hello_body_def Let_def)
qed

text \<open>The SNI extension of a host name, as it is laid out by the builder.\<close>

definition sni_extension :: "bytes \<Rightarrow> bytes" where
  "sni_extension host = len16 0 @ len16 (5 + length host) @ len16 (3 + length host) @ [0] @
     len16 (length host) @ host"

lemma sni_host_layout:
  assumes "length host < 65531"
  shows "sni_host (len16 (3 + length host) @ [0] @ len16 (length host) @ host) = Ret (from_utf8 host)"
proof -
  let ?ext = "len16 (3 + length host) @ [0] @ len16 (length host) @ host"
  have "len16_at ?ext 0 = Ret (3 + length host)"
    using assms len16_at_middle [of "[]" 0 "3 + length host"] by simp
  moreover have "index_at ?ext 2 = Ret 0"
    using index_at_middle [of "len16 (3 + length host)" 2 0] by simp
  moreover have "len16_at ?ext 3 = Ret (length host)"
    using assms len16_at_middle [of "len16 (3 + length host) @ [0]" 3 "length host"] by simp
  moreover have "slice_at ?ext 5 (5 + length host) = Ret host"
    using slice_at_middle [of "len16 (3 + length host) @ [0] @ len16 (length host)" 5 "5 + length host"
        host "[]"] by simp
  ultimately show ?thesis by (simp add: sni_host_def)
qed

lemma parse_sni_layout:
  assumes "length host < 65531"
  shows "parse_sni_extension (sni_extension host @ rest) = Ret (from_utf8 host)"
proof -
  let ?x = "sni_extension host @ rest"
  define ext where "ext = len16 (3 + length host) @ [0] @ len16 (length host) @ host"
  have "len16_at ?x 0 = Ret 0" "len16_at ?x 2 = Ret (5 + length host)"
    using assms len16_at_middle [of "[]" 0 0] len16_at_middle [of "len16 0" 2 "5 + length host"]
    by (simp_all add: sni_extension_def)
  moreover have "drop 4 ?x = ext @ rest" "length ext = 5 + length host" "\<not> length ?x < 4"
    by (simp_all add: sni_extension_def ext_def)
  moreover have "sni_host ext = Ret (from_utf8 host)"
    unfolding ext_def by (rule sni_host_layout [OF assms])
  ultimately show ?thesis
    by (subst parse_sni_extension.simps) (simp del: drop_append)
qed

text \<open>The record of \<open>build_faketls_client_hello\<close>: up to the \<open>random\<close> field, and after it.\<close>

definition hello_before :: "nat \<Rightarrow> bytes" where
  "hello_before hello_len =
     [TLS_RECORD_HANDSHAKE] @ TLS_RECORD_VERSION @ len16 (4 + hello_len) @
     [TLS_HANDSHAKE_CLIENT_HELLO] @ u24_bytes hello_len @ TLS_VERSION_12"

definition hello_after :: "bytes \<Rightarrow> bytes \<Rightarrow> bytes" where
  "hello_after sid exts =
     [word_of_nat (length sid)] @ sid @ len16 (length CIPHER_SUITES) @ CIPHER_SUITES @
     [0x01, 0x00] @ len16 (length exts) @ exts"

lemma length_suites_exts [simp]: "length CIPHER_SUITES = 32" "length FIXED_EXTENSIONS = 57"
  by (simp_all add: CIPHER_SUITES_def FIXED_EXTENSIONS_def)

lemma length_hello_parts [simp]:
  "length (hello_before n) = 11" "length (hello_after sid exts) = 39 + length sid + length exts"
  "length (sni_extension host) = 9 + length host"
  by (simp_all add: hello_before_def hello_after_def sni_extension_def tls_consts u24_bytes_def)

lemma build_layout:
  assumes "length host \<le> 65360"
  shows "fst (build_faketls_client_hello g host) =
           hello_before (171 + length host) @ replicate 32 0 @
           hello_after (fst (fill_bytes g 32)) (sni_extension host @ FIXED_EXTENSIONS)"
proof -
  have w: "(3 + word_of_nat (length host) :: u16) = word_of_nat (3 + length host)"
    "(2 + word_of_nat (3 + length host) :: u16) = word_of_nat (5 + length host)"
    by simp_all
  moreover have "unat (word_of_nat (5 + length host) :: u16) = 5 + length host"
    using assms unfolding unat_of_nat by simp
  ultimately show ?thesis
    unfolding build_faketls_client_hello_def Let_def w hello_before_def hello_after_def
      sni_extension_def len16_def
    by (simp add: split_def)
qed

lemma client_hello_framed_layout:
  assumes "length rest = hello_len - 2" and "41 \<le> hello_len" and "hello_len < 65532"
  shows "client_hello_framed (hello_before hello_len @ rest) = Ret True"
proof -
  let ?r = "hello_before hello_len @ rest"
  have len: "length ?r = 5 + (4 + hello_len)" using assms by simp
  have "index_at ?r 0 = Ret 0x16"
    by (simp add: hello_before_def index_at_def tls_consts)
  moreover have "len16_at ?r 3 = Ret (4 + hello_len)"
    using assms len16_at_middle [of "[0x16, 3, 1]" 3 "4 + hello_len"]
    by (simp add: hello_before_def tls_consts)
  moreover obtain a b c where abc: "u24_bytes hello_len = [a, b, c]"
    and val: "push_bit 16 (unat a) OR push_bit 8 (unat b) OR unat c = hello_len"
    using u24_decode [of hello_len] assms by (simp add: u24_bytes_def)
  moreover have "slice_at ?r 5 (length ?r) = Ret (0x01 # a # b # c # TLS_VERSION_12 @ rest)"
    unfolding slice_at_def slice_of_def
    by (simp add: hello_before_def tls_consts len16_def to_be_bytes16_def abc)
  ultimately show ?thesis
    using assms len
    by (simp add: client_hello_framed_def tls_consts index_at_def Let_def)
qed

lemma select_suites [simp]: "select_tls13_cipher_suite CIPHER_SUITES = [0x13, 0x01]"
  by (simp add: select_tls13_cipher_suite_def CIPHER_SUITES_def)

lemma parse_layout:
  assumes "mac_len hmac" and "length r = 32" and "length sid < 256" and "length exts < 65520"
    and "parse_sni_extension exts = Ret host" and "n = 73 + length sid + length exts"
    and "n < 65532"
    and "take 28 r = take 28 (hmac secret (hello_before n @ replicate 32 0 @ hello_after sid exts))"
  shows "parse_faketls_client_hello hmac (hello_before n @ r @ hello_after sid exts) secret =
           Ret (Some \<lparr>ch_random = r, ch_session_id = sid, ch_cipher_suite = [0x13, 0x01],
                      ch_hostname = host\<rparr>)"
proof -
  let ?rec = "hello_before n @ r @ hello_after sid exts"
  have "client_hello_framed ?rec = Ret True"
    using assms by (intro client_hello_framed_layout) auto
  moreover have "client_hello_random hmac ?rec secret = Ret (Some r)"
    using client_hello_random_layout [OF assms(1) length_hello_parts(1) assms(2)] assms(8) by simp
  moreover have "slice_at ?rec 9 (length ?rec) = Ret (TLS_VERSION_12 @ r @ hello_after sid exts)"
    by (simp add: slice_at_def slice_of_def hello_before_def u24_bytes_def tls_consts len16_def
        to_be_bytes16_def)
  moreover have "client_hello_body (TLS_VERSION_12 @ r @ hello_after sid exts) r =
      Ret (Some \<lparr>ch_random = r, ch_session_id = sid, ch_cipher_suite = [0x13, 0x01], ch_hostname = host\<rparr>)"
    using client_hello_body_layout [of TLS_VERSION_12 r sid CIPHER_SUITES exts host r] assms
    by (simp add: hello_after_def tls_consts)
  ultimately show ?thesis by (simp add: parse_faketls_client_hello_def)
qed

lemma parse_sound:
  assumes "mac_len hmac" and "parse_faketls_client_hello hmac rec secret = Ret (Some hello)"
  shows "ch_random hello = slice_of rec 11 43"
    and "take 28 (ch_random hello) = take 28 (hmac secret (put rec 11 (replicate 32 0)))"
proof -
  have framed: "client_hello_framed rec = Ret True"
    and "client_hello_random hmac rec secret = Ret (Some (ch_random hello))"
    using assms(2)
    by (auto simp: parse_faketls_client_hello_def exec_simps client_hello_body_def Let_def
        split: if_splits option.splits)
  define pre r post where "pre = take 11 rec" and "r = slice_of rec 11 43"
    and "post = drop 43 rec"
  have len: "47 \<le> length rec" by (rule client_hello_framed_length [OF framed])
  have "drop 11 rec = r @ post"
    using append_take_drop_id [of 32 "drop 11 rec"] by (simp add: r_def post_def slice_of_def)
  then have cut: "rec = pre @ r @ post" "length pre = 11" "length r = 32"
    using len append_take_drop_id [of 11 rec] by (simp_all add: pre_def r_def)
  then have "put rec 11 (replicate 32 0) = pre @ replicate 32 0 @ post"
    by (simp add: put_middle)
  moreover have "client_hello_random hmac rec secret =
      Ret (if take 28 (hmac secret (pre @ replicate 32 0 @ post)) = take 28 r then Some r else None)"
    using client_hello_random_layout [OF assms(1) cut(2,3)] cut(1) by simp
  ultimately show "ch_random hello = slice_of rec 11 43"
    "take 28 (ch_random hello) = take 28 (hmac secret (put rec 11 (replicate 32 0)))"
    using \<open>client_hello_random hmac rec secret = Ret (Some (ch_random hello))\<close>
    by (auto simp: r_def split: if_splits)
qed

section \<open>The server's records\<close>

lemma tls_record_head:
  fixes n :: nat
  assumes "n < 65536"
  shows "read_exact 5 (ty # TLS_VERSION_12 @ len16 n @ xs) = Some (ty # TLS_VERSION_12 @ len16 n, xs)"
    and "(ty # TLS_VERSION_12 @ len16 n) ! Suc 0 = 3" and "(ty # TLS_VERSION_12 @ len16 n) ! 2 = 3"
    and "unat (from_be_bytes16 ((ty # TLS_VERSION_12 @ len16 n) ! 3) ((ty # TLS_VERSION_12 @ len16 n) ! 4)) = n"
  using len16_decode [OF assms]
  by (simp_all add: read_exact_def tls_consts)

lemma drain_record:
  assumes "length payload = n" and "n \<le> 16640"
  shows "drain_records (Suc k) (ty # TLS_VERSION_12 @ len16 n @ payload @ rest) =
           (if ty = TLS_RECORD_HANDSHAKE \<or> ty = TLS_RECORD_CHANGE_CIPHER_SPEC then drain_records k rest
            else (ty = TLS_RECORD_APPLICATION_DATA, rest))"
  using assms tls_record_head [of n ty]
  by (simp add: Let_def read_exact_append TLS_MAX_RECORD_PAYLOAD_def)
    (simp add: TLS_VERSION_12_def)

text \<open>The ServerHello up to its \<open>random\<close> field, and its three records after it.\<close>

definition server_before :: "bytes \<Rightarrow> bytes" where
  "server_before sid =
     [TLS_RECORD_HANDSHAKE] @ TLS_VERSION_12 @ len16 (90 + length sid) @
     [TLS_HANDSHAKE_SERVER_HELLO] @ u24_bytes (86 + length sid) @ TLS_VERSION_12"

definition server_after :: "FakeTlsClientHello \<Rightarrow> bytes \<Rightarrow> bytes \<Rightarrow> bytes" where
  "server_after hello key_share cert =
     ([word_of_nat (length (ch_session_id hello))] @ ch_session_id hello @ ch_cipher_suite hello @
        server_hello_tail @ key_share) @
     TLS_RECORD_CHANGE_CIPHER_SPEC # TLS_VERSION_12 @ len16 1 @ [TLS_CHANGE_CIPHER_SPEC_VALUE] @
     TLS_RECORD_APPLICATION_DATA # TLS_VERSION_12 @ len16 (length cert) @ cert"

lemma unsigned_server_hello_layout:
  "unsigned_server_hello hello key_share cert =
     server_before (ch_session_id hello) @ replicate 32 0 @ server_after hello key_share cert"
  by (simp add: unsigned_server_hello_def server_before_def server_after_def
      push_tls_record_header_def Let_def TLS_DIGEST_LEN_def)

lemma length_server_before: "length (server_before sid) = 11"
  by (simp add: server_before_def u24_bytes_def tls_consts)

lemma drain_server_hello:
  assumes "length digest = 32" and "length (ch_session_id hello) < 256"
    and "length (ch_cipher_suite hello) = 2" and "length key_share = 32" and "length cert \<le> 16640"
  shows "drain_faketls_server_hello
           (server_before (ch_session_id hello) @ digest @ server_after hello key_share cert @ rest) =
         (True, rest)"
proof -
  let ?sid = "ch_session_id hello"
  let ?payload = "[TLS_HANDSHAKE_SERVER_HELLO] @ u24_bytes (86 + length ?sid) @ TLS_VERSION_12 @
    digest @ [word_of_nat (length ?sid)] @ ?sid @ ch_cipher_suite hello @ server_hello_tail @ key_share"
  let ?cert = "TLS_RECORD_APPLICATION_DATA # TLS_VERSION_12 @ len16 (length cert) @ cert @ rest"
  let ?ccs = "TLS_RECORD_CHANGE_CIPHER_SPEC # TLS_VERSION_12 @ len16 1 @
    [TLS_CHANGE_CIPHER_SPEC_VALUE] @ ?cert"
  have packet: "server_before ?sid @ digest @ server_after hello key_share cert @ rest =
      TLS_RECORD_HANDSHAKE # TLS_VERSION_12 @ len16 (90 + length ?sid) @ ?payload @ ?ccs"
    by (simp add: server_before_def server_after_def)
  have types: "TLS_RECORD_APPLICATION_DATA \<noteq> TLS_RECORD_HANDSHAKE"
    "TLS_RECORD_APPLICATION_DATA \<noteq> TLS_RECORD_CHANGE_CIPHER_SPEC"
    by (simp_all add: tls_consts)
  have "length ?payload = 90 + length ?sid"
    using assms by (simp add: u24_bytes_def tls_consts server_hello_tail_def)
  moreover have "drain_records 18 ?cert = (True, rest)"
    using drain_record [of cert "length cert" 17 TLS_RECORD_APPLICATION_DATA rest] assms(5) types
    by simp
  moreover have "drain_records 19 ?ccs = drain_records 18 ?cert"
    using drain_record [of "[TLS_CHANGE_CIPHER_SPEC_VALUE]" 1 18 TLS_RECORD_CHANGE_CIPHER_SPEC ?cert]
    by simp
  ultimately show ?thesis
    using drain_record [of ?payload "90 + length ?sid" 19 TLS_RECORD_HANDSHAKE ?ccs] assms(2)
    unfolding packet drain_faketls_server_hello_def TLS_MAX_HANDSHAKE_RECORDS_def
    by simp
qed

section \<open>Application data\<close>

text \<open>The bytes that \<open>write_tls_appdata\<close> puts on the wire for one message.\<close>

function appdata_stream :: "bytes \<Rightarrow> bytes" where
  "appdata_stream data =
     (if data = [] then []
      else let chunk = take TLS_MAX_APPDATA_WRITE data
           in (TLS_RECORD_APPLICATION_DATA # TLS_VERSION_12 @ len16 (length chunk)) @ chunk @
              appdata_stream (drop TLS_MAX_APPDATA_WRITE data))"
  by auto
termination
  by (relation "measure length") (auto simp: tls_consts)

declare appdata_stream.simps [simp del]

lemma appdata_stream_Nil [simp]: "appdata_stream [] = []"
  by (simp add: appdata_stream.simps)

lemma appdata_header_len16:
  assumes "n < 65536"
  shows "appdata_header n = TLS_RECORD_APPLICATION_DATA # TLS_VERSION_12 @ len16 n"
proof -
  have "(ucast (drop_bit 8 (word_of_nat n :: u16)) :: byte) = word_of_nat (drop_bit 8 n)"
    by (rule bit_word_eqI) (simp add: bit_simps)
  moreover have "(ucast (word_of_nat n :: u16) :: byte) = word_of_nat n"
    by (rule bit_word_eqI) (simp add: bit_simps)
  ultimately show ?thesis
    by (simp add: appdata_header_def len16_def to_be_bytes16_def TLS_VERSION_12_def)
qed

lemma write_appdata_stream:
  "write_tls_appdata vec_writer out data = Inr (out @ appdata_stream data)"
proof (induction data arbitrary: out rule: appdata_stream.induct)
  case (1 data)
  have "appdata_header (length (take TLS_MAX_APPDATA_WRITE data)) =
      TLS_RECORD_APPLICATION_DATA # TLS_VERSION_12 @ len16 (length (take TLS_MAX_APPDATA_WRITE data))"
    by (rule appdata_header_len16) (simp add: tls_consts)
  moreover have "write_tls_appdata vec_writer w (drop TLS_MAX_APPDATA_WRITE data) =
      Inr (w @ appdata_stream (drop TLS_MAX_APPDATA_WRITE data))" if "data \<noteq> []" for w
    using 1 that by blast
  ultimately show ?case
    by (subst write_tls_appdata.simps, subst appdata_stream.simps)
      (simp add: vec_writer_def [of _ "_ :: bytes"] Let_def)
qed

lemma read_appdata_stream:
  assumes "data \<noteq> []" and "TLS_MAX_APPDATA_WRITE \<le> buf_len"
  shows "read_tls_appdata buf_len (appdata_stream data @ rest) =
           (take TLS_MAX_APPDATA_WRITE data, appdata_stream (drop TLS_MAX_APPDATA_WRITE data) @ rest)"
proof -
  define chunk where "chunk = take TLS_MAX_APPDATA_WRITE data"
  let ?more = "appdata_stream (drop TLS_MAX_APPDATA_WRITE data) @ rest"
  have "appdata_stream data @ rest =
      TLS_RECORD_APPLICATION_DATA # TLS_VERSION_12 @ len16 (length chunk) @ chunk @ ?more"
    using assms(1) by (subst appdata_stream.simps) (simp add: chunk_def Let_def)
  moreover have "length chunk < 65536" "length chunk \<le> buf_len"
    using assms(2) by (simp_all add: chunk_def tls_consts)
  ultimately show ?thesis
    using tls_record_head [of "length chunk" TLS_RECORD_APPLICATION_DATA]
    by (subst read_tls_appdata.simps)
      (simp add: Let_def read_exact_append chunk_def [symmetric])
qed

lemma read_tls_appdata_shorter:
  "fst (read_tls_appdata buf_len reader) \<noteq> [] \<Longrightarrow>
   length (snd (read_tls_appdata buf_len reader)) < length reader"
proof (induction buf_len reader rule: read_tls_appdata.induct)
  case (1 buf_len reader)
  show ?case
  proof (cases "read_exact 5 reader")
    case None
    with 1(2) show ?thesis by (simp add: read_tls_appdata.simps)
  next
    case (Some hr)
    obtain h r where hr: "hr = (h, r)" by (cases hr)
    have short: "length r < length reader"
      using Some hr by (auto simp: read_exact_def split: if_splits)
    define n where "n = unat (from_be_bytes16 (h ! 3) (h ! 4))"
    have eq: "read_tls_appdata buf_len reader =
      (if buf_len < n then ([], r)
       else if h ! 0 = TLS_RECORD_APPLICATION_DATA
       then (case read_exact n r of None \<Rightarrow> ([], []) | Some (p, r') \<Rightarrow> (p, r'))
       else if h ! 0 = TLS_RECORD_CHANGE_CIPHER_SPEC
       then (case read_exact n r of None \<Rightarrow> ([], []) | Some (p, r') \<Rightarrow> read_tls_appdata buf_len r')
       else ([], r))"
      by (subst read_tls_appdata.simps) (simp add: Some hr Let_def n_def)
    show ?thesis
    proof (cases "h ! 0 = TLS_RECORD_CHANGE_CIPHER_SPEC \<and> n \<le> length r \<and> n \<le> buf_len")
      case True
      then have "read_tls_appdata buf_len reader = read_tls_appdata buf_len (drop n r)"
        unfolding eq by (simp add: read_exact_def tls_consts)
      moreover have "fst (read_tls_appdata buf_len (drop n r)) \<noteq> [] \<Longrightarrow>
          length (snd (read_tls_appdata buf_len (drop n r))) < length (drop n r)"
        using True by (intro 1(1) [OF Some [unfolded hr] refl refl n_def])
          (simp_all add: read_exact_def tls_consts)
      ultimately show ?thesis using 1(2) short by simp
    next
      case False
      then show ?thesis
        using 1(2) short unfolding eq by (auto simp: read_exact_def split: if_splits)
    qed
  qed
qed

text \<open>A peer that reads until \<open>Ok(0)\<close>.\<close>

function read_all_appdata :: "nat \<Rightarrow> bytes \<Rightarrow> bytes" where
  "read_all_appdata buf_len reader =
     (let (payload, reader') = read_tls_appdata buf_len reader
      in if payload = [] then [] else payload @ read_all_appdata buf_len reader')"
  by auto
termination
  by (relation "measure (\<lambda>(_, reader). length reader)")
    (auto, metis fst_conv read_tls_appdata_shorter snd_conv)

declare read_all_appdata.simps [simp del]

lemma read_all_appdata_stream:
  assumes "TLS_MAX_APPDATA_WRITE \<le> buf_len"
  shows "read_all_appdata buf_len (appdata_stream data @ rest) = data @ read_all_appdata buf_len rest"
proof (induction data rule: appdata_stream.induct)
  case (1 data)
  show ?case
  proof (cases "data = []")
    case False
    then have "take TLS_MAX_APPDATA_WRITE data \<noteq> []" by (simp add: tls_consts)
    then show ?thesis
      using 1 [OF False refl] read_appdata_stream [OF False assms, of rest]
      by (subst read_all_appdata.simps) (simp add: append_take_drop_id flip: append_assoc)
  qed simp
qed

lemma read_all_appdata_Nil [simp]: "read_all_appdata buf_len [] = []"
  by (simp add: read_all_appdata.simps read_tls_appdata.simps read_exact_def)

text \<open>Successive \<open>write_tls_appdata\<close> calls on one writer.\<close>

fun write_messages :: "bytes \<Rightarrow> bytes list \<Rightarrow> io_error + bytes" where
  "write_messages out [] = Inr out"
| "write_messages out (m # ms) =
     (case write_tls_appdata vec_writer out m of Inl e \<Rightarrow> Inl e | Inr out \<Rightarrow> write_messages out ms)"

lemma write_messages_stream:
  "write_messages out ms = Inr (out @ concat (map appdata_stream ms))"
  by (induction ms arbitrary: out) (simp_all add: write_appdata_stream)

lemma read_all_appdata_messages:
  "TLS_MAX_APPDATA_WRITE \<le> buf_len \<Longrightarrow>
   read_all_appdata buf_len (concat (map appdata_stream ms)) = concat ms"
  by (induction ms) (simp_all add: read_all_appdata_stream)

definition sample_mac :: mac where
  "sample_mac k m = map (\<lambda>i. word_of_nat (i + length k + length m)) [0..<32]"

lemma sample_mac_len: "mac_len sample_mac"
  by (simp add: mac_len_def sample_mac_def)

lemma client_hello_accepted:
  assumes "mac_len hmac" and "utf8_valid host" and "length host \<le> 65360"
  shows "\<exists>rec. sign_faketls_client_hello hmac ts (fst (build_faketls_client_hello g host)) secret =
             Ret rec \<and>
           parse_faketls_client_hello hmac rec secret =
             Ret (Some \<lparr>ch_random = slice_of rec 11 43, ch_session_id = fst (fill_bytes g 32),
                        ch_cipher_suite = [0x13, 0x01], ch_hostname = Some host\<rparr>)"
proof -
  let ?n = "171 + length host" and ?sid = "fst (fill_bytes g 32)"
  let ?after = "hello_after ?sid (sni_extension host @ FIXED_EXTENSIONS)"
  let ?r = "signed_random (hmac secret (hello_before ?n @ replicate 32 0 @ ?after)) ts"
  have d: "length (hmac secret (hello_before ?n @ replicate 32 0 @ ?after)) = 32"
    using assms(1) by (simp add: mac_len_def)
  have "sign_faketls_client_hello hmac ts (fst (build_faketls_client_hello g host)) secret =
      Ret (hello_before ?n @ ?r @ ?after)"
    using sign_layout [OF assms(1)] by (simp add: build_layout [OF assms(3)])
  moreover have "parse_faketls_client_hello hmac (hello_before ?n @ ?r @ ?after) secret =
      Ret (Some \<lparr>ch_random = ?r, ch_session_id = ?sid, ch_cipher_suite = [0x13, 0x01],
                 ch_hostname = Some host\<rparr>)"
    using assms d parse_sni_layout [of host FIXED_EXTENSIONS]
    by (intro parse_layout) (simp_all add: from_utf8_def signed_random_def)
  moreover have "slice_of (hello_before ?n @ ?r @ ?after) 11 43 = ?r"
    using d by (simp add: slice_of_def)
  ultimately show ?thesis by auto
qed

lemma server_hello_drained:
  assumes "mac_len hmac" and "length (ch_session_id hello) < 256"
    and "length (ch_cipher_suite hello) = 2"
    and "build_faketls_server_hello hmac g secret hello = (packet, g')"
  shows "slice_of packet 11 43 = hmac secret (ch_random hello @ put packet 11 (replicate 32 0)) \<and>
         drain_faketls_server_hello (packet @ rest) = (True, rest)"
proof -
  define key cert where "key = fst (fill_bytes g 32)"
    and "cert = fst (fill_bytes (snd (next_u32 (snd (fill_bytes g 32))))
                  (1024 + unat (fst (next_u32 (snd (fill_bytes g 32)))) mod 3092))"
  let ?before = "server_before (ch_session_id hello)" and ?after = "server_after hello key cert"
  let ?digest = "hmac secret (ch_random hello @ ?before @ replicate 32 0 @ ?after)"
  have len: "length key = 32" "length cert \<le> 16640" "length ?digest = 32"
    using assms(1) by (simp_all add: key_def cert_def mac_len_def)
  have "packet = put (?before @ replicate 32 0 @ ?after) 11 ?digest"
    using assms(4) unfolding build_faketls_server_hello_def key_def cert_def
    by (simp add: split_def Let_def unsigned_server_hello_layout TLS_SERVER_RANDOM_OFFSET_IN_PACKET_def)
  then have packet: "packet = ?before @ ?digest @ ?after"
    using len(3) by (simp add: put_middle length_server_before)
  then have "put packet 11 (replicate 32 0) = ?before @ replicate 32 0 @ ?after"
    using len(3) by (simp add: put_middle length_server_before)
  moreover have "slice_of packet 11 43 = ?digest"
    using packet len(3) by (simp add: slice_of_def length_server_before)
  ultimately show ?thesis
    using drain_server_hello [OF len(3) assms(2,3) len(1,2), of rest] packet by simp
qed

section \<open>Properties\<close>

text \<open>
  C20: A signed ClientHello is accepted by a proxy with the same key, which reads
  the host name, the session id and the TLS 1.3 suite the client put into it. The bound on
  the host name is the one that keeps the record length within 16 bits.
\<close>

theorem faketls_client_hello_roundtrip:
  assumes "mac_len hmac" and "utf8_valid host" and "length host \<le> 65360"
  shows "\<exists>rec. sign_faketls_client_hello hmac ts (fst (build_faketls_client_hello g host)) secret =
             Ret rec \<and>
           parse_faketls_client_hello hmac rec secret =
             Ret (Some \<lparr>ch_random = slice_of rec 11 43, ch_session_id = fst (fill_bytes g 32),
                        ch_cipher_suite = [0x13, 0x01], ch_hostname = Some host\<rparr>)"
  by (rule client_hello_accepted [OF assms])

theorem faketls_client_hello_roundtrip_witness:
  "mac_len sample_mac \<and> utf8_valid [0x61, 0xc3, 0xa9] \<and>
   (\<exists>rec. sign_faketls_client_hello sample_mac 7
        (fst (build_faketls_client_hello (\<lambda>_. 5) [0x61, 0xc3, 0xa9])) [1, 2] = Ret rec \<and>
      parse_faketls_client_hello sample_mac rec [1, 2] =
        Ret (Some \<lparr>ch_random = slice_of rec 11 43, ch_session_id = fst (fill_bytes (\<lambda>_. 5) 32),
                   ch_cipher_suite = [0x13, 0x01], ch_hostname = Some [0x61, 0xc3, 0xa9]\<rparr>))"
proof -
  have utf8: "utf8_valid [0x61, 0xc3, 0xa9]" by code_simp
  show ?thesis
    using faketls_client_hello_roundtrip [OF sample_mac_len utf8, of 7 "\<lambda>_. 5" "[1, 2]"]
      sample_mac_len utf8 by simp
qed

text \<open>
  C22: Whatever an unauthenticated peer sends as its first record, and whatever the
  key, parsing it returns: no index or slice of the parser is out of range.
\<close>

theorem faketls_parse_total:
  "\<exists>result. parse_faketls_client_hello hmac rec secret = Ret result"
proof -
  have "parse_faketls_client_hello hmac rec secret \<noteq> Panic"
    using client_hello_framed_length [of rec] client_hello_framed_no_panic [of rec]
      client_hello_random_no_panic [of rec hmac secret]
    by (auto simp: parse_faketls_client_hello_def exec_simps client_hello_body_no_panic
        split: option.splits)
  then show ?thesis by (cases "parse_faketls_client_hello hmac rec secret") auto
qed

text \<open>
  C18: A ClientHello is accepted only when the first 28 bytes of its \<open>random\<close>
  field are those of the MAC, under the proxy's key, of the rec with that field zeroed.
\<close>

theorem faketls_parse_authentic:
  assumes "mac_len hmac" and "parse_faketls_client_hello hmac rec secret = Ret (Some hello)"
  shows "ch_random hello = slice_of rec 11 43 \<and>
         take 28 (ch_random hello) = take 28 (hmac secret (put rec 11 (replicate 32 0)))"
  using parse_sound [OF assms] by blast

theorem faketls_parse_authentic_witness:
  "\<exists>rec hello. parse_faketls_client_hello sample_mac rec [1] = Ret (Some hello) \<and>
     ch_random hello = slice_of rec 11 43 \<and>
     take 28 (ch_random hello) = take 28 (sample_mac [1] (put rec 11 (replicate 32 0)))"
proof -
  have "parse_sni_extension [] = Ret None"
    by (simp add: parse_sni_extension.simps)
  moreover define r where "r = sample_mac [1] (hello_before 73 @ replicate 32 0 @ hello_after [] [])"
  ultimately have "parse_faketls_client_hello sample_mac
      (hello_before 73 @ r @ hello_after [] []) [1] =
    Ret (Some \<lparr>ch_random = r, ch_session_id = [], ch_cipher_suite = [0x13, 0x01], ch_hostname = None\<rparr>)"
    using sample_mac_len by (intro parse_layout) (simp_all add: mac_len_def)
  with faketls_parse_authentic [OF sample_mac_len this] show ?thesis by blast
qed

text \<open>
  C23: The ServerHello the proxy answers with carries, in its \<open>random\<close> field, the
  MAC of the client's random and the packet with that field zeroed, and the draining of a
  connecting client consumes exactly this packet and leaves the data phase that follows.
\<close>

theorem faketls_server_hello_drained:
  assumes "mac_len hmac" and "length (ch_session_id hello) < 256"
    and "length (ch_cipher_suite hello) = 2"
    and "build_faketls_server_hello hmac g secret hello = (packet, g')"
  shows "slice_of packet 11 43 = hmac secret (ch_random hello @ put packet 11 (replicate 32 0)) \<and>
         drain_faketls_server_hello (packet @ rest) = (True, rest)"
  by (rule server_hello_drained [OF assms])

theorem faketls_server_hello_drained_witness:
  "\<exists>packet g'. build_faketls_server_hello sample_mac (\<lambda>_. 9) [1]
       \<lparr>ch_random = replicate 32 1, ch_session_id = [7, 7], ch_cipher_suite = [0x13, 0x02],
        ch_hostname = None\<rparr> = (packet, g') \<and>
     slice_of packet 11 43 = sample_mac [1] (replicate 32 1 @ put packet 11 (replicate 32 0)) \<and>
     drain_faketls_server_hello (packet @ [1, 2, 3]) = (True, [1, 2, 3])"
proof -
  let ?hello = "\<lparr>ch_random = replicate 32 1, ch_session_id = [7, 7], ch_cipher_suite = [0x13, 0x02],
        ch_hostname = None\<rparr>"
  obtain packet g' where built: "build_faketls_server_hello sample_mac (\<lambda>_. 9) [1] ?hello = (packet, g')"
    by (cases "build_faketls_server_hello sample_mac (\<lambda>_. 9) [1] ?hello")
  from faketls_server_hello_drained [OF sample_mac_len _ _ this, of "[1, 2, 3]"] this
  show ?thesis by auto
qed

text \<open>
  C19: Messages written as application data are read back: a peer with a buffer of
  at least one full record that reads until \<open>Ok(0)\<close> gets the messages' bytes in order,
  whatever their sizes.
\<close>

theorem faketls_appdata_roundtrip:
  assumes "TLS_MAX_APPDATA_WRITE \<le> buf_len"
  shows "\<exists>wire. write_messages [] ms = Inr wire \<and> read_all_appdata buf_len wire = concat ms"
  by (simp add: write_messages_stream read_all_appdata_messages [OF assms])

theorem faketls_appdata_roundtrip_witness:
  "TLS_MAX_APPDATA_WRITE \<le> 65536 \<and>
   (\<exists>wire. write_messages [] [[1, 2], [], replicate 20000 3] = Inr wire \<and>
      read_all_appdata 65536 wire = concat [[1, 2], [], replicate 20000 3])"
  using faketls_appdata_roundtrip [of 65536 "[[1, 2], [], replicate 20000 3]"]
  by (simp add: tls_consts)

end
