(* ===== verification/Inbound.thy ===== *)
theory Inbound
  imports FakeTls Crypto
begin

text \<open>
  The client side of a connection, after the client framing and the inbound handshake of
  \<^verbatim>\<open>src/proxy.rs\<close>: reads of a plain or FakeTLS client, the acceptance of a FakeTLS client
  hello, and the sixty-four bytes that open every session.

  A TCP reader is the list of what successive reads find in the socket, in any fragmentation;
  an empty element stands for the end of the stream.
\<close>

definition TLS_READ_HEADROOM :: nat where "TLS_READ_HEADROOM = 256"
definition RELAY_BUF_SIZE :: nat where "RELAY_BUF_SIZE = 16 * 1024"
definition CLIENT_READ_BUF_SIZE :: nat where
  "CLIENT_READ_BUF_SIZE = TLS_MAX_RECORD_PAYLOAD + TLS_READ_HEADROOM"

lemmas buf_consts = TLS_READ_HEADROOM_def RELAY_BUF_SIZE_def CLIENT_READ_BUF_SIZE_def

section \<open>TCP readers\<close>

type_synonym tcp_reader = "bytes list"

fun tcp_read :: "nat \<Rightarrow> tcp_reader \<Rightarrow> bytes \<times> tcp_reader" where
  "tcp_read n [] = ([], [])"
| "tcp_read n (c # cs) = (if length c \<le> n then (c, cs) else (take n c, drop n c # cs))"

definition stream_of :: "tcp_reader \<Rightarrow> bytes" where
  "stream_of r = concat (takeWhile (\<lambda>c. c \<noteq> []) r)"

fun skip_bytes :: "nat \<Rightarrow> tcp_reader \<Rightarrow> tcp_reader" where
  "skip_bytes n [] = []"
| "skip_bytes n (c # cs) =
     (if n = 0 then c # cs
      else if length c \<le> n then skip_bytes (n - length c) cs else drop n c # cs)"

definition tcp_read_exact :: "nat \<Rightarrow> tcp_reader \<Rightarrow> (bytes \<times> tcp_reader) option" where
  "tcp_read_exact n r =
     (if n \<le> length (stream_of r) then Some (take n (stream_of r), skip_bytes n r) else None)"

lemma stream_of_simps [simp]:
  "stream_of [] = []" "stream_of (c # cs) = (if c = [] then [] else c @ stream_of cs)"
  by (simp_all add: stream_of_def)

lemma stream_of_skip: "n \<le> length (stream_of r) \<Longrightarrow> stream_of (skip_bytes n r) = drop n (stream_of r)"
  by (induction n r rule: skip_bytes.induct) auto

lemma tcp_read_stream:
  assumes "tcp_read n r = (bs, r')" and "0 < n"
  shows "stream_of r = bs @ (if bs = [] then [] else stream_of r')" and "length bs \<le> n"
  using assms by (cases r; auto split: if_splits)+

section \<open>Readers of the client\<close>

record PendingData =
  pd_data :: bytes
  pd_offset :: nat

definition pending_default :: PendingData where
  "pending_default = \<lparr>pd_data = [], pd_offset = 0\<rparr>"

definition from_record :: "bytes \<Rightarrow> nat \<Rightarrow> PendingData" where
  "from_record data offset = \<lparr>pd_data = data, pd_offset = offset\<rparr>"

definition pending_read :: "nat \<Rightarrow> PendingData \<Rightarrow> (bytes \<times> PendingData) option" where
  "pending_read buf_len p =
     (if length (pd_data p) < pd_offset p then None
      else
        let remaining = drop (pd_offset p) (pd_data p)
        in if remaining = [] then None
           else let n = min buf_len (length remaining);
                    offset = pd_offset p + n
                in Some (take n remaining,
                     if offset = length (pd_data p) then pending_default else p\<lparr>pd_offset := offset\<rparr>))"

datatype ClientReader =
    CrPlain tcp_reader
  | CrFakeTls bytes PendingData

fun client_read :: "nat \<Rightarrow> ClientReader \<Rightarrow> bytes \<times> ClientReader" where
  "client_read buf_len (CrPlain reader) =
     (let (bs, reader) = tcp_read buf_len reader in (bs, CrPlain reader))"
| "client_read buf_len (CrFakeTls reader pending) =
     (case pending_read buf_len pending of
        Some (bs, pending) \<Rightarrow> (bs, CrFakeTls reader pending)
      | None \<Rightarrow> let (bs, reader) = read_tls_appdata buf_len reader in (bs, CrFakeTls reader pending))"

datatype ClientWriter = CwPlain | CwFakeTls

definition client_write_all :: "ClientWriter \<Rightarrow> 'w writer \<Rightarrow> bytes \<Rightarrow> 'w \<Rightarrow> 'w option" where
  "client_write_all kind write_all data w =
     (case kind of
        CwPlain \<Rightarrow> write_all data w
      | CwFakeTls \<Rightarrow> (case write_tls_appdata write_all w data of Inl _ \<Rightarrow> None | Inr w \<Rightarrow> Some w))"

text \<open>All that a client sends, as the reads of a session deliver it.\<close>

fun client_stream :: "nat \<Rightarrow> ClientReader \<Rightarrow> bytes" where
  "client_stream buf_len (CrPlain reader) = stream_of reader"
| "client_stream buf_len (CrFakeTls reader pending) =
     drop (pd_offset pending) (pd_data pending) @ read_all_appdata buf_len reader"

fun client_left :: "ClientReader \<Rightarrow> nat" where
  "client_left (CrPlain reader) = length (concat reader)"
| "client_left (CrFakeTls reader pending) = length (drop (pd_offset pending) (pd_data pending)) + length reader"

lemma pending_read_stream:
  assumes "pending_read buf_len p = Some (bs, p')" and "0 < buf_len"
  shows "drop (pd_offset p) (pd_data p) = bs @ drop (pd_offset p') (pd_data p')"
    and "bs \<noteq> []" and "length bs \<le> buf_len"
  using assms
  by (auto simp: pending_read_def pending_default_def Let_def min_def split: if_splits)
    (metis append_take_drop_id drop_drop add.commute)+

lemma pending_read_None: "pending_read buf_len p = None \<Longrightarrow> drop (pd_offset p) (pd_data p) = []"
  by (auto simp: pending_read_def Let_def split: if_splits)

lemma client_read_stream:
  assumes "client_read buf_len r = (bs, r')" and "0 < buf_len"
  shows "client_stream buf_len r = bs @ (if bs = [] then [] else client_stream buf_len r')"
proof (cases r)
  case (CrPlain reader)
  then show ?thesis
    using assms tcp_read_stream(1) [of buf_len reader] by (auto split: prod.splits)
next
  case (CrFakeTls reader pending)
  show ?thesis
  proof (cases "pending_read buf_len pending")
    case None
    then show ?thesis
      using assms CrFakeTls pending_read_None [OF None]
      by (auto simp: read_all_appdata.simps [of buf_len reader] split: prod.splits)
  next
    case (Some result)
    then show ?thesis
      using assms CrFakeTls pending_read_stream(1,2) [of buf_len pending] by (cases result) auto
  qed
qed

lemma client_read_left:
  assumes "client_read buf_len r = (bs, r')" and "0 < buf_len" and "bs \<noteq> []"
  shows "client_left r' < client_left r"
proof (cases r)
  case (CrPlain reader)
  then show ?thesis
    using assms by (cases reader) (auto split: if_splits)
next
  case (CrFakeTls reader pending)
  show ?thesis
  proof (cases "pending_read buf_len pending")
    case None
    then show ?thesis
      using assms CrFakeTls read_tls_appdata_shorter [of buf_len reader] by (auto split: prod.splits)
  next
    case (Some result)
    obtain p where result: "result = (bs, p)" "r' = CrFakeTls reader p"
      using assms(1) CrFakeTls Some by (cases result) auto
    have "length (drop (pd_offset pending) (pd_data pending)) = length bs + length (drop (pd_offset p) (pd_data p))"
      using pending_read_stream(1) [OF Some [unfolded result(1)] assms(2)] by (metis length_append)
    then show ?thesis
      using CrFakeTls result(2) assms(3) by (cases bs) auto
  qed
qed

section \<open>Accepting a FakeTLS client\<close>

definition max_record :: nat where "max_record = TLS_MAX_RECORD_PAYLOAD + TLS_READ_HEADROOM"

lemma read_tls_record_bytes_shorter:
  "read_tls_record_bytes reader n = Inr (Some rec, reader') \<Longrightarrow> length reader' < length reader"
  by (auto simp: read_tls_record_bytes_def read_exact_def Let_def split: if_splits option.splits)

text \<open>The records that carry the sixty-four bytes; \<open>filled\<close> is the part read so far.\<close>

function collect_init :: "bytes \<Rightarrow> bytes \<Rightarrow> (bytes \<times> PendingData \<times> bytes) option" where
  "collect_init filled reader =
     (if 64 \<le> length filled then Some (filled, pending_default, reader)
      else case read_tls_record_bytes reader max_record of
             Inr (Some rec, reader) \<Rightarrow>
               (let payload_len = length rec - 5
                in if rec ! 0 = TLS_RECORD_CHANGE_CIPHER_SPEC then collect_init filled reader
                   else if rec ! 0 \<noteq> TLS_RECORD_APPLICATION_DATA \<or> payload_len = 0 then None
                   else let n = min payload_len (64 - length filled);
                            filled = filled @ slice_of rec 5 (5 + n)
                        in if n \<noteq> payload_len then Some (filled, from_record rec (5 + n), reader)
                           else collect_init filled reader)
           | _ \<Rightarrow> None)"
  by pat_completeness auto
termination
  by (relation "measure (\<lambda>(_, reader). length reader)") (auto dest: read_tls_record_bytes_shorter)

declare collect_init.simps [simp del]

fun find_hello :: "mac \<Rightarrow> bytes \<Rightarrow> bytes list \<Rightarrow> (FakeTlsClientHello \<times> bytes) option exec" where
  "find_hello hmac rec [] = Ret None"
| "find_hello hmac rec (secret # secrets) =
     exec_bind (parse_faketls_client_hello hmac rec secret) (\<lambda>hello.
       case hello of Some h \<Rightarrow> Ret (Some (h, secret)) | None \<Rightarrow> find_hello hmac rec secrets)"

definition accept_inbound_faketls ::
    "mac \<Rightarrow> rng \<Rightarrow> 'w writer \<Rightarrow> bytes list \<Rightarrow> bytes \<Rightarrow> bytes \<Rightarrow> 'w \<Rightarrow>
     ((bytes \<times> PendingData \<times> bytes) \<times> 'w) option exec" where
  "accept_inbound_faketls hmac g write_all secrets expected_domain reader w =
     (case read_tls_record_bytes reader max_record of
        Inr (Some rec, reader) \<Rightarrow>
          (if rec ! 0 \<noteq> TLS_RECORD_HANDSHAKE \<or> slice_of rec 1 3 \<noteq> [0x03, 0x01] then Ret None
           else exec_bind (find_hello hmac rec secrets) (\<lambda>found.
             case found of
               None \<Rightarrow> Ret None
             | Some (hello, matched_secret) \<Rightarrow>
                 (if ch_hostname hello \<noteq> Some expected_domain then Ret None
                  else
                    let (server_hello, g) = build_faketls_server_hello hmac g matched_secret hello
                    in case write_all server_hello w of
                         None \<Rightarrow> Ret None
                       | Some w \<Rightarrow> Ret (map_option (\<lambda>result. (result, w)) (collect_init [] reader)))))
      | _ \<Rightarrow> Ret None)"

text \<open>The reader starts as a plain TCP reader; FakeTLS reads it in whole records only.\<close>

definition read_inbound_handshake ::
    "mac \<Rightarrow> rng \<Rightarrow> 'w writer \<Rightarrow> bytes list \<Rightarrow> bytes option \<Rightarrow> tcp_reader \<Rightarrow> 'w \<Rightarrow>
     ((bytes \<times> ClientReader) \<times> 'w) option exec" where
  "read_inbound_handshake hmac g write_all secrets faketls_domain reader w =
     (case faketls_domain of
        Some domain \<Rightarrow>
          exec_bind (accept_inbound_faketls hmac g write_all secrets domain (stream_of reader) w)
            (\<lambda>r. Ret (map_option (\<lambda>((buf, pending, reader), w). ((buf, CrFakeTls reader pending), w)) r))
      | None \<Rightarrow>
          Ret (map_option (\<lambda>(buf, reader). ((buf, CrPlain reader), w)) (tcp_read_exact 64 reader)))"

definition split_mtproto_init_and_pending :: "bytes \<Rightarrow> (bytes \<times> bytes) option" where
  "split_mtproto_init_and_pending data =
     (if length data < 64 then None else Some (take 64 data, drop 64 data))"

fun parse_any ::
    "digest \<Rightarrow> keystream \<Rightarrow> bytes \<Rightarrow> bytes list \<Rightarrow> (HandshakeInfo \<times> bytes) option exec" where
  "parse_any sha ks handshake [] = Ret None"
| "parse_any sha ks handshake (secret # secrets) =
     exec_bind (parse_handshake sha ks handshake secret) (\<lambda>info.
       case info of Some i \<Rightarrow> Ret (Some (i, secret)) | None \<Rightarrow> parse_any sha ks handshake secrets)"

section \<open>No byte is lost at the border of the handshake\<close>

text \<open>Reading record by record, against reading application data.\<close>

lemma read_all_by_record:
  assumes "read_tls_record_bytes reader n = Inr (Some rec, reader')"
  shows "read_all_appdata n reader =
           (if rec ! 0 = TLS_RECORD_APPLICATION_DATA
            then (if drop 5 rec = [] then [] else drop 5 rec @ read_all_appdata n reader')
            else if rec ! 0 = TLS_RECORD_CHANGE_CIPHER_SPEC then read_all_appdata n reader'
            else [])"
proof -
  obtain header r payload where head: "read_exact 5 reader = Some (header, r)"
    and len: "unat (from_be_bytes16 (header ! 3) (header ! 4)) \<le> n"
    and body: "read_exact (unat (from_be_bytes16 (header ! 3) (header ! 4))) r = Some (payload, reader')"
    and rec: "rec = header @ payload"
    using assms by (auto simp: read_tls_record_bytes_def Let_def split: option.splits if_splits)
  have "length header = 5" using head by (auto simp: read_exact_def split: if_splits)
  then have parts: "rec ! 0 = header ! 0" "drop 5 rec = payload"
    using rec by (simp_all add: nth_append)
  have "read_tls_appdata n reader =
      (if header ! 0 = TLS_RECORD_APPLICATION_DATA then (payload, reader')
       else if header ! 0 = TLS_RECORD_CHANGE_CIPHER_SPEC then read_tls_appdata n reader'
       else ([], r))"
    using head len body by (subst read_tls_appdata.simps) (simp add: Let_def)
  then show ?thesis
    using parts by (simp add: read_all_appdata.simps [of n reader]) (simp add: read_all_appdata.simps [of n reader'])
qed

lemma read_all_no_record:
  assumes "\<nexists>rec reader'. read_tls_record_bytes reader n = Inr (Some rec, reader')"
  shows "read_all_appdata n reader = []"
proof -
  have "fst (read_tls_appdata n reader) = []"
    using assms
    by (subst read_tls_appdata.simps)
      (auto simp: read_tls_record_bytes_def Let_def split: option.splits if_splits)
  then show ?thesis
    by (cases "read_tls_appdata n reader") (simp add: read_all_appdata.simps [of n reader])
qed

lemma collect_init_stream:
  assumes "length filled \<le> 64" and "64 \<le> length filled + length (read_all_appdata max_record reader)"
  shows "\<exists>pending reader'.
    collect_init filled reader =
      Some (filled @ take (64 - length filled) (read_all_appdata max_record reader), pending, reader') \<and>
    client_stream max_record (CrFakeTls reader' pending) =
      drop (64 - length filled) (read_all_appdata max_record reader)"
  using assms
proof (induction filled reader rule: collect_init.induct)
  case (1 filled reader)
  let ?all = "read_all_appdata max_record"
  show ?case
  proof (cases "64 \<le> length filled")
    case True
    then show ?thesis
      using "1.prems" by (simp add: collect_init.simps [of filled reader] pending_default_def)
  next
    case False
    then have "?all reader \<noteq> []" using "1.prems"(2) by auto
    then obtain rec reader' where rec: "read_tls_record_bytes reader max_record = Inr (Some rec, reader')"
      using read_all_no_record by blast
    note all = read_all_by_record [OF rec]
    show ?thesis
    proof (cases "rec ! 0 = TLS_RECORD_CHANGE_CIPHER_SPEC")
      case True
      then have same: "?all reader = ?all reader'" using all by (simp add: tls_consts)
      then show ?thesis
        using "1.IH"(1) [OF False rec refl] rec True False "1.prems"
        by (simp add: collect_init.simps [of filled reader])
    next
      case no_ccs: False
      then have data: "rec ! 0 = TLS_RECORD_APPLICATION_DATA" "drop 5 rec \<noteq> []"
        and split: "?all reader = drop 5 rec @ ?all reader'"
        using all \<open>?all reader \<noteq> []\<close> by (auto split: if_splits)
      show ?thesis
      proof (cases "length rec - 5 \<le> 64 - length filled")
        case True
        then have whole: "collect_init filled reader = collect_init (filled @ drop 5 rec) reader'"
          using rec data no_ccs False by (simp add: collect_init.simps [of filled reader] slice_of_def Let_def)
        have "\<exists>pending reader''. collect_init (filled @ drop 5 rec) reader' =
            Some ((filled @ drop 5 rec) @ take (64 - length (filled @ drop 5 rec)) (?all reader'), pending, reader'') \<and>
            client_stream max_record (CrFakeTls reader'' pending) =
              drop (64 - length (filled @ drop 5 rec)) (?all reader')"
          using True data "1.prems" split
          by (intro "1.IH"(2) [OF False rec refl refl refl no_ccs _ refl]) (auto simp: slice_of_def)
        then show ?thesis
          using whole split True by (simp add: diff_diff_add)
      next
        case part: False
        then show ?thesis
          using rec data no_ccs False split
          by (simp add: collect_init.simps [of filled reader] slice_of_def Let_def from_record_def)
      qed
    qed
  qed
qed

lemma max_record_buf: "max_record = CLIENT_READ_BUF_SIZE"
  by (simp add: max_record_def CLIENT_READ_BUF_SIZE_def)

lemma parse_hello_no_panic: "parse_faketls_client_hello hmac rec secret \<noteq> Panic"
  using client_hello_framed_length [of rec] client_hello_framed_no_panic [of rec]
    client_hello_random_no_panic [of rec hmac secret]
  by (auto simp: parse_faketls_client_hello_def exec_simps client_hello_body_no_panic
      split: option.splits)

lemma client_hello_random_Some:
  "client_hello_random hmac rec secret = Ret (Some r) \<Longrightarrow> r = slice_of rec 11 43"
  by (auto simp: client_hello_random_def exec_simps Let_def tls_consts slice_at_def split: if_splits)

text \<open>What a hello says does not depend on the secret that signs it.\<close>

lemma parse_hello_agree:
  assumes "parse_faketls_client_hello hmac rec s = Ret (Some h)"
    and "parse_faketls_client_hello hmac rec s' = Ret (Some h')"
  shows "h = h'"
proof -
  have body: "exec_bind (slice_at rec (5 + 4) (length rec)) (\<lambda>body. client_hello_body body (slice_of rec 11 43)) = Ret (Some k)"
    if "parse_faketls_client_hello hmac rec t = Ret (Some k)" for t k
    using that unfolding parse_faketls_client_hello_def
    by (cases "client_hello_framed rec"; cases "client_hello_random hmac rec t")
      (auto dest: client_hello_random_Some split: if_splits option.splits)
  show ?thesis using body [OF assms(1)] body [OF assms(2)] by simp
qed

lemma find_hello_finds:
  assumes "parse_faketls_client_hello hmac rec secret = Ret (Some hello)" and "secret \<in> set secrets"
  shows "\<exists>s \<in> set secrets. find_hello hmac rec secrets = Ret (Some (hello, s))"
  using assms(2)
proof (induction secrets)
  case (Cons s secrets)
  show ?case
  proof (cases "parse_faketls_client_hello hmac rec s")
    case Panic
    then show ?thesis using parse_hello_no_panic by blast
  next
    case (Ret h)
    show ?thesis
    proof (cases h)
      case None
      then have "secret \<in> set secrets" using Cons.prems Ret assms(1) by auto
      then show ?thesis using Cons.IH Ret None by auto
    next
      case (Some k)
      then have "k = hello" using parse_hello_agree [OF Ret [unfolded Some] assms(1)] by simp
      then show ?thesis using Ret Some by simp
    qed
  qed
qed simp

lemma signed_hello_record:
  assumes "mac_len hmac" and "length host \<le> 16000"
    and "sign_faketls_client_hello hmac ts (fst (build_faketls_client_hello g host)) secret = Ret hello"
  shows "read_tls_record_bytes (hello @ wire) max_record = Inr (Some hello, wire)"
    and "hello ! 0 = TLS_RECORD_HANDSHAKE" and "slice_of hello 1 3 = [0x03, 0x01]" and "hello \<noteq> []"
proof -
  let ?n = "171 + length host"
  let ?after = "hello_after (fst (fill_bytes g 32)) (sni_extension host @ FIXED_EXTENSIONS)"
  define r where "r = signed_random (hmac secret (hello_before ?n @ replicate 32 0 @ ?after)) ts @ ?after"
  have hello: "hello = hello_before ?n @ r"
    using assms(2,3) sign_layout [OF assms(1), of "hello_before ?n" "replicate 32 0" ts ?after secret]
    by (simp add: build_layout r_def)
  have r: "length r = 169 + length host"
    using assms(1) by (simp add: r_def mac_len_def)
  obtain a b where len: "len16 (175 + length host) = [a, b]"
    and val: "unat (from_be_bytes16 a b) = 175 + length host"
    using len16_decode [of "175 + length host"] assms(2) by (simp add: len16_def to_be_bytes16_def)
  define body where "body = [TLS_HANDSHAKE_CLIENT_HELLO] @ u24_bytes ?n @ TLS_VERSION_12 @ r"
  have body: "hello = 0x16 # 3 # 1 # a # b # body" "length body = 175 + length host"
    using r len by (simp_all add: hello hello_before_def tls_consts u24_bytes_def body_def)
  show "read_tls_record_bytes (hello @ wire) max_record = Inr (Some hello, wire)"
    using assms(2) val body(2)
    by (simp add: body(1) read_tls_record_bytes_def read_exact_def tls_consts
        max_record_def TLS_READ_HEADROOM_def)
  show "hello ! 0 = TLS_RECORD_HANDSHAKE" "slice_of hello 1 3 = [0x03, 0x01]" "hello \<noteq> []"
    by (simp_all add: body(1) tls_consts slice_of_def)
qed

lemma accept_faketls:
  assumes "mac_len hmac" and "utf8_valid host" and "length host \<le> 16000" and "secret \<in> set secrets"
    and "sign_faketls_client_hello hmac ts (fst (build_faketls_client_hello g host)) secret = Ret hello"
    and "64 \<le> length (read_all_appdata CLIENT_READ_BUF_SIZE wire)"
  shows "\<exists>server_hello pending reader'.
    accept_inbound_faketls hmac g' vec_writer secrets host (hello @ wire) out =
      Ret (Some ((take 64 (read_all_appdata CLIENT_READ_BUF_SIZE wire), pending, reader'), out @ server_hello)) \<and>
    (\<forall>rest. drain_faketls_server_hello (server_hello @ rest) = (True, rest)) \<and>
    client_stream CLIENT_READ_BUF_SIZE (CrFakeTls reader' pending) =
      drop 64 (read_all_appdata CLIENT_READ_BUF_SIZE wire)"
proof -
  obtain h where h: "parse_faketls_client_hello hmac hello secret = Ret (Some h)"
    "ch_session_id h = fst (fill_bytes g 32)" "ch_cipher_suite h = [0x13, 0x01]" "ch_hostname h = Some host"
    using client_hello_accepted [OF assms(1,2), of ts g secret] assms(3,5) by auto
  obtain s where s: "find_hello hmac hello secrets = Ret (Some (h, s))"
    using find_hello_finds [OF h(1) assms(4)] by blast
  obtain packet g'' where packet: "build_faketls_server_hello hmac g' s h = (packet, g'')"
    by (cases "build_faketls_server_hello hmac g' s h")
  have drained: "drain_faketls_server_hello (packet @ rest) = (True, rest)" for rest
    using server_hello_drained [OF assms(1) _ _ packet] h(2,3) by simp
  obtain pending reader' where init:
    "collect_init [] wire = Some (take 64 (read_all_appdata CLIENT_READ_BUF_SIZE wire), pending, reader')"
    "client_stream CLIENT_READ_BUF_SIZE (CrFakeTls reader' pending) =
       drop 64 (read_all_appdata CLIENT_READ_BUF_SIZE wire)"
    using collect_init_stream [of "[]" wire] assms(6) by (auto simp: max_record_buf)
  show ?thesis
    using signed_hello_record [OF assms(1,3,5)] s h(4) packet drained init
    by (auto simp: accept_inbound_faketls_def vec_writer_def)
qed

text \<open>
  C7: A FakeTLS client that signs its hello with one of the proxy's secrets and names the expected
  domain is accepted, whatever the fragmentation of its bytes: the answer is one it can drain, the
  sixty-four bytes that open the session are the first sixty-four of its application data, in
  however many records they came, and what the session reads afterwards is the rest of that data,
  so no byte is lost or repeated at the border.
\<close>

theorem inbound_faketls_session:
  assumes "mac_len hmac" and "utf8_valid host" and "length host \<le> 16000" and "secret \<in> set secrets"
    and "sign_faketls_client_hello hmac ts (fst (build_faketls_client_hello g host)) secret = Ret hello"
    and "stream_of reader = hello @ wire"
    and "read_all_appdata CLIENT_READ_BUF_SIZE wire = opening @ later" and "length opening = 64"
  shows "\<exists>server_hello client.
    read_inbound_handshake hmac g' vec_writer secrets (Some host) reader out =
      Ret (Some ((opening, client), out @ server_hello)) \<and>
    (\<forall>rest. drain_faketls_server_hello (server_hello @ rest) = (True, rest)) \<and>
    client_stream CLIENT_READ_BUF_SIZE client = later"
  using accept_faketls [OF assms(1-5), of wire g' out] assms(6-8)
  by (auto simp: read_inbound_handshake_def)

theorem inbound_faketls_session_witness:
  "\<exists>hello. sign_faketls_client_hello sample_mac 7
       (fst (build_faketls_client_hello (\<lambda>_. 5) [0x61])) [1, 2] = Ret hello \<and>
     (\<exists>server_hello client.
       read_inbound_handshake sample_mac (\<lambda>_. 9) vec_writer [[3], [1, 2]] (Some [0x61])
           [hello, appdata_stream (replicate 64 1 @ [2, 3])] [] =
         Ret (Some ((replicate 64 1, client), server_hello)) \<and>
       (\<forall>rest. drain_faketls_server_hello (server_hello @ rest) = (True, rest)) \<and>
       client_stream CLIENT_READ_BUF_SIZE client = [2, 3])"
proof -
  have utf8: "utf8_valid [0x61]" by code_simp
  obtain hello where hello: "sign_faketls_client_hello sample_mac 7
       (fst (build_faketls_client_hello (\<lambda>_. 5) [0x61])) [1, 2] = Ret hello"
    using client_hello_accepted [OF sample_mac_len utf8, of 7 "\<lambda>_. 5" "[1, 2]"] by auto
  have data: "read_all_appdata CLIENT_READ_BUF_SIZE (appdata_stream (replicate 64 1 @ [2, 3])) =
      replicate 64 1 @ [2, 3]"
    using read_all_appdata_stream [of CLIENT_READ_BUF_SIZE "replicate 64 1 @ [2, 3]" "[]"]
    by (simp add: buf_consts tls_consts)
  have "stream_of [hello, appdata_stream (replicate 64 1 @ [2, 3])] =
      hello @ appdata_stream (replicate 64 1 @ [2, 3])"
    using signed_hello_record(4) [OF sample_mac_len _ hello]
    by (simp add: appdata_stream.simps [of "replicate 64 1 @ [2, 3]"])
  then show ?thesis
    using inbound_faketls_session [OF sample_mac_len utf8 _ _ hello _ data, of "[[3], [1, 2]]"
        "[hello, appdata_stream (replicate 64 1 @ [2, 3])]" "\<lambda>_. 9" "[]"] hello by simp
qed

end
