(* ===== verification/Config.thy ===== *)
theory Config
  imports Crypto Address
begin

text \<open>
  Configuration, after \<^verbatim>\<open>src/config.rs\<close>: the parsed options, the defaults that
  are filled in after parsing, the secrets and the proxy link, the tiers pinned by the user
  and the tables of data centres, and the splitting of a command line.

  The hex codec of the \<open>hex\<close> crate is a pair of parameters, \<open>hexe\<close> and \<open>hexd\<close>;
  \<open>hex_laws\<close> states what is used of it. Command-line parsing by \<open>clap\<close> is not
  modelled: a \<open>Config\<close> is what it yields. Host names that are compared with bytes from
  the wire are kept as their UTF-8 bytes.
\<close>

type_synonym hex_encoder = "bytes \<Rightarrow> str"
type_synonym hex_decoder = "str \<Rightarrow> bytes option"

section \<open>Data centres\<close>

definition DEFAULT_DC_IPS :: "(nat \<times> str) list" where
  "DEFAULT_DC_IPS =
     [(1, lit ''149.154.175.50''), (2, lit ''149.154.167.51''), (3, lit ''149.154.175.100''),
      (4, lit ''149.154.167.91''), (5, lit ''149.154.171.5''), (203, lit ''91.105.192.100'')]"

definition DC_OVERRIDES :: "(nat \<times> nat) list" where
  "DC_OVERRIDES = [(203, 2)]"

definition DEFAULT_DC_IP_TARGETS :: "(nat \<times> str) list" where
  "DEFAULT_DC_IP_TARGETS = [(2, lit ''149.154.167.220''), (4, lit ''149.154.167.220'')]"

text \<open>Collecting pairs into a \<open>HashMap\<close>: a later pair replaces an earlier one.\<close>

definition collect_map :: "('k \<times> 'v) list \<Rightarrow> ('k \<rightharpoonup> 'v)" where
  "collect_map kvs = fold (\<lambda>(k, v) m. m(k \<mapsto> v)) kvs Map.empty"

text \<open>\<open>find_map\<close> over a table: the first pair with this key.\<close>

fun find_key :: "'k \<Rightarrow> ('k \<times> 'v) list \<Rightarrow> 'v option" where
  "find_key k [] = None"
| "find_key k ((k', v) # kvs) = (if k' = k then Some v else find_key k kvs)"

definition default_dc_ips :: "nat \<rightharpoonup> str" where
  "default_dc_ips = collect_map DEFAULT_DC_IPS"

definition default_dc_ip :: "nat \<Rightarrow> str option" where
  "default_dc_ip dc = find_key dc DEFAULT_DC_IPS"

definition default_dc_overrides :: "nat \<rightharpoonup> nat" where
  "default_dc_overrides = collect_map DC_OVERRIDES"

definition websocket_dc :: "nat \<Rightarrow> nat" where
  "websocket_dc dc = (case find_key dc DC_OVERRIDES of Some to \<Rightarrow> to | None \<Rightarrow> dc)"

section \<open>Upstream proxies and tiers\<close>

record MtProtoProxy =
  mp_host :: str
  mp_port :: nat
  mp_secret :: str
  mp_secret_key :: bytes
  mp_faketls_hostname :: "bytes option"

datatype proxy_error =
    ExpectedTriplet str
  | InvalidPort str
  | InvalidHexSecret str
  | HostnameNotUtf8

definition parse_mtproto_proxy :: "hex_decoder \<Rightarrow> str \<Rightarrow> proxy_error + MtProtoProxy" where
  "parse_mtproto_proxy hexd s =
     (case rsplit_once 58 s of
        None \<Rightarrow> Inl (ExpectedTriplet s)
      | Some (front, secret) \<Rightarrow>
          (case rsplit_once 58 front of
             None \<Rightarrow> Inl (ExpectedTriplet s)
           | Some (host, port_s) \<Rightarrow>
               (case parse_uint 65535 port_s of
                  None \<Rightarrow> Inl (InvalidPort port_s)
                | Some port \<Rightarrow>
                    (case hexd secret of
                       None \<Rightarrow> Inl (InvalidHexSecret secret)
                     | Some raw_secret \<Rightarrow>
                         (let key = secret_key raw_secret;
                              proxy = \<lparr>mp_host = host, mp_port = port, mp_secret = secret,
                                       mp_secret_key = key, mp_faketls_hostname = None\<rparr>
                          in case faketls_hostname raw_secret of
                               None \<Rightarrow> Inr proxy
                             | Some h \<Rightarrow>
                                 (case from_utf8 h of
                                    None \<Rightarrow> Inl HostnameNotUtf8
                                  | Some name \<Rightarrow> Inr (proxy\<lparr>mp_faketls_hostname := Some name\<rparr>)))))))"

datatype UpstreamTier = Ws | Cfworker | Cfproxy | Mtproto | Tcp

fun tier_name :: "UpstreamTier \<Rightarrow> str" where
  "tier_name Ws = lit ''ws''"
| "tier_name Cfworker = lit ''cfworker''"
| "tier_name Cfproxy = lit ''cfproxy''"
| "tier_name Mtproto = lit ''mtproto''"
| "tier_name Tcp = lit ''tcp''"

datatype dc_ip_error = ExpectedDcIp str | InvalidDc str | InvalidIp str

definition parse_dc_ip :: "str \<Rightarrow> dc_ip_error + (nat \<times> str)" where
  "parse_dc_ip s =
     (case split_once 58 s of
        None \<Rightarrow> Inl (ExpectedDcIp s)
      | Some (dc_s, ip_s) \<Rightarrow>
          (case parse_uint 4294967295 dc_s of
             None \<Rightarrow> Inl (InvalidDc dc_s)
           | Some dc \<Rightarrow>
               (case parse_ip ip_s of
                  None \<Rightarrow> Inl (InvalidIp ip_s)
                | Some _ \<Rightarrow> Inr (dc, ip_s))))"

text \<open>An \<open>IpAddr\<close> is represented by its canonical text, which determines it.\<close>

type_synonym ip_addr = str

section \<open>The configuration\<close>

record Config =
  cfg_port :: nat
  cfg_host :: "str option"
  cfg_secrets :: "str list"
  cfg_listen_faketls_domain :: "str option"
  cfg_dc_ip :: "(nat \<times> str) list"
  cfg_pool_size :: nat
  cfg_max_connections :: "nat option"
  cfg_skip_tls_verify :: bool
  cfg_mtproto_proxies :: "MtProtoProxy list"
  cfg_link_ip :: "str option"
  cfg_cf_domains :: "str list"
  cfg_cf_worker_domains :: "str list"
  cfg_cf_priority :: bool
  cfg_cf_balance :: bool
  cfg_cf_disable_tls :: bool
  cfg_pinned_upstreams :: "UpstreamTier list"
  cfg_pinned_media_upstreams :: "UpstreamTier list"
  cfg_cf_ips :: "ip_addr list"
  cfg_ws_connect_timeout :: nat
  cfg_ws_fail_probe_timeout :: nat
  cfg_ws_fail_cooldown :: nat
  cfg_ws_redirect_cooldown :: nat
  cfg_ip_fail_cooldown :: nat
  cfg_handshake_timeout :: nat
  cfg_tcp_fallback_timeout :: nat
  cfg_upstream_connect_timeout :: nat
  cfg_upstream_fail_cooldown :: nat
  cfg_cf_connect_timeout :: nat
  cfg_cf_fail_cooldown :: nat
  cfg_fronting_domain :: "str option"
  cfg_pool_max_age :: nat
  cfg_check :: bool
  cfg_check_listener :: bool
  cfg_default_domains :: bool
  cfg_outbound_proxy :: "str option"
  cfg_no_outbound_proxy :: bool
  cfg_no_proxy :: "str option"
  cfg_verbose :: bool
  cfg_quiet :: bool
  cfg_normalized_secrets :: "bytes list option"
  cfg_normalized_listen_faketls_domain :: "bytes option option"

text \<open>The log file and the options that have no effect are left out.\<close>

text \<open>The values of an empty command line, with none of the environment variables set.\<close>

definition cli_defaults :: Config where
  "cli_defaults =
     \<lparr>cfg_port = 1443, cfg_host = None, cfg_secrets = [], cfg_listen_faketls_domain = None,
      cfg_dc_ip = [], cfg_pool_size = 4, cfg_max_connections = None, cfg_skip_tls_verify = False,
      cfg_mtproto_proxies = [], cfg_link_ip = None, cfg_cf_domains = [], cfg_cf_worker_domains = [],
      cfg_cf_priority = False, cfg_cf_balance = False, cfg_cf_disable_tls = False,
      cfg_pinned_upstreams = [], cfg_pinned_media_upstreams = [], cfg_cf_ips = [],
      cfg_ws_connect_timeout = 10, cfg_ws_fail_probe_timeout = 2, cfg_ws_fail_cooldown = 30,
      cfg_ws_redirect_cooldown = 300, cfg_ip_fail_cooldown = 3600, cfg_handshake_timeout = 10,
      cfg_tcp_fallback_timeout = 10, cfg_upstream_connect_timeout = 5,
      cfg_upstream_fail_cooldown = 60, cfg_cf_connect_timeout = 10, cfg_cf_fail_cooldown = 60,
      cfg_fronting_domain = None, cfg_pool_max_age = 55, cfg_check = False,
      cfg_check_listener = False, cfg_default_domains = False, cfg_outbound_proxy = None,
      cfg_no_outbound_proxy = False, cfg_no_proxy = None, cfg_verbose = False, cfg_quiet = False,
      cfg_normalized_secrets = None, cfg_normalized_listen_faketls_domain = None\<rparr>"

definition primary_secret :: "Config \<Rightarrow> str" where
  "primary_secret c = (case cfg_secrets c of [] \<Rightarrow> [] | s # _ \<Rightarrow> s)"

definition decode_secret_key :: "hex_decoder \<Rightarrow> str \<Rightarrow> bytes exec" where
  "decode_secret_key hexd secret =
     (case hexd secret of None \<Rightarrow> Panic | Some raw \<Rightarrow> Ret (secret_key raw))"

fun decode_secret_keys :: "hex_decoder \<Rightarrow> str list \<Rightarrow> bytes list exec" where
  "decode_secret_keys hexd [] = Ret []"
| "decode_secret_keys hexd (s # ss) =
     exec_bind (decode_secret_key hexd s) (\<lambda>k.
       exec_bind (decode_secret_keys hexd ss) (\<lambda>ks. Ret (k # ks)))"

definition derive_listen_faketls_domain :: "hex_decoder \<Rightarrow> Config \<Rightarrow> bytes option" where
  "derive_listen_faketls_domain hexd c =
     (case cfg_listen_faketls_domain c of
        Some domain \<Rightarrow> Some (utf8_encode domain)
      | None \<Rightarrow>
          (case hexd (primary_secret c) of
             None \<Rightarrow> None
           | Some raw \<Rightarrow>
               (case faketls_hostname raw of None \<Rightarrow> None | Some h \<Rightarrow> from_utf8 h)))"

definition normalized_secrets :: "hex_decoder \<Rightarrow> Config \<Rightarrow> bytes list exec" where
  "normalized_secrets hexd c =
     (case cfg_normalized_secrets c of
        Some keys \<Rightarrow> Ret keys
      | None \<Rightarrow> decode_secret_keys hexd (cfg_secrets c))"

definition secret_bytes :: "hex_decoder \<Rightarrow> Config \<Rightarrow> bytes exec" where
  "secret_bytes hexd c =
     exec_bind (normalized_secrets hexd c) (\<lambda>ks. Ret (case ks of [] \<Rightarrow> [] | k # _ \<Rightarrow> k))"

definition listen_faketls_domain :: "hex_decoder \<Rightarrow> Config \<Rightarrow> bytes option" where
  "listen_faketls_domain hexd c =
     (case cfg_normalized_listen_faketls_domain c of
        Some d \<Rightarrow> d
      | None \<Rightarrow> derive_listen_faketls_domain hexd c)"

definition normalize_cf_worker_domain :: "str \<Rightarrow> str option" where
  "normalize_cf_worker_domain domain =
     (let domain = trim domain
      in if domain = [] then None
         else let domain = (case strip_prefix (lit ''https://'') domain of
                              Some d \<Rightarrow> d
                            | None \<Rightarrow> (case strip_prefix (lit ''http://'') domain of
                                         Some d \<Rightarrow> d
                                       | None \<Rightarrow> domain));
                  domain = trim_end_matches (\<lambda>c. c = 47)
                    (case split_once 47 domain of Some (host, _) \<Rightarrow> host | None \<Rightarrow> domain)
              in if domain = [] then None else Some domain)"

text \<open>The pin that stands for the legacy \<open>--cf-priority\<close>: only configured tiers.\<close>

definition legacy_pin :: "Config \<Rightarrow> UpstreamTier list" where
  "legacy_pin c =
     (if cfg_cf_worker_domains c \<noteq> [] then [Cfworker] else []) @
     (if cfg_cf_domains c \<noteq> [] \<or> cfg_default_domains c then [Cfproxy] else []) @ [Ws] @
     (if cfg_mtproto_proxies c \<noteq> [] then [Mtproto] else []) @ [Tcp]"

definition expand_cf_priority :: "Config \<Rightarrow> Config" where
  "expand_cf_priority c =
     c\<lparr>cfg_pinned_upstreams :=
         (if cfg_cf_priority c \<and> cfg_pinned_upstreams c = [] then legacy_pin c
          else cfg_pinned_upstreams c),
       cfg_pinned_media_upstreams :=
         (if cfg_cf_priority c \<and> cfg_pinned_media_upstreams c = [] then legacy_pin c
          else cfg_pinned_media_upstreams c)\<rparr>"

text \<open>
  The first steps of \<open>with_defaults\<close>: the implied check, the Worker domains and the
  secret. \<open>random\<close> is the draw of \<open>rand::random()\<close> for a missing secret.
\<close>

definition fill_options :: "hex_encoder \<Rightarrow> bytes \<Rightarrow> Config \<Rightarrow> Config" where
  "fill_options hexe random c =
     c\<lparr>cfg_check := (cfg_check_listener c \<or> cfg_check c),
       cfg_cf_worker_domains :=
         List.map_filter normalize_cf_worker_domain (cfg_cf_worker_domains c),
       cfg_secrets := (if cfg_secrets c = [] then [hexe random] else cfg_secrets c)\<rparr>"

definition default_targets :: "Config \<Rightarrow> Config" where
  "default_targets c =
     c\<lparr>cfg_dc_ip := (if cfg_dc_ip c = [] \<and> cfg_cf_domains c = [] \<and> \<not> cfg_default_domains c
                     then DEFAULT_DC_IP_TARGETS else cfg_dc_ip c)\<rparr>"

definition with_defaults :: "hex_encoder \<Rightarrow> hex_decoder \<Rightarrow> bytes \<Rightarrow> Config \<Rightarrow> Config exec" where
  "with_defaults hexe hexd random c =
     (let c = fill_options hexe random c
      in exec_bind (decode_secret_keys hexd (cfg_secrets c)) (\<lambda>keys.
        let c = c\<lparr>cfg_normalized_secrets := Some keys,
                  cfg_normalized_listen_faketls_domain := Some (derive_listen_faketls_domain hexd c)\<rparr>
        in Ret (expand_cf_priority (default_targets c))))"

definition link_secret_for :: "hex_encoder \<Rightarrow> hex_decoder \<Rightarrow> Config \<Rightarrow> str \<Rightarrow> str exec" where
  "link_secret_for hexe hexd c secret =
     (case listen_faketls_domain hexd c of
        Some domain \<Rightarrow>
          exec_bind (decode_secret_key hexd secret) (\<lambda>key.
            Ret (lit ''ee'' @ hexe key @ hexe domain))
      | None \<Rightarrow>
          Ret (if starts_with (lit ''dd'') secret \<or> starts_with (lit ''ee'') secret
               then secret else lit ''dd'' @ secret))"

definition link_secret :: "hex_encoder \<Rightarrow> hex_decoder \<Rightarrow> Config \<Rightarrow> str exec" where
  "link_secret hexe hexd c = link_secret_for hexe hexd c (primary_secret c)"

definition dc_redirects :: "Config \<Rightarrow> (nat \<rightharpoonup> str)" where
  "dc_redirects c = collect_map (cfg_dc_ip c)"

definition dc_target_ip :: "Config \<Rightarrow> nat \<Rightarrow> str option" where
  "dc_target_ip c dc = find_key dc (rev (cfg_dc_ip c))"

definition forced_upstreams :: "Config \<Rightarrow> bool \<Rightarrow> UpstreamTier list option" where
  "forced_upstreams c is_media =
     (if is_media \<and> cfg_pinned_media_upstreams c \<noteq> [] then Some (cfg_pinned_media_upstreams c)
      else if cfg_pinned_upstreams c \<noteq> [] then Some (cfg_pinned_upstreams c)
      else None)"

fun unconfigured :: "Config \<Rightarrow> UpstreamTier \<Rightarrow> bool" where
  "unconfigured c Cfworker = (cfg_cf_worker_domains c = [])"
| "unconfigured c Cfproxy = (cfg_cf_domains c = [])"
| "unconfigured c Mtproto = (cfg_mtproto_proxies c = [])"
| "unconfigured c Ws = False"
| "unconfigured c Tcp = False"

text \<open>The error carries the flag and the tier that nothing configures.\<close>

definition validate_pinned_upstreams :: "Config \<Rightarrow> (string \<times> UpstreamTier) + unit" where
  "validate_pinned_upstreams c =
     (case find (unconfigured c) (cfg_pinned_upstreams c) of
        Some tier \<Rightarrow> Inl (''--pinned-upstream'', tier)
      | None \<Rightarrow>
          (case find (unconfigured c) (cfg_pinned_media_upstreams c) of
             Some tier \<Rightarrow> Inl (''--pinned-media-upstream'', tier)
           | None \<Rightarrow> Inr ()))"

text \<open>
  The LAN address: \<open>local\<close> is the source address the operating system picks for a public
  destination, if it picks one. Below, \<open>lan\<close> is the answer of \<open>detect_lan_ip\<close>.
\<close>

definition detect_lan_ip :: "IpAddr option \<Rightarrow> str option" where
  "detect_lan_ip local =
     (case local of
        Some (V4 v4) \<Rightarrow>
          if \<not> is_loopback (V4 v4) \<and> \<not> is_link_local v4 \<and> \<not> is_unspecified (V4 v4)
          then Some (show_ipv4 v4) else None
      | _ \<Rightarrow> None)"

definition bind_host :: "str option \<Rightarrow> Config \<Rightarrow> str" where
  "bind_host lan c =
     (case cfg_host c of
        Some host \<Rightarrow> host
      | None \<Rightarrow> if lan \<noteq> None then lit ''0.0.0.0'' else lit ''127.0.0.1'')"

definition link_host :: "str option \<Rightarrow> Config \<Rightarrow> str" where
  "link_host lan c =
     (case cfg_link_ip c of
        Some ip \<Rightarrow> ip
      | None \<Rightarrow>
          let bh = bind_host lan c;
              bind_is_local = (bh \<in> {lit ''0.0.0.0'', lit ''::'', lit ''127.0.0.1'', lit ''::1''})
          in case (bind_is_local, lan) of (True, Some ip) \<Rightarrow> ip | _ \<Rightarrow> bh)"

section \<open>Splitting a command line\<close>

datatype cli_error = TrailingBackslash | UnclosedQuote

fun cli_loop ::
    "str list \<Rightarrow> str \<Rightarrow> bool \<Rightarrow> bool \<Rightarrow> bool \<Rightarrow> str \<Rightarrow> cli_error + str list" where
  "cli_loop args cur started in_single in_double [] =
     (if in_single \<or> in_double then Inl UnclosedQuote
      else Inr (if started then args @ [cur] else args))"
| "cli_loop args cur started in_single in_double (c # chars) =
     (if c = 39 \<and> \<not> in_double then cli_loop args cur True (\<not> in_single) in_double chars
      else if c = 34 \<and> \<not> in_single then cli_loop args cur True in_single (\<not> in_double) chars
      else if is_whitespace c \<and> \<not> in_single \<and> \<not> in_double
      then (if started then cli_loop (args @ [cur]) [] False in_single in_double chars
            else cli_loop args cur started in_single in_double chars)
      else if c = 92 \<and> \<not> in_single
      then (case chars of
              [] \<Rightarrow> Inl TrailingBackslash
            | next # chars \<Rightarrow> cli_loop args (cur @ [next]) True in_single in_double chars)
      else cli_loop args (cur @ [c]) True in_single in_double chars)"

definition split_cli_args :: "str \<Rightarrow> cli_error + str list" where
  "split_cli_args line = cli_loop [] [] False False False line"

text \<open>The argument vector handed to \<open>clap\<close>.\<close>

definition cli_argv :: "str \<Rightarrow> cli_error + str list" where
  "cli_argv line =
     (case split_cli_args (trim line) of
        Inl e \<Rightarrow> Inl e
      | Inr tokens \<Rightarrow>
          (case tokens of
             first # _ \<Rightarrow> Inr (if starts_with (lit ''-'') first then lit ''tg-ws-proxy'' # tokens else tokens)
           | [] \<Rightarrow> Inr [lit ''tg-ws-proxy'']))"

text \<open>\<open>try_parse_from\<close> is the parser of \<^verbatim>\<open>clap\<close>, a usage text or the options, and \<open>random\<close> the bytes drawn for a secret.\<close>

datatype cli_failure = CliSplit cli_error | CliUsage str

definition try_from_cli_line ::
    "hex_encoder \<Rightarrow> hex_decoder \<Rightarrow> (str list \<Rightarrow> str + Config) \<Rightarrow> bytes \<Rightarrow> str \<Rightarrow> (cli_failure + Config) exec" where
  "try_from_cli_line hexe hexd try_parse_from random line =
     (case cli_argv line of
        Inl e \<Rightarrow> Ret (Inl (CliSplit e))
      | Inr args \<Rightarrow>
          (case try_parse_from args of
             Inl usage \<Rightarrow> Ret (Inl (CliUsage usage))
           | Inr c \<Rightarrow> exec_bind (with_defaults hexe hexd random c) (\<lambda>c. Ret (Inr c))))"

section \<open>The hex codec\<close>

text \<open>
  What the program relies on: decoding inverts encoding, decodes a concatenation piecewise,
  and reads the two mode prefixes.
\<close>

definition hex_laws :: "hex_encoder \<Rightarrow> hex_decoder \<Rightarrow> bool" where
  "hex_laws hexe hexd \<longleftrightarrow>
     (\<forall>xs. hexd (hexe xs) = Some xs) \<and>
     (\<forall>s t xs ys. hexd s = Some xs \<longrightarrow> hexd t = Some ys \<longrightarrow> hexd (s @ t) = Some (xs @ ys)) \<and>
     hexd (lit ''dd'') = Some [0xdd] \<and> hexd (lit ''ee'') = Some [0xee]"

definition hex_digit :: "nat \<Rightarrow> nat" where
  "hex_digit n = (if n < 10 then 48 + n else 87 + n)"

definition hex_value :: "nat \<Rightarrow> nat option" where
  "hex_value c =
     (if 48 \<le> c \<and> c \<le> 57 then Some (c - 48)
      else if 97 \<le> c \<and> c \<le> 102 then Some (c - 87)
      else if 65 \<le> c \<and> c \<le> 70 then Some (c - 55)
      else None)"

definition sample_hexe :: hex_encoder where
  "sample_hexe xs = concat (map (\<lambda>b. [hex_digit (unat b div 16), hex_digit (unat b mod 16)]) xs)"

fun sample_hexd :: hex_decoder where
  "sample_hexd [] = Some []"
| "sample_hexd [c] = None"
| "sample_hexd (a # b # rest) =
     (case (hex_value a, hex_value b, sample_hexd rest) of
        (Some x, Some y, Some zs) \<Rightarrow> Some (word_of_nat (16 * x + y) # zs)
      | _ \<Rightarrow> None)"

lemma hex_value_digit: "n < 16 \<Longrightarrow> hex_value (hex_digit n) = Some n"
  by (auto simp: hex_value_def hex_digit_def)

lemma sample_hexd_hexe: "sample_hexd (sample_hexe xs) = Some xs"
proof (induction xs)
  case (Cons b xs)
  have "unat b < 256" using unsigned_less [of b] by simp
  then have "hex_value (hex_digit (unat b div 16)) = Some (unat b div 16)"
    "hex_value (hex_digit (unat b mod 16)) = Some (unat b mod 16)"
    by (simp_all add: hex_value_digit)
  then show ?case
    using Cons by (simp add: sample_hexe_def)
qed (simp add: sample_hexe_def)

lemma sample_hexd_append:
  "sample_hexd s = Some xs \<Longrightarrow> sample_hexd t = Some ys \<Longrightarrow> sample_hexd (s @ t) = Some (xs @ ys)"
  by (induction s arbitrary: xs rule: sample_hexd.induct) (auto split: option.splits)

lemma sample_hex_laws: "hex_laws sample_hexe sample_hexd"
  by (auto simp: hex_laws_def sample_hexd_hexe sample_hexd_append) code_simp+

section \<open>Tables\<close>

lemma collect_map_of: "collect_map kvs = map_of (rev kvs)"
proof -
  have "fold (\<lambda>(k, v) m. m(k \<mapsto> v)) kvs m = m ++ map_of (rev kvs)" for m :: "'a \<rightharpoonup> 'b"
    by (induction kvs arbitrary: m) (auto simp: map_add_def fun_eq_iff split: option.splits)
  then show ?thesis by (simp add: collect_map_def)
qed

lemma find_key_map_of: "find_key k kvs = map_of kvs k"
  by (induction kvs) auto

section \<open>Defaults\<close>

lemma derive_listen_faketls_domain_cong:
  "cfg_secrets c = cfg_secrets d \<Longrightarrow> cfg_listen_faketls_domain c = cfg_listen_faketls_domain d \<Longrightarrow>
   derive_listen_faketls_domain hexd c = derive_listen_faketls_domain hexd d"
  by (simp add: derive_listen_faketls_domain_def primary_secret_def cong: option.case_cong)

lemma with_defaults_Ret:
  assumes "with_defaults hexe hexd random c = Ret c'"
  obtains keys where "decode_secret_keys hexd (cfg_secrets c') = Ret keys"
    and "cfg_normalized_secrets c' = Some keys"
    and "cfg_normalized_listen_faketls_domain c' = Some (derive_listen_faketls_domain hexd c')"
    and "cfg_secrets c' = (if cfg_secrets c = [] then [hexe random] else cfg_secrets c)"
    and "cfg_cf_worker_domains c' = List.map_filter normalize_cf_worker_domain (cfg_cf_worker_domains c)"
proof -
  let ?f = "fill_options hexe random c"
  obtain keys where keys: "decode_secret_keys hexd (cfg_secrets ?f) = Ret keys"
    and c': "c' = expand_cf_priority (default_targets (?f\<lparr>cfg_normalized_secrets := Some keys,
       cfg_normalized_listen_faketls_domain := Some (derive_listen_faketls_domain hexd ?f)\<rparr>))"
    using assms by (auto simp: with_defaults_def Let_def exec_bind_eq_Ret)
  have kept: "cfg_secrets c' = cfg_secrets ?f" "cfg_normalized_secrets c' = Some keys"
    "cfg_cf_worker_domains c' = cfg_cf_worker_domains ?f"
    "cfg_listen_faketls_domain c' = cfg_listen_faketls_domain ?f"
    "cfg_normalized_listen_faketls_domain c' = Some (derive_listen_faketls_domain hexd ?f)"
    unfolding c' by (simp_all add: expand_cf_priority_def default_targets_def)
  show ?thesis
    by (rule that [of keys])
      (use keys kept derive_listen_faketls_domain_cong [OF kept(1,4)] in \<open>simp_all add: fill_options_def\<close>)
qed

section \<open>Pinned tiers\<close>

lemma validate_pinned_upstreams_ok:
  "validate_pinned_upstreams c = Inr () \<longleftrightarrow>
     (\<forall>tier \<in> set (cfg_pinned_upstreams c) \<union> set (cfg_pinned_media_upstreams c). \<not> unconfigured c tier)"
  by (auto simp: validate_pinned_upstreams_def find_None_iff find_Some_iff split: option.splits)

lemma forced_upstreams_pinned:
  "forced_upstreams c is_media = Some tiers \<Longrightarrow>
   tiers \<noteq> [] \<and> set tiers \<subseteq> set (cfg_pinned_upstreams c) \<union> set (cfg_pinned_media_upstreams c)"
  by (auto simp: forced_upstreams_def split: if_splits)

lemma unconfigured_legacy_pin:
  "tier \<in> set (legacy_pin c) \<Longrightarrow> cfg_default_domains c \<longrightarrow> cfg_cf_domains c \<noteq> [] \<Longrightarrow>
   \<not> unconfigured c tier"
  by (auto simp: legacy_pin_def split: if_splits)

section \<open>Links\<close>

lemma secret_key_prefixed:
  assumes "length key = 16" and "m = 0xdd \<or> m = 0xee"
  shows "secret_key (m # key @ rest) = key"
  using assms by (auto simp: secret_key_def has_mode_prefix_def secret_defs slice_of_def)

lemma hex_lawsD:
  assumes "hex_laws hexe hexd"
  shows "hexd (hexe xs) = Some xs"
    and "hexd s = Some xs \<Longrightarrow> hexd t = Some ys \<Longrightarrow> hexd (s @ t) = Some (xs @ ys)"
    and "hexd (lit ''dd'') = Some [0xdd]" and "hexd (lit ''ee'') = Some [0xee]"
  using assms by (auto simp: hex_laws_def)

section \<open>Command lines\<close>

text \<open>
  Quoting an argument so that it survives the splitting: single quotes around it, and a
  single quote inside it closed, escaped and opened again.
\<close>

definition quote_char :: "nat \<Rightarrow> str" where
  "quote_char c = (if c = 39 then [39, 92, 39, 39] else [c])"

definition quote_arg :: "str \<Rightarrow> str" where
  "quote_arg a = [39] @ concat (map quote_char a) @ [39]"

definition quote_line :: "str list \<Rightarrow> str" where
  "quote_line args = concat (map (\<lambda>a. quote_arg a @ [32]) args)"

lemma cli_loop_quoted:
  "cli_loop args cur True True False (concat (map quote_char a) @ rest) =
   cli_loop args (cur @ a) True True False rest"
  by (induction a arbitrary: cur) (auto simp: quote_char_def is_whitespace_def)

lemma cli_loop_quote_line:
  "cli_loop args [] False False False (quote_line as) = Inr (args @ as)"
  by (induction as arbitrary: args)
    (simp_all add: quote_line_def quote_arg_def cli_loop_quoted is_whitespace_def)

section \<open>Properties\<close>

text \<open>
  C25: The key a client reads out of the proxy link is the key the proxy uses. This
  holds for a secret of 16 bytes and, without FakeTLS, for any secret written with a
  lower-case mode prefix; the FakeTLS link also carries the domain the proxy listens for.
\<close>

theorem link_secret_roundtrip:
  assumes "hex_laws hexe hexd" and "decode_secret_key hexd secret = Ret key"
    and "length key = 16"
    and "listen_faketls_domain hexd c = None \<Longrightarrow>
         starts_with (lit ''dd'') secret \<or> starts_with (lit ''ee'') secret \<or> hexd secret = Some key"
  shows "\<exists>link. link_secret_for hexe hexd c secret = Ret link \<and>
           decode_secret_key hexd link = Ret key \<and>
           (\<forall>domain. listen_faketls_domain hexd c = Some domain \<longrightarrow> domain \<noteq> [] \<longrightarrow>
              (\<exists>raw. hexd link = Some raw \<and> faketls_hostname raw = Some domain))"
proof (cases "listen_faketls_domain hexd c")
  case (Some domain)
  have link: "hexd (lit ''ee'' @ hexe key @ hexe domain) = Some (0xee # key @ domain)"
    using hex_lawsD(2) [OF assms(1) hex_lawsD(4) [OF assms(1)]
        hex_lawsD(2) [OF assms(1) hex_lawsD(1) [OF assms(1)] hex_lawsD(1) [OF assms(1)]]]
    by simp
  then show ?thesis
    using Some assms(2) secret_key_prefixed [OF assms(3), of "0xee" domain] assms(3)
    by (simp add: link_secret_for_def decode_secret_key_def faketls_hostname_def secret_defs)
next
  case None
  have "hexd (lit ''dd'' @ secret) = Some (0xdd # key)" if "hexd secret = Some key"
    using hex_lawsD(2) [OF assms(1) hex_lawsD(3) [OF assms(1)] that] by simp
  then show ?thesis
    using None assms secret_key_prefixed [OF assms(3), of "0xdd" "[]"]
    by (auto simp: link_secret_for_def decode_secret_key_def)
qed

definition sample_config :: Config where
  "sample_config =
     \<lparr>cfg_port = 1443, cfg_host = None, cfg_secrets = [sample_hexe (replicate 16 1)],
      cfg_listen_faketls_domain = None, cfg_dc_ip = [(2, lit ''10.0.0.1''), (2, lit ''10.0.0.2'')],
      cfg_pool_size = 4, cfg_max_connections = None, cfg_skip_tls_verify = False,
      cfg_mtproto_proxies = [], cfg_link_ip = None, cfg_cf_domains = [lit ''example.org''],
      cfg_cf_worker_domains = [lit '' https://w.example.org/x''], cfg_cf_priority = True,
      cfg_cf_balance = False, cfg_cf_disable_tls = False, cfg_pinned_upstreams = [],
      cfg_pinned_media_upstreams = [], cfg_cf_ips = [], cfg_ws_connect_timeout = 10,
      cfg_ws_fail_probe_timeout = 2, cfg_ws_fail_cooldown = 30, cfg_ws_redirect_cooldown = 300,
      cfg_ip_fail_cooldown = 3600, cfg_handshake_timeout = 10, cfg_tcp_fallback_timeout = 10,
      cfg_upstream_connect_timeout = 5, cfg_upstream_fail_cooldown = 60,
      cfg_cf_connect_timeout = 10, cfg_cf_fail_cooldown = 60, cfg_fronting_domain = None,
      cfg_pool_max_age = 55, cfg_check = False, cfg_check_listener = False,
      cfg_default_domains = False, cfg_outbound_proxy = None, cfg_no_outbound_proxy = False,
      cfg_no_proxy = None, cfg_verbose = False, cfg_quiet = False, cfg_normalized_secrets = None,
      cfg_normalized_listen_faketls_domain = None\<rparr>"

lemma sample_secret_decodes:
  "decode_secret_key sample_hexd (sample_hexe (replicate 16 1)) = Ret (replicate 16 1)"
  by (simp add: decode_secret_key_def sample_hexd_hexe secret_key_def has_mode_prefix_def secret_defs)

theorem link_secret_roundtrip_witness:
  "hex_laws sample_hexe sample_hexd \<and>
   (\<exists>link. link_secret_for sample_hexe sample_hexd sample_config (sample_hexe (replicate 16 1)) = Ret link \<and>
      decode_secret_key sample_hexd link = Ret (replicate 16 1))"
  using link_secret_roundtrip [OF sample_hex_laws sample_secret_decodes, of sample_config]
    sample_hex_laws sample_hexd_hexe by auto

text \<open>
  C26: The routing path and the pool agree on the target of a data centre: the scan
  of the \<open>--dc-ip\<close> list is the lookup in the map built from it, and likewise for the
  built-in addresses and the WebSocket overrides.
\<close>

theorem dc_lookups_agree:
  "dc_target_ip c dc = dc_redirects c dc \<and> default_dc_ip dc = default_dc_ips dc \<and>
   websocket_dc dc = (case default_dc_overrides dc of Some to \<Rightarrow> to | None \<Rightarrow> dc)"
  by (simp add: dc_target_ip_def dc_redirects_def default_dc_ip_def default_dc_ips_def
      websocket_dc_def default_dc_overrides_def collect_map_of find_key_map_of
      DEFAULT_DC_IPS_def DC_OVERRIDES_def)

text \<open>
  C27: A configuration that passes the startup check never pins a class of traffic
  to a tier with nothing behind it, and the expansion of the legacy \<open>--cf-priority\<close> flag
  never makes the check fail: when it is refused, an explicit pin of the user is the reason
  (or a list of default domains that came back empty).
\<close>

theorem pinned_tiers_configured:
  "(validate_pinned_upstreams c = Inr () \<longrightarrow> forced_upstreams c is_media = Some tiers \<longrightarrow>
      tiers \<noteq> [] \<and> (\<forall>tier \<in> set tiers. \<not> unconfigured c tier)) \<and>
   (validate_pinned_upstreams c = Inr () \<longrightarrow> (cfg_default_domains c \<longrightarrow> cfg_cf_domains c \<noteq> []) \<longrightarrow>
      validate_pinned_upstreams (expand_cf_priority c) = Inr ())"
proof (intro conjI impI)
  assume "validate_pinned_upstreams c = Inr ()" "forced_upstreams c is_media = Some tiers"
  then show "tiers \<noteq> []" "\<forall>tier \<in> set tiers. \<not> unconfigured c tier"
    using forced_upstreams_pinned [of c is_media tiers] by (auto simp: validate_pinned_upstreams_ok)
next
  assume ok: "validate_pinned_upstreams c = Inr ()"
    and fetched: "cfg_default_domains c \<longrightarrow> cfg_cf_domains c \<noteq> []"
  have same: "unconfigured (expand_cf_priority c) = unconfigured c"
    by (rule ext, rename_tac tier, case_tac tier) (simp_all add: expand_cf_priority_def)
  show "validate_pinned_upstreams (expand_cf_priority c) = Inr ()"
    using ok fetched unconfigured_legacy_pin [of _ c]
    by (auto simp: validate_pinned_upstreams_ok same) (auto simp: expand_cf_priority_def split: if_splits)
qed

theorem pinned_tiers_configured_witness:
  "validate_pinned_upstreams (sample_config\<lparr>cfg_pinned_upstreams := [Cfproxy, Tcp]\<rparr>) = Inr () \<and>
   forced_upstreams (sample_config\<lparr>cfg_pinned_upstreams := [Cfproxy, Tcp]\<rparr>) True = Some [Cfproxy, Tcp] \<and>
   \<not> unconfigured (sample_config\<lparr>cfg_pinned_upstreams := [Cfproxy, Tcp]\<rparr>) Cfproxy \<and>
   \<not> unconfigured (sample_config\<lparr>cfg_pinned_upstreams := [Cfproxy, Tcp]\<rparr>) Tcp \<and>
   validate_pinned_upstreams
     (expand_cf_priority (sample_config\<lparr>cfg_pinned_upstreams := [Cfproxy, Tcp]\<rparr>)) = Inr ()"
proof -
  let ?c = "sample_config\<lparr>cfg_pinned_upstreams := [Cfproxy, Tcp]\<rparr>"
  have "validate_pinned_upstreams ?c = Inr ()" "forced_upstreams ?c True = Some [Cfproxy, Tcp]"
    "\<not> cfg_default_domains ?c"
    by (simp_all add: validate_pinned_upstreams_def forced_upstreams_def sample_config_def)
  with pinned_tiers_configured [of ?c True "[Cfproxy, Tcp]"] show ?thesis by simp
qed

text \<open>
  \<open>with_defaults\<close> leaves a configuration with at least one secret whose cached
  keys and cached FakeTLS domain are what the accessors would compute afresh, so that caching
  them is not observable.
\<close>

lemma with_defaults_caches_coherent:
  assumes "with_defaults hexe hexd random c = Ret c'"
  shows "cfg_secrets c' \<noteq> [] \<and>
         normalized_secrets hexd c' = decode_secret_keys hexd (cfg_secrets c') \<and>
         normalized_secrets hexd c' \<noteq> Panic \<and>
         listen_faketls_domain hexd c' = derive_listen_faketls_domain hexd c'"
  using assms by (rule with_defaults_Ret) (simp add: normalized_secrets_def listen_faketls_domain_def)

theorem with_defaults_caches_coherent_witness:
  "\<exists>c'. with_defaults sample_hexe sample_hexd [] sample_config = Ret c' \<and>
     cfg_secrets c' \<noteq> [] \<and>
     normalized_secrets sample_hexd c' = decode_secret_keys sample_hexd (cfg_secrets c') \<and>
     normalized_secrets sample_hexd c' \<noteq> Panic \<and>
     listen_faketls_domain sample_hexd c' = derive_listen_faketls_domain sample_hexd c'"
proof -
  have "cfg_secrets (fill_options sample_hexe [] sample_config) = [sample_hexe (replicate 16 1)]"
    by (simp add: fill_options_def sample_config_def)
  then obtain c' where "with_defaults sample_hexe sample_hexd [] sample_config = Ret c'"
    by (auto simp: with_defaults_def Let_def sample_secret_decodes)
  with with_defaults_caches_coherent [OF this] show ?thesis by blast
qed

text \<open>
  C28: Splitting a command line inverts quoting: any list of arguments, whatever
  characters they contain, comes back from the line of its quoted arguments.
\<close>

theorem split_cli_args_quote: "split_cli_args (quote_line args) = Inr args"
  by (simp add: split_cli_args_def cli_loop_quote_line)

text \<open>
  C29: A link that does not carry the key. The proxy recognises the mode prefix of a
  secret in its decoded bytes, the link looks for it in the text and in lower case: a secret
  given with the prefix \<open>DD\<close> gets a second prefix in the link, and a client reads that
  prefix as the first byte of the key.
\<close>

theorem uppercase_prefix_link_broken:
  assumes "hex_laws hexe hexd" and "hexd (lit ''DD'') = Some [0xdd]" and "hexd s = Some key"
    and "length key = 16" and "listen_faketls_domain hexd c = None"
  shows "decode_secret_key hexd (lit ''DD'' @ s) = Ret key \<and>
         (\<exists>link. link_secret_for hexe hexd c (lit ''DD'' @ s) = Ret link \<and>
            decode_secret_key hexd link = Ret (0xdd # take 15 key))"
proof -
  have DD: "hexd (lit ''DD'' @ s) = Some (0xdd # key)"
    using hex_lawsD(2) [OF assms(1,2,3)] by simp
  have "hexd (lit ''dd'' @ lit ''DD'' @ s) = Some (0xdd # (0xdd # take 15 key) @ drop 15 key)"
    using hex_lawsD(2) [OF assms(1) hex_lawsD(3) [OF assms(1)] DD] by simp
  moreover have "\<not> starts_with (lit ''dd'') (lit ''DD'' @ s)" "\<not> starts_with (lit ''ee'') (lit ''DD'' @ s)"
    by (simp_all add: starts_with_def lit_def)
  ultimately show ?thesis
    using DD assms(4,5) secret_key_prefixed [of key "0xdd" "[]"]
      secret_key_prefixed [of "0xdd # take 15 key" "0xdd" "drop 15 key"]
    by (simp add: decode_secret_key_def link_secret_for_def)
qed

theorem uppercase_prefix_link_broken_witness:
  "decode_secret_key sample_hexd (lit ''DD'' @ sample_hexe (replicate 16 1)) = Ret (replicate 16 1) \<and>
   (\<exists>link. link_secret_for sample_hexe sample_hexd sample_config
        (lit ''DD'' @ sample_hexe (replicate 16 1)) = Ret link \<and>
      decode_secret_key sample_hexd link = Ret (0xdd # replicate 15 1))"
proof -
  have "sample_hexd (lit ''DD'') = Some [0xdd]" "listen_faketls_domain sample_hexd sample_config = None"
    by code_simp+
  from uppercase_prefix_link_broken [OF sample_hex_laws this(1) sample_hexd_hexe _ this(2), of "replicate 16 1"]
  show ?thesis by simp
qed

end
