(* ===== verification/Cooldown.thy ===== *)
theory Cooldown
  imports Main
begin

text \<open>
  Failure cooldowns, after \<open>CooldownMap\<close> of \<^verbatim>\<open>src/ws_client.rs\<close>: a map from
  keys to the instant until which they are skipped, allocated on the first entry. Instants
  are numbers of seconds; the lock around the map makes each operation atomic, so that the
  operations are functions of the map and the clock.

  The locale states what the rest of the program relies on; the routing and pool theories
  use its facts through the interpretation.
\<close>

type_synonym 'k cooldown_map = "('k \<rightharpoonup> nat) option"

definition cooldown_new :: "'k cooldown_map" where
  "cooldown_new = None"

definition cooldown_set :: "'k cooldown_map \<Rightarrow> 'k \<Rightarrow> nat \<Rightarrow> nat \<Rightarrow> 'k cooldown_map" where
  "cooldown_set entries key now cooldown =
     Some ((case entries of None \<Rightarrow> Map.empty | Some m \<Rightarrow> m)(key \<mapsto> now + cooldown))"

definition cooldown_clear :: "'k cooldown_map \<Rightarrow> 'k \<Rightarrow> 'k cooldown_map" where
  "cooldown_clear entries key =
     (case entries of None \<Rightarrow> None | Some m \<Rightarrow> Some (m(key := None)))"

definition cooldown_active :: "'k cooldown_map \<Rightarrow> 'k \<Rightarrow> nat \<Rightarrow> bool" where
  "cooldown_active entries key now =
     (case entries of
        None \<Rightarrow> False
      | Some m \<Rightarrow> (case m key of Some until \<Rightarrow> now < until | None \<Rightarrow> False))"

locale cooldown_store =
  fixes set_cd :: "'m \<Rightarrow> 'k \<Rightarrow> nat \<Rightarrow> nat \<Rightarrow> 'm"
    and clear_cd :: "'m \<Rightarrow> 'k \<Rightarrow> 'm"
    and active_cd :: "'m \<Rightarrow> 'k \<Rightarrow> nat \<Rightarrow> bool"
  assumes active_set: "active_cd (set_cd m k t d) k' t' = (if k' = k then t' < t + d else active_cd m k' t')"
    and active_clear: "active_cd (clear_cd m k) k' t' = (k' \<noteq> k \<and> active_cd m k' t')"
    and active_earlier: "active_cd m k t \<Longrightarrow> t' \<le> t \<Longrightarrow> active_cd m k t'"
begin

text \<open>A cooldown lasts exactly its length, and ends by itself.\<close>

lemma set_expires: "t + d \<le> t' \<Longrightarrow> \<not> active_cd (set_cd m k t d) k t'"
  by (simp add: active_set)

lemma set_holds: "t' < t + d \<Longrightarrow> active_cd (set_cd m k t d) k t'"
  by (simp add: active_set)

lemma inactive_later: "\<not> active_cd m k t \<Longrightarrow> t \<le> t' \<Longrightarrow> \<not> active_cd m k t'"
  using active_earlier by blast

text \<open>A success after a failure leaves no trace of it.\<close>

lemma clear_set: "active_cd (clear_cd (set_cd m k t d) k) k' t' = active_cd (clear_cd m k) k' t'"
  by (auto simp: active_clear active_set)

end

interpretation cd: cooldown_store cooldown_set cooldown_clear cooldown_active
  by unfold_locales
    (auto simp: cooldown_set_def cooldown_clear_def cooldown_active_def split: option.splits)

lemma cooldown_new_inactive [simp]: "\<not> cooldown_active cooldown_new k t"
  by (simp add: cooldown_new_def cooldown_active_def)

end
