(* ===== verification/WsClient.thy ===== *)
theory WsClient
  imports Config Cooldown
begin

text \<open>
  Outgoing WebSocket connections, after \<^verbatim>\<open>src/ws_client.rs\<close>: the records of a
  data centre, one connection attempt, the walk over the hostnames of a data centre, the
  preferred Cloudflare edges with their cooldowns, and the retry policy of the Cloudflare
  domains.

  The network is the parameter \<open>env\<close>: it answers a dial and may change the shared state
  in any way while the dial is awaited, which stands for the other tasks of the process. What
  this connection has dialled is kept in \<open>ws_trace\<close>, which the environment cannot change.
  \<open>direct\<close> tells whether the outbound connector reaches a host without a proxy.
\<close>

section \<open>Dials\<close>

text \<open>
  A WebSocket dial: TCP host and port, the TLS server name and whether its certificate is
  verified (\<open>None\<close> for plaintext), the HTTP host and path, whether the binary
  subprotocol is requested, and the timeout. A TCP dial is the same without the upgrade.
\<close>

datatype dial =
    WsDial (dl_host: str) (dl_port: nat) (dl_tls: "(str \<times> bool) option") (dl_http_host: str)
      (dl_path: str) (dl_binary: bool) (dl_timeout: nat)
  | TcpDial (dl_host: str) (dl_port: nat) (dl_timeout: nat)

datatype tcp_result = TcpOk | TcpTimedOut | TcpFailed

datatype upgrade_result =
    BadUrl
  | Upgraded nat
  | HttpError nat
  | UpgradeError
  | UpgradeElapsed

text \<open>
  What a dial meets: the outcome of the TCP connect and of the upgrade, the connection, and for
  a plain TCP connection the bytes the peer sends, how many it takes before the connection
  breaks, and the random bytes the task draws while it is open.
\<close>

record net_answer =
  na_tcp :: tcp_result
  na_upgrade :: upgrade_result
  na_conn :: nat
  na_reply :: bytes
  na_accepts :: "nat option"
  na_random :: rng

record ws_state =
  ws_now :: nat
  ws_cf_ip_rotation :: nat
  ws_edge_tls_fail :: "ip_addr cooldown_map"
  ws_edge_plaintext_fail :: "ip_addr cooldown_map"
  ws_trace :: "dial list"

type_synonym 'a net = "dial \<Rightarrow> 'a ws_state_scheme \<Rightarrow> net_answer \<times> 'a ws_state_scheme"

definition dial_net :: "'a net \<Rightarrow> dial \<Rightarrow> 'a ws_state_scheme \<Rightarrow> net_answer \<times> 'a ws_state_scheme" where
  "dial_net env d s = (let (ans, s') = env d s in (ans, s'\<lparr>ws_trace := ws_trace s @ [d]\<rparr>))"

section \<open>Records and paths\<close>

definition ordered_records :: "str \<Rightarrow> str \<Rightarrow> bool \<Rightarrow> str list" where
  "ordered_records base dash_one is_media =
     (if is_media then [dash_one, base] else [base, dash_one])"

definition ws_domains :: "nat \<Rightarrow> bool \<Rightarrow> str list" where
  "ws_domains dc is_media =
     (let effective_dc = websocket_dc dc
      in ordered_records
           (lit ''kws'' @ show_nat effective_dc @ lit ''.web.telegram.org'')
           (lit ''kws'' @ show_nat effective_dc @ lit ''-1.web.telegram.org'') is_media)"

definition cf_record :: "nat \<Rightarrow> str \<Rightarrow> str" where
  "cf_record dc domain = lit ''kws'' @ show_nat dc @ lit ''.'' @ domain"

definition cf_ws_domains :: "nat \<Rightarrow> str list \<Rightarrow> bool \<Rightarrow> str list" where
  "cf_ws_domains dc cf_domains is_media = map (cf_record dc) cf_domains"

definition cf_worker_path :: "str \<Rightarrow> nat \<Rightarrow> bool \<Rightarrow> str" where
  "cf_worker_path dst dc is_media =
     lit ''/apiws?dst='' @ dst @ lit ''&dc='' @ show_nat dc @ lit ''&media='' @
     (if is_media then lit ''1'' else lit ''0'')"

section \<open>One connection attempt\<close>

datatype WsConnectResult = Connected nat | Redirect nat | Failed | ConnectTimedOut | TimedOut

definition redirect_status :: "nat \<Rightarrow> bool" where
  "redirect_status status \<longleftrightarrow> status \<in> {301, 302, 303, 307, 308}"

text \<open>
  The server name and the verification of the TLS handshake: an override is domain fronting
  and never verifies.
\<close>

definition tls_handshake :: "str \<Rightarrow> bool \<Rightarrow> str option \<Rightarrow> str \<times> bool" where
  "tls_handshake domain skip_tls_verify sni_override =
     (case sni_override of Some sni \<Rightarrow> (sni, False) | None \<Rightarrow> (domain, \<not> skip_tls_verify))"

fun upgrade_outcome :: "nat \<Rightarrow> upgrade_result \<Rightarrow> WsConnectResult" where
  "upgrade_outcome conn BadUrl = Failed"
| "upgrade_outcome conn (Upgraded status) =
     (if status = 101 then Connected conn
      else if redirect_status status then Redirect status else Failed)"
| "upgrade_outcome conn (HttpError status) =
     (if redirect_status status then Redirect status else Failed)"
| "upgrade_outcome conn UpgradeError = Failed"
| "upgrade_outcome conn UpgradeElapsed = TimedOut"

definition connect_ws_with_path ::
    "'a net \<Rightarrow> str \<Rightarrow> str \<Rightarrow> str \<Rightarrow> bool \<Rightarrow> bool \<Rightarrow> nat \<Rightarrow> str option \<Rightarrow> bool \<Rightarrow>
     'a ws_state_scheme \<Rightarrow> WsConnectResult \<times> 'a ws_state_scheme" where
  "connect_ws_with_path env ip domain path request_binary_subprotocol skip_tls_verify timeout
       sni_override disable_tls s =
     (let port = (if disable_tls then 80 else 443);
          tls = (if disable_tls then None
                 else Some (tls_handshake domain skip_tls_verify sni_override));
          (ans, s) = dial_net env
            (WsDial ip port tls domain path request_binary_subprotocol timeout) s
      in case na_tcp ans of
           TcpTimedOut \<Rightarrow> (ConnectTimedOut, s)
         | TcpFailed \<Rightarrow> (Failed, s)
         | TcpOk \<Rightarrow> (upgrade_outcome (na_conn ans) (na_upgrade ans), s))"

definition connect_ws_with_outbound_mode ::
    "'a net \<Rightarrow> str \<Rightarrow> str \<Rightarrow> bool \<Rightarrow> nat \<Rightarrow> str option \<Rightarrow> bool \<Rightarrow>
     'a ws_state_scheme \<Rightarrow> WsConnectResult \<times> 'a ws_state_scheme" where
  "connect_ws_with_outbound_mode env ip domain skip_tls_verify timeout sni_override disable_tls s =
     connect_ws_with_path env ip domain (lit ''/apiws'') True skip_tls_verify timeout sni_override
       disable_tls s"

declare connect_ws_with_outbound_mode_def [simp]

section \<open>Direct WebSocket\<close>

record WsAttempt =
  at_ws :: "nat option"
  at_all_redirects :: bool
  at_upgrade_timed_out :: bool
  at_connect_timed_out :: bool

definition attempt_connected :: "nat \<Rightarrow> WsAttempt" where
  "attempt_connected ws =
     \<lparr>at_ws = Some ws, at_all_redirects = False, at_upgrade_timed_out = False,
      at_connect_timed_out = False\<rparr>"

text \<open>The loop over the hostnames; the attempt collects the flags of the failures.\<close>

fun ws_walk ::
    "'a net \<Rightarrow> str \<Rightarrow> bool \<Rightarrow> nat \<Rightarrow> str option \<Rightarrow> WsAttempt \<Rightarrow> str list \<Rightarrow> 'a ws_state_scheme \<Rightarrow>
     WsAttempt \<times> 'a ws_state_scheme" where
  "ws_walk env ip skip timeout sni acc [] s = (acc, s)"
| "ws_walk env ip skip timeout sni acc (domain # domains) s =
     (let (r, s) = connect_ws_with_outbound_mode env ip domain skip timeout sni False s
      in case r of
           Connected ws \<Rightarrow> (attempt_connected ws, s)
         | Redirect _ \<Rightarrow> ws_walk env ip skip timeout sni acc domains s
         | Failed \<Rightarrow>
             ws_walk env ip skip timeout sni (acc\<lparr>at_all_redirects := False\<rparr>) domains s
         | TimedOut \<Rightarrow>
             ws_walk env ip skip timeout sni
               (acc\<lparr>at_all_redirects := False, at_upgrade_timed_out := True\<rparr>) domains s
         | ConnectTimedOut \<Rightarrow>
             ws_walk env ip skip timeout sni
               (acc\<lparr>at_all_redirects := False, at_connect_timed_out := True\<rparr>) domains s)"

definition connect_ws_for_dc_with_outbound ::
    "'a net \<Rightarrow> str \<Rightarrow> nat \<Rightarrow> bool \<Rightarrow> bool \<Rightarrow> nat \<Rightarrow> str option \<Rightarrow> 'a ws_state_scheme \<Rightarrow>
     WsAttempt \<times> 'a ws_state_scheme" where
  "connect_ws_for_dc_with_outbound env ip dc is_media skip_tls_verify timeout sni_override s =
     ws_walk env ip skip_tls_verify timeout sni_override
       \<lparr>at_ws = None, at_all_redirects = True, at_upgrade_timed_out = False,
        at_connect_timed_out = False\<rparr>
       (ws_domains dc is_media) s"

section \<open>Cloudflare edges\<close>

record CfDialOpts =
  cd_cf_ips :: "ip_addr list"
  cd_disable_tls :: bool
  cd_fail_cooldown :: nat

text \<open>\<open>fetch_add\<close> on the rotation counter wraps at the pointer width.\<close>

definition cf_ip_start :: "nat \<Rightarrow> ip_addr list \<Rightarrow> 'a ws_state_scheme \<Rightarrow> nat \<times> 'a ws_state_scheme" where
  "cf_ip_start W ips s =
     (if length ips \<le> 1 then (0, s)
      else (ws_cf_ip_rotation s mod length ips,
            s\<lparr>ws_cf_ip_rotation := (ws_cf_ip_rotation s + 1) mod 2 ^ W\<rparr>))"

definition cf_ip_attempts ::
    "ip_addr list \<Rightarrow> nat \<Rightarrow> ip_addr cooldown_map \<Rightarrow> nat \<Rightarrow> (ip_addr \<Rightarrow> bool) \<Rightarrow> ip_addr list" where
  "cf_ip_attempts ips first cooldowns now uses_cooldown =
     (let is_cooling = (\<lambda>ip. uses_cooldown ip \<and> cooldown_active cooldowns ip now);
          all_cooling = list_all is_cooling ips;
          limit = (if all_cooling then 1 else length ips)
      in take limit (filter (\<lambda>ip. all_cooling \<or> \<not> is_cooling ip)
           (map (\<lambda>offset. ips ! ((first + offset) mod length ips)) [0..<length ips])))"

text \<open>The cooldown map of the mode in use.\<close>

definition edge_fail :: "bool \<Rightarrow> 'a ws_state_scheme \<Rightarrow> ip_addr cooldown_map" where
  "edge_fail disable_tls s = (if disable_tls then ws_edge_plaintext_fail s else ws_edge_tls_fail s)"

definition edge_fail_update ::
    "bool \<Rightarrow> (ip_addr cooldown_map \<Rightarrow> ip_addr cooldown_map) \<Rightarrow> 'a ws_state_scheme \<Rightarrow> 'a ws_state_scheme" where
  "edge_fail_update disable_tls f s =
     (if disable_tls then s\<lparr>ws_edge_plaintext_fail := f (ws_edge_plaintext_fail s)\<rparr>
      else s\<lparr>ws_edge_tls_fail := f (ws_edge_tls_fail s)\<rparr>)"

fun cf_edges ::
    "'a net \<Rightarrow> (str \<Rightarrow> nat \<Rightarrow> bool) \<Rightarrow> str \<Rightarrow> str \<Rightarrow> bool \<Rightarrow> bool \<Rightarrow> nat \<Rightarrow> CfDialOpts \<Rightarrow>
     WsConnectResult option \<Rightarrow> nat option \<Rightarrow> ip_addr list \<Rightarrow> 'a ws_state_scheme \<Rightarrow>
     WsConnectResult exec \<times> 'a ws_state_scheme" where
  "cf_edges env direct domain path binary skip timeout opts last_non_redirect last_redirect [] s =
     ((case last_non_redirect of
         Some r \<Rightarrow> Ret r
       | None \<Rightarrow> (case last_redirect of Some code \<Rightarrow> Ret (Redirect code) | None \<Rightarrow> Panic)), s)"
| "cf_edges env direct domain path binary skip timeout opts last_non_redirect last_redirect (ip # ips) s =
     (let port = (if cd_disable_tls opts then 80 else 443);
          clear = edge_fail_update (cd_disable_tls opts) (\<lambda>m. cooldown_clear m ip);
          (r, s) = connect_ws_with_path env ip domain path binary skip timeout None
                     (cd_disable_tls opts) s
      in case r of
           Connected ws \<Rightarrow> (Ret (Connected ws), clear s)
         | Redirect code \<Rightarrow>
             cf_edges env direct domain path binary skip timeout opts last_non_redirect (Some code)
               ips (clear s)
         | Failed \<Rightarrow>
             cf_edges env direct domain path binary skip timeout opts (Some Failed) last_redirect
               ips (clear s)
         | TimedOut \<Rightarrow>
             cf_edges env direct domain path binary skip timeout opts (Some TimedOut) last_redirect
               ips (clear s)
         | ConnectTimedOut \<Rightarrow>
             cf_edges env direct domain path binary skip timeout opts (Some ConnectTimedOut)
               last_redirect ips
               (if direct ip port
                then edge_fail_update (cd_disable_tls opts)
                       (\<lambda>m. cooldown_set m ip (ws_now s) (cd_fail_cooldown opts)) s
                else s))"

definition connect_cf_with_path ::
    "'a net \<Rightarrow> (str \<Rightarrow> nat \<Rightarrow> bool) \<Rightarrow> nat \<Rightarrow> str \<Rightarrow> str \<Rightarrow> bool \<Rightarrow> bool \<Rightarrow> nat \<Rightarrow> CfDialOpts \<Rightarrow>
     'a ws_state_scheme \<Rightarrow> WsConnectResult exec \<times> 'a ws_state_scheme" where
  "connect_cf_with_path env direct W domain path binary skip timeout opts s =
     (if cd_cf_ips opts = []
      then let (r, s) = connect_ws_with_path env domain domain path binary skip timeout None
                          (cd_disable_tls opts) s
           in (Ret r, s)
      else let (first, s) = cf_ip_start W (cd_cf_ips opts) s;
               port = (if cd_disable_tls opts then 80 else 443);
               attempts = cf_ip_attempts (cd_cf_ips opts) first (edge_fail (cd_disable_tls opts) s)
                            (ws_now s) (\<lambda>ip. direct ip port)
           in cf_edges env direct domain path binary skip timeout opts None None attempts s)"

section \<open>Cloudflare domains\<close>

record CfAttempts =
  ca_dc :: nat
  ca_domains :: "str list"
  ca_first_domain :: nat
  ca_next_ordinal :: nat
  ca_pending_retry :: "nat option"

definition with_offset :: "nat \<Rightarrow> str list \<Rightarrow> nat \<Rightarrow> CfAttempts" where
  "with_offset dc domains first_domain =
     \<lparr>ca_dc = dc, ca_domains = domains,
      ca_first_domain = (if domains = [] then 0 else first_domain mod length domains),
      ca_next_ordinal = 0, ca_pending_retry = None\<rparr>"

definition cf_hostname :: "CfAttempts \<Rightarrow> nat \<Rightarrow> str" where
  "cf_hostname a domain_index = cf_record (ca_dc a) (ca_domains a ! domain_index)"

definition rotated :: "CfAttempts \<Rightarrow> nat \<Rightarrow> nat" where
  "rotated a ordinal = (ca_first_domain a + ordinal) mod length (ca_domains a)"

function next_fresh :: "CfAttempts \<Rightarrow> str option \<times> CfAttempts" where
  "next_fresh a =
     (if ca_next_ordinal a < length (ca_domains a)
      then let ordinal = ca_next_ordinal a;
               a = a\<lparr>ca_next_ordinal := ordinal + 1\<rparr>;
               domain_index = rotated a ordinal
           in if list_ex (\<lambda>prior. ca_domains a ! rotated a prior = ca_domains a ! domain_index) [0..<ordinal]
              then next_fresh a
              else (Some (cf_hostname a domain_index), a\<lparr>ca_pending_retry := Some domain_index\<rparr>)
      else (None, a))"
  by auto
termination
  by (relation "measure (\<lambda>a. length (ca_domains a) - ca_next_ordinal a)") auto

declare next_fresh.simps [simp del]

definition next_domain :: "CfAttempts \<Rightarrow> str option \<times> CfAttempts" where
  "next_domain a =
     (case ca_pending_retry a of
        Some domain_index \<Rightarrow> (Some (cf_hostname a domain_index), a\<lparr>ca_pending_retry := None\<rparr>)
      | None \<Rightarrow> next_fresh a)"

definition note_timed_out :: "CfAttempts \<Rightarrow> CfAttempts" where
  "note_timed_out a = a\<lparr>ca_pending_retry := None\<rparr>"

text \<open>The number of attempts that may still follow.\<close>

definition attempts_left :: "CfAttempts \<Rightarrow> nat" where
  "attempts_left a =
     2 * (length (ca_domains a) - ca_next_ordinal a) + (if ca_pending_retry a = None then 0 else 1)"

lemma next_fresh_left:
  "ca_pending_retry a = None \<Longrightarrow> next_fresh a = (Some host, a') \<Longrightarrow> attempts_left a' < attempts_left a"
proof (induction a rule: next_fresh.induct)
  case (1 a)
  show ?case
  proof (cases "ca_next_ordinal a < length (ca_domains a)")
    case False
    with "1.prems" show ?thesis by (simp add: next_fresh.simps)
  next
    case True
    let ?b = "a\<lparr>ca_next_ordinal := ca_next_ordinal a + 1\<rparr>"
    show ?thesis
    proof (cases "list_ex (\<lambda>prior. ca_domains ?b ! rotated ?b prior =
        ca_domains ?b ! rotated ?b (ca_next_ordinal a)) [0..<ca_next_ordinal a]")
      case dup: True
      then have "next_fresh a = next_fresh ?b"
        using True by (subst next_fresh.simps) (simp add: Let_def)
      moreover have "attempts_left ?b < attempts_left a"
        using True by (simp add: attempts_left_def)
      ultimately show ?thesis
        using "1.IH" [OF True refl refl refl dup] "1.prems" by simp
    next
      case False
      then have "a' = ?b\<lparr>ca_pending_retry := Some (rotated ?b (ca_next_ordinal a))\<rparr>"
        using True "1.prems"(2) by (subst (asm) next_fresh.simps) (auto simp: Let_def)
      then show ?thesis
        using True "1.prems"(1) by (simp add: attempts_left_def)
    qed
  qed
qed

lemma next_domain_left: "next_domain a = (Some host, a') \<Longrightarrow> attempts_left a' < attempts_left a"
proof (cases "ca_pending_retry a")
  case (Some i)
  then show "next_domain a = (Some host, a') \<Longrightarrow> ?thesis"
    by (auto simp: next_domain_def attempts_left_def)
qed (simp add: next_domain_def next_fresh_left)

lemma note_timed_out_left: "attempts_left (note_timed_out a) \<le> attempts_left a"
  by (simp add: note_timed_out_def attempts_left_def)

function cf_connect_loop ::
    "'a net \<Rightarrow> (str \<Rightarrow> nat \<Rightarrow> bool) \<Rightarrow> nat \<Rightarrow> bool \<Rightarrow> nat \<Rightarrow> CfDialOpts \<Rightarrow> CfAttempts \<Rightarrow> bool \<Rightarrow>
     'a ws_state_scheme \<Rightarrow> (nat option \<times> str option \<times> bool) exec \<times> 'a ws_state_scheme" where
  "cf_connect_loop env direct W skip timeout opts attempts all_redirects s =
     (case next_domain attempts of
        (None, _) \<Rightarrow> (Ret (None, None, all_redirects), s)
      | (Some domain, attempts) \<Rightarrow>
          (case connect_cf_with_path env direct W domain (lit ''/apiws'') True skip timeout opts s of
             (Panic, s) \<Rightarrow> (Panic, s)
           | (Ret r, s) \<Rightarrow>
               (case r of
                  Connected ws \<Rightarrow> (Ret (Some ws, Some domain, False), s)
                | Redirect _ \<Rightarrow>
                    cf_connect_loop env direct W skip timeout opts attempts all_redirects s
                | Failed \<Rightarrow> cf_connect_loop env direct W skip timeout opts attempts False s
                | TimedOut \<Rightarrow>
                    cf_connect_loop env direct W skip timeout opts (note_timed_out attempts) False s
                | ConnectTimedOut \<Rightarrow>
                    cf_connect_loop env direct W skip timeout opts (note_timed_out attempts) False s)))"
  by pat_completeness auto
termination
proof (relation "measure (\<lambda>(_, _, _, _, _, _, a, _, _). attempts_left a)")
qed (auto dest!: next_domain_left [OF sym] intro: le_less_trans [OF note_timed_out_left])

declare cf_connect_loop.simps [simp del]

definition connect_cf_ws_for_dc_with_outbound_ordered ::
    "'a net \<Rightarrow> (str \<Rightarrow> nat \<Rightarrow> bool) \<Rightarrow> nat \<Rightarrow> nat \<Rightarrow> str list \<Rightarrow> bool \<Rightarrow> nat \<Rightarrow> nat \<Rightarrow> CfDialOpts \<Rightarrow>
     'a ws_state_scheme \<Rightarrow> (nat option \<times> str option \<times> bool) exec \<times> 'a ws_state_scheme" where
  "connect_cf_ws_for_dc_with_outbound_ordered env direct W dc cf_domains skip timeout first_domain opts s =
     cf_connect_loop env direct W skip timeout opts (with_offset dc cf_domains first_domain) True s"

definition connect_cf_record_with_outbound_opts ::
    "'a net \<Rightarrow> (str \<Rightarrow> nat \<Rightarrow> bool) \<Rightarrow> nat \<Rightarrow> str \<Rightarrow> bool \<Rightarrow> nat \<Rightarrow> CfDialOpts \<Rightarrow>
     'a ws_state_scheme \<Rightarrow> nat option exec \<times> 'a ws_state_scheme" where
  "connect_cf_record_with_outbound_opts env direct W cf_rec skip timeout opts s =
     (let (r, s) = connect_cf_with_path env direct W cf_rec (lit ''/apiws'') True skip timeout opts s
      in (exec_bind r (\<lambda>r. Ret (case r of Connected ws \<Rightarrow> Some ws | _ \<Rightarrow> None)), s))"

definition connect_cf_worker_ws_for_dc_with_outbound_opts ::
    "'a net \<Rightarrow> (str \<Rightarrow> nat \<Rightarrow> bool) \<Rightarrow> nat \<Rightarrow> str \<Rightarrow> str \<Rightarrow> nat \<Rightarrow> bool \<Rightarrow> bool \<Rightarrow> nat \<Rightarrow> CfDialOpts \<Rightarrow>
     'a ws_state_scheme \<Rightarrow> nat option exec \<times> 'a ws_state_scheme" where
  "connect_cf_worker_ws_for_dc_with_outbound_opts env direct W worker_domain dst dc is_media skip timeout opts s =
     (let path = cf_worker_path dst dc is_media;
          (r, s) = connect_cf_with_path env direct W worker_domain path False skip timeout opts s
      in (exec_bind r (\<lambda>r. Ret (case r of Connected ws \<Rightarrow> Some ws | _ \<Rightarrow> None)), s))"

section \<open>Entry points with fewer arguments\<close>

text \<open>
  The public functions that fill in arguments of those above. The ones without an
  outbound connector use the direct one, which reaches every host itself.
\<close>

definition cf_dial_default :: CfDialOpts where
  "cf_dial_default = \<lparr>cd_cf_ips = [], cd_disable_tls = False, cd_fail_cooldown = 0\<rparr>"

definition connect_ws_with_outbound ::
    "'a net \<Rightarrow> str \<Rightarrow> str \<Rightarrow> bool \<Rightarrow> nat \<Rightarrow> str option \<Rightarrow> 'a ws_state_scheme \<Rightarrow>
     WsConnectResult \<times> 'a ws_state_scheme" where
  "connect_ws_with_outbound env ip domain skip timeout sni_override s =
     connect_ws_with_outbound_mode env ip domain skip timeout sni_override False s"

definition connect_ws_direct ::
    "'a net \<Rightarrow> str \<Rightarrow> str \<Rightarrow> bool \<Rightarrow> nat \<Rightarrow> 'a ws_state_scheme \<Rightarrow>
     WsConnectResult \<times> 'a ws_state_scheme" where
  "connect_ws_direct env ip domain skip timeout s =
     connect_ws_with_outbound env ip domain skip timeout None s"

definition connect_ws_for_dc ::
    "'a net \<Rightarrow> str \<Rightarrow> nat \<Rightarrow> bool \<Rightarrow> bool \<Rightarrow> nat \<Rightarrow> 'a ws_state_scheme \<Rightarrow>
     (nat option \<times> bool) \<times> 'a ws_state_scheme" where
  "connect_ws_for_dc env ip dc is_media skip timeout s =
     (let (attempt, s) = connect_ws_for_dc_with_outbound env ip dc is_media skip timeout None s
      in ((at_ws attempt, at_all_redirects attempt), s))"

definition connect_cf_ws_for_dc_with_outbound_opts ::
    "'a net \<Rightarrow> (str \<Rightarrow> nat \<Rightarrow> bool) \<Rightarrow> nat \<Rightarrow> nat \<Rightarrow> str list \<Rightarrow> bool \<Rightarrow> nat \<Rightarrow> CfDialOpts \<Rightarrow>
     'a ws_state_scheme \<Rightarrow> (nat option \<times> str option \<times> bool) exec \<times> 'a ws_state_scheme" where
  "connect_cf_ws_for_dc_with_outbound_opts env direct W dc cf_domains skip timeout opts s =
     connect_cf_ws_for_dc_with_outbound_ordered env direct W dc cf_domains skip timeout 0 opts s"

definition connect_cf_ws_for_dc_with_outbound_mode ::
    "'a net \<Rightarrow> (str \<Rightarrow> nat \<Rightarrow> bool) \<Rightarrow> nat \<Rightarrow> nat \<Rightarrow> str list \<Rightarrow> bool \<Rightarrow> nat \<Rightarrow> bool \<Rightarrow>
     'a ws_state_scheme \<Rightarrow> (nat option \<times> str option \<times> bool) exec \<times> 'a ws_state_scheme" where
  "connect_cf_ws_for_dc_with_outbound_mode env direct W dc cf_domains skip timeout disable_tls s =
     connect_cf_ws_for_dc_with_outbound_opts env direct W dc cf_domains skip timeout
       (cf_dial_default\<lparr>cd_disable_tls := disable_tls\<rparr>) s"

definition connect_cf_ws_for_dc_with_outbound ::
    "'a net \<Rightarrow> (str \<Rightarrow> nat \<Rightarrow> bool) \<Rightarrow> nat \<Rightarrow> nat \<Rightarrow> str list \<Rightarrow> bool \<Rightarrow> nat \<Rightarrow>
     'a ws_state_scheme \<Rightarrow> (nat option \<times> str option \<times> bool) exec \<times> 'a ws_state_scheme" where
  "connect_cf_ws_for_dc_with_outbound env direct W dc cf_domains skip timeout s =
     connect_cf_ws_for_dc_with_outbound_opts env direct W dc cf_domains skip timeout cf_dial_default s"

definition connect_cf_ws_for_dc ::
    "'a net \<Rightarrow> nat \<Rightarrow> nat \<Rightarrow> str list \<Rightarrow> bool \<Rightarrow> nat \<Rightarrow>
     'a ws_state_scheme \<Rightarrow> (nat option \<times> str option \<times> bool) exec \<times> 'a ws_state_scheme" where
  "connect_cf_ws_for_dc env W dc cf_domains skip timeout s =
     connect_cf_ws_for_dc_with_outbound_mode env (\<lambda>_ _. True) W dc cf_domains skip timeout False s"

definition connect_cf_record_with_outbound ::
    "'a net \<Rightarrow> (str \<Rightarrow> nat \<Rightarrow> bool) \<Rightarrow> nat \<Rightarrow> str \<Rightarrow> bool \<Rightarrow> nat \<Rightarrow>
     'a ws_state_scheme \<Rightarrow> nat option exec \<times> 'a ws_state_scheme" where
  "connect_cf_record_with_outbound env direct W cf_rec skip timeout s =
     connect_cf_record_with_outbound_opts env direct W cf_rec skip timeout cf_dial_default s"

definition connect_cf_record_with_outbound_mode ::
    "'a net \<Rightarrow> (str \<Rightarrow> nat \<Rightarrow> bool) \<Rightarrow> nat \<Rightarrow> str \<Rightarrow> bool \<Rightarrow> nat \<Rightarrow> bool \<Rightarrow>
     'a ws_state_scheme \<Rightarrow> nat option exec \<times> 'a ws_state_scheme" where
  "connect_cf_record_with_outbound_mode env direct W cf_rec skip timeout disable_tls s =
     connect_cf_record_with_outbound_opts env direct W cf_rec skip timeout
       (cf_dial_default\<lparr>cd_disable_tls := disable_tls\<rparr>) s"

definition connect_cf_worker_ws_for_dc_with_outbound ::
    "'a net \<Rightarrow> (str \<Rightarrow> nat \<Rightarrow> bool) \<Rightarrow> nat \<Rightarrow> str \<Rightarrow> str \<Rightarrow> nat \<Rightarrow> bool \<Rightarrow> bool \<Rightarrow> nat \<Rightarrow>
     'a ws_state_scheme \<Rightarrow> nat option exec \<times> 'a ws_state_scheme" where
  "connect_cf_worker_ws_for_dc_with_outbound env direct W worker_domain dst dc is_media skip timeout s =
     connect_cf_worker_ws_for_dc_with_outbound_opts env direct W worker_domain dst dc is_media skip
       timeout cf_dial_default s"

definition connect_cf_worker_ws_for_dc_with_outbound_mode ::
    "'a net \<Rightarrow> (str \<Rightarrow> nat \<Rightarrow> bool) \<Rightarrow> nat \<Rightarrow> str \<Rightarrow> str \<Rightarrow> nat \<Rightarrow> bool \<Rightarrow> bool \<Rightarrow> nat \<Rightarrow> bool \<Rightarrow>
     'a ws_state_scheme \<Rightarrow> nat option exec \<times> 'a ws_state_scheme" where
  "connect_cf_worker_ws_for_dc_with_outbound_mode env direct W worker_domain dst dc is_media skip
       timeout disable_tls s =
     connect_cf_worker_ws_for_dc_with_outbound_opts env direct W worker_domain dst dc is_media skip
       timeout (cf_dial_default\<lparr>cd_disable_tls := disable_tls\<rparr>) s"

definition connect_cf_worker_ws_for_dc ::
    "'a net \<Rightarrow> nat \<Rightarrow> str \<Rightarrow> str \<Rightarrow> nat \<Rightarrow> bool \<Rightarrow> bool \<Rightarrow> nat \<Rightarrow>
     'a ws_state_scheme \<Rightarrow> nat option exec \<times> 'a ws_state_scheme" where
  "connect_cf_worker_ws_for_dc env W worker_domain dst dc is_media skip timeout s =
     connect_cf_worker_ws_for_dc_with_outbound_mode env (\<lambda>_ _. True) W worker_domain dst dc is_media
       skip timeout False s"

section \<open>What a connection has dialled\<close>

text \<open>
  Between two states of a connection: the dials made satisfy \<open>P\<close>. Nothing the
  environment does changes this.
\<close>

definition dialled :: "(dial \<Rightarrow> bool) \<Rightarrow> 'a ws_state_scheme \<Rightarrow> 'a ws_state_scheme \<Rightarrow> bool" where
  "dialled P s s' \<longleftrightarrow> (\<exists>ds. ws_trace s' = ws_trace s @ ds \<and> list_all P ds)"

named_theorems dial_intros \<open>dials of the connection functions\<close>

lemma dialled_refl [simp, intro]: "dialled P s s"
  by (simp add: dialled_def)

lemma dialled_trans [trans]: "dialled P s s' \<Longrightarrow> dialled P s' s'' \<Longrightarrow> dialled P s s''"
  by (auto simp: dialled_def)

lemma dialled_mono: "dialled P s s' \<Longrightarrow> (\<And>d. P d \<Longrightarrow> Q d) \<Longrightarrow> dialled Q s s'"
  by (auto simp: dialled_def list_all_iff)

lemma dialled_same_trace:
  "ws_trace s' = ws_trace s \<Longrightarrow> dialled P s s'"
  by (simp add: dialled_def)

lemma dialled_trace_right:
  "dialled P s s' \<Longrightarrow> ws_trace s'' = ws_trace s' \<Longrightarrow> dialled P s s''"
  by (simp add: dialled_def)

lemma dial_net_trace: "dial_net env d s = (ans, s') \<Longrightarrow> ws_trace s' = ws_trace s @ [d]"
  by (auto simp: dial_net_def split: prod.splits)

text \<open>The one dial of an attempt.\<close>

definition ws_dial :: "str \<Rightarrow> str \<Rightarrow> str \<Rightarrow> bool \<Rightarrow> bool \<Rightarrow> nat \<Rightarrow> str option \<Rightarrow> bool \<Rightarrow> dial" where
  "ws_dial ip domain path binary skip timeout sni disable_tls =
     WsDial ip (if disable_tls then 80 else 443)
       (if disable_tls then None else Some (tls_handshake domain skip sni)) domain path binary timeout"

lemma connect_ws_with_path_trace:
  "connect_ws_with_path env ip domain path binary skip timeout sni disable_tls s = (r, s') \<Longrightarrow>
   ws_trace s' = ws_trace s @ [ws_dial ip domain path binary skip timeout sni disable_tls]"
  by (auto simp: connect_ws_with_path_def ws_dial_def Let_def dest!: dial_net_trace
      split: prod.splits tcp_result.splits)

lemma ws_walk_dials:
  assumes "\<And>domain. domain \<in> set domains \<Longrightarrow> P (ws_dial ip domain (lit ''/apiws'') True skip timeout sni False)"
    and "ws_walk env ip skip timeout sni acc domains s = (a, s')"
  shows "dialled P s s'"
  using assms
proof (induction domains arbitrary: acc s)
  case (Cons domain domains)
  obtain r s1 where step: "connect_ws_with_path env ip domain (lit ''/apiws'') True skip timeout sni False s = (r, s1)"
    by fastforce
  then have "dialled P s s1"
    using Cons.prems(1) connect_ws_with_path_trace [OF step] by (auto simp: dialled_def)
  moreover have "dialled P s1 s'"
    using Cons step by (auto split: WsConnectResult.splits)
  ultimately show ?case by (rule dialled_trans)
qed simp

lemma connect_ws_for_dc_grows:
  assumes "connect_ws_for_dc_with_outbound env ip dc is_media skip timeout sni s = (a, s')"
  shows "length (ws_trace s) < length (ws_trace s')"
proof -
  obtain h hs where hosts: "ws_domains dc is_media = h # hs"
    by (cases is_media) (auto simp: ws_domains_def ordered_records_def Let_def)
  obtain r s1 where step: "connect_ws_with_path env ip h (lit ''/apiws'') True skip timeout sni False s = (r, s1)"
    by fastforce
  have "\<exists>acc. ws_walk env ip skip timeout sni acc hs s1 = (a, s')" if "\<nexists>ws. r = Connected ws"
    using assms step hosts that by (cases r) (auto simp: connect_ws_for_dc_with_outbound_def)
  moreover have "s' = s1" if "r = Connected ws" for ws
    using assms step hosts that by (simp add: connect_ws_for_dc_with_outbound_def)
  ultimately have "dialled (\<lambda>_. True) s1 s'"
    using ws_walk_dials [of hs "\<lambda>_. True"] by fastforce
  then show ?thesis
    using connect_ws_with_path_trace [OF step] by (auto simp: dialled_def)
qed

lemma edge_fail_update_trace [simp]: "ws_trace (edge_fail_update b f s) = ws_trace s"
  by (simp add: edge_fail_update_def)

lemma cf_ip_start_trace: "cf_ip_start W ips s = (n, s') \<Longrightarrow> ws_trace s' = ws_trace s"
  by (auto simp: cf_ip_start_def split: if_splits)

text \<open>A dial towards a Cloudflare hostname: the real name as server name and host.\<close>

definition cf_dial :: "str \<Rightarrow> str \<Rightarrow> CfDialOpts \<Rightarrow> dial \<Rightarrow> bool" where
  "cf_dial domain path opts d \<longleftrightarrow>
     (\<exists>host binary skip timeout.
        d = ws_dial host domain path binary skip timeout None (cd_disable_tls opts) \<and>
        (if cd_cf_ips opts = [] then host = domain else host \<in> set (cd_cf_ips opts)))"

text \<open>The edges are dialled in order up to the first that connects.\<close>

lemma cf_edges_walk:
  assumes "cf_edges env direct domain path binary skip timeout opts lnr lr ips s = (r, s')"
  shows "\<exists>n. ws_trace s' = ws_trace s @
           map (\<lambda>ip. ws_dial ip domain path binary skip timeout None (cd_disable_tls opts)) (take n ips) \<and>
         (n = length ips \<or> 0 < n \<and> (\<exists>ws. r = Ret (Connected ws)))"
  using assms
proof (induction ips arbitrary: lnr lr s)
  case (Cons ip ips)
  let ?to = "\<lambda>ip. ws_dial ip domain path binary skip timeout None (cd_disable_tls opts)"
  obtain r1 s1 where step: "connect_ws_with_path env ip domain path binary skip timeout None
      (cd_disable_tls opts) s = (r1, s1)"
    by fastforce
  note tr = connect_ws_with_path_trace [OF step]
  show ?case
  proof (cases "\<exists>ws. r1 = Connected ws")
    case True
    then show ?thesis using Cons.prems step tr by (intro exI [of _ 1]) auto
  next
    case False
    then obtain s2 lnr' lr' where "ws_trace s2 = ws_trace s1"
      and "cf_edges env direct domain path binary skip timeout opts lnr' lr' ips s2 = (r, s')"
      using Cons.prems step by (cases r1) (auto simp: Let_def intro: that [rotated] split: if_splits)
    with Cons.IH [of lnr' lr' s2] obtain n where
      "ws_trace s' = ws_trace s1 @ map ?to (take n ips)"
      "n = length ips \<or> 0 < n \<and> (\<exists>ws. r = Ret (Connected ws))"
      by auto
    then show ?thesis using tr by (intro exI [of _ "Suc n"]) auto
  qed
qed (auto split: option.splits)

section \<open>Choice of the edges\<close>

definition edge_cooling :: "ip_addr cooldown_map \<Rightarrow> nat \<Rightarrow> (ip_addr \<Rightarrow> bool) \<Rightarrow> ip_addr \<Rightarrow> bool" where
  "edge_cooling m now uses_cooldown ip \<longleftrightarrow> uses_cooldown ip \<and> cooldown_active m ip now"

lemma cf_ip_attempts_rotate:
  "cf_ip_attempts ips first m now uses_cooldown =
     (if list_all (edge_cooling m now uses_cooldown) ips then take 1 (rotate first ips)
      else filter (\<lambda>ip. \<not> edge_cooling m now uses_cooldown ip) (rotate first ips))"
proof -
  have "map (\<lambda>offset. ips ! ((first + offset) mod length ips)) [0..<length ips] = rotate first ips"
    by (rule nth_equalityI) (simp_all add: nth_rotate)
  moreover have "length (filter p (rotate first ips)) \<le> length ips" for p
    by (metis length_filter_le length_rotate)
  moreover have "(\<lambda>ip. uses_cooldown ip \<and> cooldown_active m ip now) = edge_cooling m now uses_cooldown"
    by (simp add: fun_eq_iff edge_cooling_def)
  ultimately show ?thesis by (simp add: cf_ip_attempts_def)
qed

lemma cf_ip_attempts_some_usable:
  assumes "\<exists>ip \<in> set ips. \<not> edge_cooling m now uses_cooldown ip"
  shows "set (cf_ip_attempts ips first m now uses_cooldown) =
           {ip \<in> set ips. \<not> edge_cooling m now uses_cooldown ip}"
  using assms by (auto simp: cf_ip_attempts_rotate list_all_iff)

lemma cf_ip_attempts_all_cooling:
  assumes "ips \<noteq> []" and "\<forall>ip \<in> set ips. edge_cooling m now uses_cooldown ip"
  shows "cf_ip_attempts ips first m now uses_cooldown = [ips ! (first mod length ips)]"
  using assms
  by (simp add: cf_ip_attempts_rotate list_all_iff take_Suc rotate_is_Nil_conv hd_rotate_conv_nth)

lemma cf_ip_attempts_subset: "set (cf_ip_attempts ips first m now uses_cooldown) \<subseteq> set ips"
  by (auto simp: cf_ip_attempts_rotate dest: in_set_takeD)

lemma cf_ip_attempts_nonempty: "ips \<noteq> [] \<Longrightarrow> cf_ip_attempts ips first m now uses_cooldown \<noteq> []"
  by (auto simp: cf_ip_attempts_rotate list_all_iff filter_empty_conv)

lemma cf_edges_returns:
  "ips \<noteq> [] \<or> lnr \<noteq> None \<or> lr \<noteq> None \<Longrightarrow>
   fst (cf_edges env direct domain path binary skip timeout opts lnr lr ips s) \<noteq> Panic"
proof (induction ips arbitrary: lnr lr s)
  case Nil
  then show ?case by (auto split: option.splits)
next
  case (Cons ip ips)
  then show ?case by (simp add: Let_def split: prod.split WsConnectResult.split)
qed

lemma connect_cf_with_path_returns:
  "fst (connect_cf_with_path env direct W domain path binary skip timeout opts s) \<noteq> Panic"
  by (simp add: connect_cf_with_path_def cf_edges_returns cf_ip_attempts_nonempty Let_def
      split: prod.split)




lemma connect_cf_with_path_dials:
  assumes "connect_cf_with_path env direct W domain path binary skip timeout opts s = (r, s')"
  shows "dialled (cf_dial domain path opts) s s'"
proof (cases "cd_cf_ips opts = []")
  case True
  then show ?thesis
    using assms
    by (fastforce simp: connect_cf_with_path_def dialled_def cf_dial_def
        dest: connect_ws_with_path_trace split: prod.splits)
next
  case False
  obtain n s1 where start: "cf_ip_start W (cd_cf_ips opts) s = (n, s1)"
    by fastforce
  define ips where "ips = cf_ip_attempts (cd_cf_ips opts) n (edge_fail (cd_disable_tls opts) s1)
    (ws_now s1) (\<lambda>ip. direct ip (if cd_disable_tls opts then 80 else 443))"
  have "cf_edges env direct domain path binary skip timeout opts None None ips s1 = (r, s')"
    using assms False start by (simp add: connect_cf_with_path_def ips_def)
  from cf_edges_walk [OF this] obtain k where tr: "ws_trace s' = ws_trace s1 @
      map (\<lambda>ip. ws_dial ip domain path binary skip timeout None (cd_disable_tls opts)) (take k ips)"
    by blast
  have "ip \<in> set (cd_cf_ips opts)" if "ip \<in> set (take k ips)" for ip
    using in_set_takeD [OF that] unfolding ips_def by (rule subsetD [OF cf_ip_attempts_subset])
  then show ?thesis
    using False tr cf_ip_start_trace [OF start]
    by (auto simp: dialled_def list_all_iff cf_dial_def)
qed

text \<open>Every attempt makes a dial.\<close>

lemma connect_cf_with_path_grows:
  assumes "connect_cf_with_path env direct W domain path binary skip timeout opts s = (r, s')"
  shows "length (ws_trace s) < length (ws_trace s')"
proof (cases "cd_cf_ips opts = []")
  case True
  then show ?thesis
    using assms by (auto simp: connect_cf_with_path_def dest!: connect_ws_with_path_trace split: prod.splits)
next
  case False
  obtain n s1 where start: "cf_ip_start W (cd_cf_ips opts) s = (n, s1)"
    by fastforce
  define ips where "ips = cf_ip_attempts (cd_cf_ips opts) n (edge_fail (cd_disable_tls opts) s1)
    (ws_now s1) (\<lambda>ip. direct ip (if cd_disable_tls opts then 80 else 443))"
  have "cf_edges env direct domain path binary skip timeout opts None None ips s1 = (r, s')"
    using assms False start by (simp add: connect_cf_with_path_def ips_def)
  moreover have "ips \<noteq> []"
    using False by (simp add: ips_def cf_ip_attempts_nonempty)
  ultimately show ?thesis
    using cf_edges_walk [of env direct domain path binary skip timeout opts None None ips s1 r s']
      cf_ip_start_trace [OF start] by auto
qed

section \<open>The retry policy of the Cloudflare domains\<close>

text \<open>The domains in the order of the rotation, each at its first occurrence only.\<close>

definition fresh_ordinal :: "CfAttempts \<Rightarrow> nat \<Rightarrow> bool" where
  "fresh_ordinal a ordinal \<longleftrightarrow>
     list_all (\<lambda>prior. ca_domains a ! rotated a prior \<noteq> ca_domains a ! rotated a ordinal) [0..<ordinal]"

definition fresh_hosts :: "CfAttempts \<Rightarrow> str list" where
  "fresh_hosts a =
     map (\<lambda>ordinal. cf_hostname a (rotated a ordinal))
       (filter (fresh_ordinal a) [ca_next_ordinal a..<length (ca_domains a)])"

lemma attempts_update_simps [simp]:
  "rotated (a\<lparr>ca_next_ordinal := n\<rparr>) = rotated a" "rotated (a\<lparr>ca_pending_retry := p\<rparr>) = rotated a"
  "cf_hostname (a\<lparr>ca_next_ordinal := n\<rparr>) = cf_hostname a"
  "cf_hostname (a\<lparr>ca_pending_retry := p\<rparr>) = cf_hostname a"
  "fresh_ordinal (a\<lparr>ca_next_ordinal := n\<rparr>) = fresh_ordinal a"
  "fresh_ordinal (a\<lparr>ca_pending_retry := p\<rparr>) = fresh_ordinal a"
  by (simp_all add: rotated_def cf_hostname_def fresh_ordinal_def fun_eq_iff)

lemma fresh_hosts_pending [simp]: "fresh_hosts (a\<lparr>ca_pending_retry := p\<rparr>) = fresh_hosts a"
  by (simp add: fresh_hosts_def)

lemma next_fresh_hosts:
  assumes "ca_pending_retry a = None"
  shows "(fresh_hosts a = [] \<and> fst (next_fresh a) = None) \<or>
         (\<exists>i b. next_fresh a = (Some (cf_hostname a i), b\<lparr>ca_pending_retry := Some i\<rparr>) \<and>
            ca_pending_retry b = None \<and> fresh_hosts a = cf_hostname a i # fresh_hosts b \<and>
            cf_hostname b = cf_hostname a)"
  using assms
proof (induction a rule: next_fresh.induct)
  case (1 a)
  let ?n = "ca_next_ordinal a"
  show ?case
  proof (cases "?n < length (ca_domains a)")
    case False
    then show ?thesis by (simp add: next_fresh.simps fresh_hosts_def)
  next
    case True
    let ?b = "a\<lparr>ca_next_ordinal := ?n + 1\<rparr>"
    have upt: "[?n..<length (ca_domains a)] = ?n # [Suc ?n..<length (ca_domains a)]"
      using True by (rule upt_conv_Cons)
    have dup: "list_ex (\<lambda>prior. ca_domains ?b ! rotated ?b prior = ca_domains ?b ! rotated ?b ?n)
        [0..<?n] \<longleftrightarrow> \<not> fresh_ordinal a ?n"
      by (auto simp: fresh_ordinal_def list_ex_iff list_all_iff)
    show ?thesis
    proof (cases "fresh_ordinal a ?n")
      case fresh: True
      then have "next_fresh a = (Some (cf_hostname a (rotated a ?n)),
          ?b\<lparr>ca_pending_retry := Some (rotated a ?n)\<rparr>)"
        using True dup by (subst next_fresh.simps) (simp add: Let_def)
      moreover have "fresh_hosts a = cf_hostname a (rotated a ?n) # fresh_hosts ?b"
        using fresh upt by (simp add: fresh_hosts_def)
      ultimately show ?thesis
        using "1.prems" by (intro disjI2 exI [of _ "rotated a ?n"] exI [of _ ?b]) simp
    next
      case stale: False
      then have "next_fresh a = next_fresh ?b"
        using True dup by (subst next_fresh.simps) (simp add: Let_def)
      moreover have "fresh_hosts a = fresh_hosts ?b"
        using stale upt by (simp add: fresh_hosts_def)
      ultimately show ?thesis
        using "1.IH" [OF True refl refl refl] dup stale "1.prems" by simp
    qed
  qed
qed

section \<open>Scripted networks\<close>

text \<open>
  A run of a connection seen from its answers: the \<open>k\<close>-th dial of the connection is answered
  by \<open>script k\<close>, whatever the network does to the shared state meanwhile.
\<close>

definition answers :: "(nat \<Rightarrow> net_answer) \<Rightarrow> 'a net \<Rightarrow> bool" where
  "answers script env \<longleftrightarrow> (\<forall>d s. fst (env d s) = script (length (ws_trace s)))"

definition outcome_at :: "(nat \<Rightarrow> net_answer) \<Rightarrow> nat \<Rightarrow> WsConnectResult" where
  "outcome_at script k =
     (case na_tcp (script k) of
        TcpTimedOut \<Rightarrow> ConnectTimedOut
      | TcpFailed \<Rightarrow> Failed
      | TcpOk \<Rightarrow> upgrade_outcome (na_conn (script k)) (na_upgrade (script k)))"

definition is_redirect :: "WsConnectResult \<Rightarrow> bool" where
  "is_redirect r \<longleftrightarrow> (case r of Redirect _ \<Rightarrow> True | _ \<Rightarrow> False)"

lemma is_redirect_simps [simp]:
  "is_redirect (Redirect c)" "\<not> is_redirect (Connected w)" "\<not> is_redirect Failed"
  "\<not> is_redirect TimedOut" "\<not> is_redirect ConnectTimedOut"
  by (simp_all add: is_redirect_def)

lemma dial_net_scripted:
  "answers script env \<Longrightarrow> dial_net env d s = (ans, s') \<Longrightarrow> ans = script (length (ws_trace s))"
  by (auto simp: answers_def dial_net_def split: prod.splits) (metis fst_conv)

lemma connect_ws_with_path_scripted:
  assumes "answers script env"
    and "connect_ws_with_path env ip domain path binary skip timeout sni off s = (r, s')"
  shows "r = outcome_at script (length (ws_trace s))"
    and "ws_trace s' = ws_trace s @ [ws_dial ip domain path binary skip timeout sni off]"
    and "length (ws_trace s') = Suc (length (ws_trace s))"
proof -
  show "r = outcome_at script (length (ws_trace s))"
    using assms(2)
    by (auto simp: connect_ws_with_path_def outcome_at_def Let_def
        dest!: dial_net_scripted [OF assms(1)] split: prod.splits tcp_result.splits)
qed (simp_all add: connect_ws_with_path_trace [OF assms(2)])

text \<open>
  C32: the walk over the two hostnames of a data centre. They are dialled in the order of the
  traffic kind, the second only if the first did not connect, and the flags of a failed attempt
  say exactly how the two dials failed.
\<close>

theorem ws_attempt_flags:
  fixes s :: "'a ws_state_scheme"
  assumes "answers script env"
    and "connect_ws_for_dc_with_outbound env ip dc is_media skip timeout sni s = (attempt, s')"
  defines "k \<equiv> length (ws_trace s)"
  defines "r1 \<equiv> outcome_at script k" and "r2 \<equiv> outcome_at script (Suc k)"
  defines "to \<equiv> \<lambda>host. ws_dial ip host (lit ''/apiws'') True skip timeout sni False"
  shows "attempt =
           (case r1 of
              Connected ws \<Rightarrow> attempt_connected ws
            | _ \<Rightarrow>
              (case r2 of
                 Connected ws \<Rightarrow> attempt_connected ws
               | _ \<Rightarrow> \<lparr>at_ws = None, at_all_redirects = (is_redirect r1 \<and> is_redirect r2),
                       at_upgrade_timed_out = (TimedOut \<in> {r1, r2}),
                       at_connect_timed_out = (ConnectTimedOut \<in> {r1, r2})\<rparr>)) \<and>
         ws_trace s' = ws_trace s @ map to (take (case r1 of Connected _ \<Rightarrow> 1 | _ \<Rightarrow> 2) (ws_domains dc is_media))"
proof -
  obtain h1 h2 where hosts: "ws_domains dc is_media = [h1, h2]"
    by (cases is_media) (auto simp: ws_domains_def ordered_records_def Let_def)
  obtain x1 s1 where step1: "connect_ws_with_path env ip h1 (lit ''/apiws'') True skip timeout sni False s = (x1, s1)"
    by fastforce
  obtain x2 s2 where step2: "connect_ws_with_path env ip h2 (lit ''/apiws'') True skip timeout sni False s1 = (x2, s2)"
    by fastforce
  note first = connect_ws_with_path_scripted [OF assms(1) step1]
  note second = connect_ws_with_path_scripted [OF assms(1) step2]
  have r: "r1 = x1" "r2 = x2"
    using first second by (simp_all add: r1_def r2_def k_def)
  show ?thesis
    using assms(2) step1 step2 first(2) second(2)
    by (cases x1; cases x2)
      (auto simp: connect_ws_for_dc_with_outbound_def hosts r to_def attempt_connected_def)
qed

text \<open>The first occurrences of a list, in order.\<close>

lemma first_occurrences:
  "map ((!) xs) (filter (\<lambda>i. xs ! i \<notin> set (take i xs)) [0..<length xs]) = rev (remdups (rev xs))"
proof (induction xs rule: rev_induct)
  case (snoc x xs)
  have "map ((!) (xs @ [x])) (filter (\<lambda>i. (xs @ [x]) ! i \<notin> set (take i (xs @ [x]))) [0..<length xs]) =
      map ((!) xs) (filter (\<lambda>i. xs ! i \<notin> set (take i xs)) [0..<length xs])"
    by (rule map_cong) (auto simp: nth_append intro!: filter_cong)
  with snoc show ?case by simp
qed simp

lemma fresh_hosts_new:
  "fresh_hosts (with_offset dc domains first) =
     map (cf_record dc) (rev (remdups (rev (rotate first domains))))"
proof -
  let ?a = "with_offset dc domains first" and ?xs = "rotate first domains"
  have at: "domains ! rotated ?a i = ?xs ! i" if "i < length domains" for i
    using that by (auto simp: nth_rotate rotated_def with_offset_def mod_add_left_eq)
  have "fresh_ordinal ?a i \<longleftrightarrow> ?xs ! i \<notin> set (take i ?xs)" if "i < length domains" for i
    using that at by (auto simp: fresh_ordinal_def list_all_iff in_set_conv_nth with_offset_def)
  then have "filter (fresh_ordinal ?a) [0..<length domains] =
      filter (\<lambda>i. ?xs ! i \<notin> set (take i ?xs)) [0..<length ?xs]"
    by (auto intro!: filter_cong)
  moreover have "cf_hostname ?a (rotated ?a i) = cf_record dc (?xs ! i)" if "i < length domains" for i
    using at [OF that] by (simp add: cf_hostname_def) (simp add: with_offset_def)
  ultimately have "fresh_hosts ?a = map (\<lambda>i. cf_record dc (?xs ! i))
      (filter (\<lambda>i. ?xs ! i \<notin> set (take i ?xs)) [0..<length ?xs])"
    by (auto simp: fresh_hosts_def with_offset_def)
  also have "\<dots> = map (cf_record dc) (rev (remdups (rev ?xs)))"
    by (simp add: first_occurrences [symmetric])
  finally show ?thesis .
qed

section \<open>The Cloudflare connect loop follows the policy\<close>

text \<open>
  The policy as a reference: each host is tried, and once more unless the first attempt ran out
  the clock. It returns the hosts dialled and the result of the loop.
\<close>

fun cf_reference ::
    "(nat \<Rightarrow> WsConnectResult) \<Rightarrow> nat \<Rightarrow> bool \<Rightarrow> str list \<Rightarrow> str list \<times> nat option \<times> str option \<times> bool" where
  "cf_reference out k redirects [] = ([], None, None, redirects)"
| "cf_reference out k redirects (h # hs) =
     (case out k of
        Connected ws \<Rightarrow> ([h], Some ws, Some h, False)
      | TimedOut \<Rightarrow> map_prod ((@) [h]) id (cf_reference out (k + 1) False hs)
      | ConnectTimedOut \<Rightarrow> map_prod ((@) [h]) id (cf_reference out (k + 1) False hs)
      | _ \<Rightarrow>
        (case out (k + 1) of
           Connected ws \<Rightarrow> ([h, h], Some ws, Some h, False)
         | _ \<Rightarrow> map_prod ((@) [h, h]) id
                (cf_reference out (k + 2)
                   (redirects \<and> is_redirect (out k) \<and> is_redirect (out (k + 1))) hs)))"

lemma ws_dial_simps [simp]:
  "dl_http_host (ws_dial ip domain path binary skip timeout sni off) = domain"
  "dl_host (ws_dial ip domain path binary skip timeout sni off) = ip"
  by (simp_all add: ws_dial_def)

text \<open>Without preferred edges every attempt is one dial to the record.\<close>

lemma connect_cf_with_path_scripted:
  assumes "answers script env" and "cd_cf_ips opts = []"
  obtains s' where "connect_cf_with_path env direct W domain path binary skip timeout opts s =
      (Ret (outcome_at script (length (ws_trace s))), s')"
    and "ws_trace s' = ws_trace s @ [ws_dial domain domain path binary skip timeout None (cd_disable_tls opts)]"
proof -
  obtain r s' where step: "connect_ws_with_path env domain domain path binary skip timeout None (cd_disable_tls opts) s = (r, s')"
    by fastforce
  show thesis
    using that [of s'] connect_ws_with_path_scripted [OF assms(1) step] step assms(2)
    by (simp add: connect_cf_with_path_def)
qed

text \<open>One round of the loop, by the outcome of its attempt.\<close>

lemma cf_connect_loop_round:
  fixes s :: "'a ws_state_scheme"
  assumes "answers script env" and "cd_cf_ips opts = []"
    and "next_domain a = (Some host, b)"
  defines "r \<equiv> outcome_at script (length (ws_trace s))"
  obtains s' where "ws_trace s' = ws_trace s @ [ws_dial host host (lit ''/apiws'') True skip timeout None (cd_disable_tls opts)]"
    and "cf_connect_loop env direct W skip timeout opts a redirects s =
      (case r of
         Connected ws \<Rightarrow> (Ret (Some ws, Some host, False), s')
       | Redirect _ \<Rightarrow> cf_connect_loop env direct W skip timeout opts b redirects s'
       | Failed \<Rightarrow> cf_connect_loop env direct W skip timeout opts b False s'
       | _ \<Rightarrow> cf_connect_loop env direct W skip timeout opts (note_timed_out b) False s')"
proof -
  obtain s' where step: "connect_cf_with_path env direct W host (lit ''/apiws'') True skip timeout opts s = (Ret r, s')"
    and tr: "ws_trace s' = ws_trace s @ [ws_dial host host (lit ''/apiws'') True skip timeout None (cd_disable_tls opts)]"
    using connect_cf_with_path_scripted [OF assms(1,2)] r_def by metis
  show thesis
    by (rule that [OF tr], subst cf_connect_loop.simps)
      (simp add: assms(3) step split: WsConnectResult.split)
qed

text \<open>The first fresh host takes one or two rounds.\<close>

lemma next_domain_Cons:
  assumes "ca_pending_retry a = None" and "fresh_hosts a = h # hs"
  obtains b i where "next_domain a = (Some h, b\<lparr>ca_pending_retry := Some i\<rparr>)"
    and "next_domain (b\<lparr>ca_pending_retry := Some i\<rparr>) = (Some h, b)"
    and "ca_pending_retry b = None" and "fresh_hosts b = hs" and "note_timed_out b = b"
    and "note_timed_out (b\<lparr>ca_pending_retry := Some i\<rparr>) = b"
proof -
  obtain i b where a: "next_fresh a = (Some (cf_hostname a i), b\<lparr>ca_pending_retry := Some i\<rparr>)"
    and b: "ca_pending_retry b = None" "cf_hostname b = cf_hostname a"
    and hosts: "fresh_hosts a = cf_hostname a i # fresh_hosts b"
    using next_fresh_hosts [OF assms(1)] assms(2) by auto
  moreover have "b\<lparr>ca_pending_retry := None\<rparr> = b"
    using b(1) by (cases b) simp
  ultimately show thesis
    using assms by (intro that [of i b]) (simp_all add: next_domain_def note_timed_out_def)
qed

lemma cf_connect_loop_reference:
  fixes s :: "'a ws_state_scheme"
  assumes "answers script env" and "cd_cf_ips opts = []"
    and "ca_pending_retry a = None"
  shows "\<exists>hosts result.
           cf_reference (outcome_at script) (length (ws_trace s)) redirects (fresh_hosts a) = (hosts, result) \<and>
           fst (cf_connect_loop env direct W skip timeout opts a redirects s) = Ret result \<and>
           ws_trace (snd (cf_connect_loop env direct W skip timeout opts a redirects s)) =
             ws_trace s @ map (\<lambda>h. ws_dial h h (lit ''/apiws'') True skip timeout None (cd_disable_tls opts)) hosts"
  using assms(3)
proof (induction "fresh_hosts a" arbitrary: a redirects s)
  case Nil
  then have "fst (next_domain a) = None" using next_fresh_hosts [of a] by (auto simp: next_domain_def)
  then obtain b where none: "next_domain a = (None, b)" by (cases "next_domain a") auto
  show ?case
    using Nil by (subst (1 2) cf_connect_loop.simps) (simp add: none)
next
  case (Cons h hs)
  let ?loop = "cf_connect_loop env direct W skip timeout opts"
  let ?d = "ws_dial h h (lit ''/apiws'') True skip timeout None (cd_disable_tls opts)"
  obtain b i where first: "next_domain a = (Some h, b\<lparr>ca_pending_retry := Some i\<rparr>)"
    and second: "next_domain (b\<lparr>ca_pending_retry := Some i\<rparr>) = (Some h, b)"
    and b: "ca_pending_retry b = None" "fresh_hosts b = hs" "note_timed_out b = b"
      "note_timed_out (b\<lparr>ca_pending_retry := Some i\<rparr>) = b"
    using next_domain_Cons [OF Cons.prems Cons.hyps(2) [symmetric]] by metis
  let ?b1 = "b\<lparr>ca_pending_retry := Some i\<rparr>"
  obtain s1 where s1: "ws_trace s1 = ws_trace s @ [?d]"
    and loop1: "?loop a redirects s =
      (case outcome_at script (length (ws_trace s)) of
         Connected ws \<Rightarrow> (Ret (Some ws, Some h, False), s1)
       | Redirect _ \<Rightarrow> ?loop ?b1 redirects s1
       | Failed \<Rightarrow> ?loop ?b1 False s1
       | _ \<Rightarrow> ?loop b False s1)"
    using cf_connect_loop_round [OF assms(1,2) first, of s skip timeout direct W redirects] b(4) by metis
  have round2: "\<exists>s2. ws_trace s2 = ws_trace s1 @ [?d] \<and> ?loop ?b1 red s1 =
      (case outcome_at script (Suc (length (ws_trace s))) of
         Connected ws \<Rightarrow> (Ret (Some ws, Some h, False), s2)
       | Redirect _ \<Rightarrow> ?loop b red s2
       | Failed \<Rightarrow> ?loop b False s2
       | _ \<Rightarrow> ?loop b False s2)" for red
    using cf_connect_loop_round [OF assms(1,2) second, of s1 skip timeout direct W red] b(3) s1
    by (metis length_append_singleton)
  note IH = Cons.hyps(1) [OF b(2) [symmetric] b(1)]
  show ?case
  proof (cases "outcome_at script (length (ws_trace s))")
    case (Redirect c)
    obtain s2 where "ws_trace s2 = ws_trace s1 @ [?d]"
      and "?loop ?b1 redirects s1 = (case outcome_at script (Suc (length (ws_trace s))) of
         Connected ws \<Rightarrow> (Ret (Some ws, Some h, False), s2)
       | Redirect _ \<Rightarrow> ?loop b redirects s2 | Failed \<Rightarrow> ?loop b False s2 | _ \<Rightarrow> ?loop b False s2)"
      using round2 by blast
    with Redirect show ?thesis
      using IH [of s2 redirects] IH [of s2 False] s1 loop1 Cons.hyps(2) [symmetric]
      by (cases "outcome_at script (Suc (length (ws_trace s)))") (auto simp: b(2))
  next
    case Failed
    obtain s2 where "ws_trace s2 = ws_trace s1 @ [?d]"
      and "?loop ?b1 False s1 = (case outcome_at script (Suc (length (ws_trace s))) of
         Connected ws \<Rightarrow> (Ret (Some ws, Some h, False), s2)
       | Redirect _ \<Rightarrow> ?loop b False s2 | Failed \<Rightarrow> ?loop b False s2 | _ \<Rightarrow> ?loop b False s2)"
      using round2 by blast
    with Failed show ?thesis
      using IH [of s2 False] s1 loop1 Cons.hyps(2) [symmetric]
      by (cases "outcome_at script (Suc (length (ws_trace s)))") (auto simp: b(2))
  qed (use IH [of s1 False] s1 loop1 Cons.hyps(2) [symmetric] in \<open>auto simp: b(2)\<close>)
qed

text \<open>
  C12: the retry policy of the Cloudflare domains. With no preferred edges the connect loop
  returns, never panics, and does exactly what the policy says: the domains in rotation order
  without repetitions, the record of each dialled twice in a row, once if the first dial ran out
  the clock, up to the first success; the result names the record that answered, and reports
  only redirects exactly if every dial was one.
\<close>

theorem cf_connect_policy:
  assumes "answers script env" and "cd_cf_ips opts = []"
    and "connect_cf_ws_for_dc_with_outbound_ordered env direct W dc domains skip timeout first opts s = (r, s')"
    and "cf_reference (outcome_at script) (length (ws_trace s)) True
           (map (cf_record dc) (rev (remdups (rev (rotate first domains))))) = (hosts, result)"
  shows "r = Ret result \<and>
         ws_trace s' = ws_trace s @
           map (\<lambda>h. ws_dial h h (lit ''/apiws'') True skip timeout None (cd_disable_tls opts)) hosts"
proof -
  have "ca_pending_retry (with_offset dc domains first) = None"
    by (simp add: with_offset_def)
  from cf_connect_loop_reference [OF assms(1,2) this, of s True direct W skip timeout] show ?thesis
    using assms(3,4)
    by (simp add: fresh_hosts_new connect_cf_ws_for_dc_with_outbound_ordered_def)
qed

section \<open>Every dial of the loop\<close>

definition attempts_valid :: "CfAttempts \<Rightarrow> bool" where
  "attempts_valid a \<longleftrightarrow> (\<forall>i. ca_pending_retry a = Some i \<longrightarrow> i < length (ca_domains a))"

lemma next_fresh_valid:
  "next_fresh a = (Some h, b) \<Longrightarrow>
   h \<in> cf_record (ca_dc a) ` set (ca_domains a) \<and> ca_dc b = ca_dc a \<and> ca_domains b = ca_domains a \<and>
   attempts_valid b"
proof (induction a rule: next_fresh.induct)
  case (1 a)
  let ?n = "ca_next_ordinal a"
  let ?c = "a\<lparr>ca_next_ordinal := ?n + 1\<rparr>"
  have less: "?n < length (ca_domains a)"
    using "1.prems" by (subst (asm) next_fresh.simps) (simp split: if_splits)
  show ?case
  proof (cases "list_ex (\<lambda>prior. ca_domains ?c ! rotated ?c prior = ca_domains ?c ! rotated ?c ?n) [0..<?n]")
    case dup: True
    then have "next_fresh a = next_fresh ?c"
      using less by (subst next_fresh.simps) (simp add: Let_def)
    then show ?thesis
      using "1.IH" [OF less refl refl refl dup] "1.prems" by simp
  next
    case False
    then have "b = ?c\<lparr>ca_pending_retry := Some (rotated a ?n)\<rparr>" "h = cf_hostname a (rotated a ?n)"
      using less "1.prems" by (subst (asm) next_fresh.simps; simp add: Let_def)+
    moreover have "rotated a ?n < length (ca_domains a)"
      using less by (auto simp: rotated_def intro: mod_less_divisor)
    ultimately show ?thesis
      by (simp add: attempts_valid_def cf_hostname_def)
  qed
qed

lemma next_domain_valid:
  assumes "next_domain a = (Some h, b)" and "attempts_valid a"
  shows "h \<in> cf_record (ca_dc a) ` set (ca_domains a)" and "ca_dc b = ca_dc a"
    and "ca_domains b = ca_domains a" and "attempts_valid b" and "attempts_valid (note_timed_out b)"
proof -
  have "h \<in> cf_record (ca_dc a) ` set (ca_domains a) \<and> ca_dc b = ca_dc a \<and> ca_domains b = ca_domains a \<and>
      attempts_valid b"
  proof (cases "ca_pending_retry a")
    case None
    then show ?thesis using assms(1) next_fresh_valid by (simp add: next_domain_def)
  next
    case (Some i)
    then show ?thesis
      using assms by (auto simp: next_domain_def attempts_valid_def cf_hostname_def)
  qed
  then show "h \<in> cf_record (ca_dc a) ` set (ca_domains a)" "ca_dc b = ca_dc a"
    "ca_domains b = ca_domains a" "attempts_valid b" by simp_all
  show "attempts_valid (note_timed_out b)"
    by (simp add: attempts_valid_def note_timed_out_def)
qed

text \<open>With or without preferred edges, the loop dials the records of its domains and returns.\<close>

definition cf_domain_dial :: "nat \<Rightarrow> str list \<Rightarrow> CfDialOpts \<Rightarrow> dial \<Rightarrow> bool" where
  "cf_domain_dial dc domains opts d \<longleftrightarrow>
     (\<exists>domain \<in> set domains. cf_dial (cf_record dc domain) (lit ''/apiws'') opts d)"

lemma cf_connect_loop_dials:
  assumes "attempts_valid a"
    and "cf_connect_loop env direct W skip timeout opts a redirects s = (r, s')"
  shows "r \<noteq> Panic \<and> dialled (cf_domain_dial (ca_dc a) (ca_domains a) opts) s s'"
  using assms
proof (induction "attempts_left a" arbitrary: a redirects s rule: less_induct)
  case less
  obtain h b where nd: "next_domain a = (h, b)" by fastforce
  show ?case
  proof (cases h)
    case None
    then show ?thesis
      using less.prems(2) nd by (subst (asm) cf_connect_loop.simps) auto
  next
    case (Some host)
    note valid = next_domain_valid [OF nd [unfolded Some] less.prems(1)]
    obtain x s1 where step: "connect_cf_with_path env direct W host (lit ''/apiws'') True skip timeout opts s = (Ret x, s1)"
      using connect_cf_with_path_returns [of env direct W host "lit ''/apiws''" True skip timeout opts s]
      by (metis exec.exhaust fst_conv surj_pair)
    have first: "dialled (cf_domain_dial (ca_dc a) (ca_domains a) opts) s s1"
      using connect_cf_with_path_dials [OF step] valid(1)
      by (auto simp: cf_domain_dial_def elim!: dialled_mono)
    have left: "attempts_left b < attempts_left a" "attempts_left (note_timed_out b) < attempts_left a"
      using next_domain_left [OF nd [unfolded Some]] note_timed_out_left [of b] by simp_all
    have same: "ca_dc (note_timed_out b) = ca_dc b" "ca_domains (note_timed_out b) = ca_domains b"
      by (simp_all add: note_timed_out_def)
    show ?thesis
    proof (cases "\<exists>ws. x = Connected ws")
      case True
      then show ?thesis
        using less.prems(2) nd Some step first
        by (subst (asm) cf_connect_loop.simps) auto
    next
      case False
      then obtain red c where "c = b \<or> c = note_timed_out b"
        and "cf_connect_loop env direct W skip timeout opts c red s1 = (r, s')"
        using less.prems(2) nd Some step
        by (subst (asm) cf_connect_loop.simps) (cases x; auto)
      then show ?thesis
        using less.hyps [of c red s1] left valid same dialled_trans [OF first] by auto
    qed
  qed
qed

lemma dialled_length: "dialled P s s' \<Longrightarrow> length (ws_trace s) \<le> length (ws_trace s')"
  by (auto simp: dialled_def)

lemma connect_cf_ordered_grows:
  assumes "connect_cf_ws_for_dc_with_outbound_ordered env direct W dc domains skip timeout first opts s = (r, s')"
    and "domains \<noteq> []"
  shows "length (ws_trace s) < length (ws_trace s')"
proof -
  let ?a = "with_offset dc domains first"
  have "fresh_hosts ?a \<noteq> []" using assms(2) by (simp add: fresh_hosts_new)
  then obtain h hs where "fresh_hosts ?a = h # hs" by (cases "fresh_hosts ?a") auto
  moreover have "ca_pending_retry ?a = None" by (simp add: with_offset_def)
  ultimately obtain b where nd: "next_domain ?a = (Some h, b)"
    using next_domain_Cons by metis
  have "attempts_valid ?a" by (simp add: attempts_valid_def with_offset_def)
  note valid = next_domain_valid [OF nd this]
  obtain x s1 where step: "connect_cf_with_path env direct W h (lit ''/apiws'') True skip timeout opts s = (Ret x, s1)"
    using connect_cf_with_path_returns [of env direct W h "lit ''/apiws''" True skip timeout opts s]
    by (metis exec.exhaust fst_conv surj_pair)
  have grow: "length (ws_trace s) < length (ws_trace s1)"
    by (rule connect_cf_with_path_grows [OF step])
  have "s' = s1 \<or> (\<exists>c red. (c = b \<or> c = note_timed_out b) \<and>
      cf_connect_loop env direct W skip timeout opts c red s1 = (r, s'))"
    using assms(1) nd step unfolding connect_cf_ws_for_dc_with_outbound_ordered_def
    by (subst (asm) cf_connect_loop.simps) (cases x; auto)
  then consider "s' = s1" | c red where "attempts_valid c"
      "cf_connect_loop env direct W skip timeout opts c red s1 = (r, s')"
    using valid by blast
  then show ?thesis
  proof cases
    case 2
    from cf_connect_loop_dials [OF this] show ?thesis
      using grow dialled_length [of _ s1 s'] by fastforce
  qed (use grow in simp)
qed

lemma connect_cf_ordered_dials:
  assumes "connect_cf_ws_for_dc_with_outbound_ordered env direct W dc domains skip timeout first opts s = (r, s')"
  shows "r \<noteq> Panic" and "dialled (cf_domain_dial dc domains opts) s s'"
  using cf_connect_loop_dials [of "with_offset dc domains first" env direct W skip timeout opts True s r s'] assms
  by (simp_all add: connect_cf_ws_for_dc_with_outbound_ordered_def attempts_valid_def with_offset_def)

section \<open>A sample network\<close>

definition sample_answer :: "tcp_result \<Rightarrow> upgrade_result \<Rightarrow> net_answer" where
  "sample_answer tcp up = \<lparr>na_tcp = tcp, na_upgrade = up, na_conn = 7, na_reply = [],
     na_accepts = None, na_random = (\<lambda>_. 1)\<rparr>"

definition sample_script :: "nat \<Rightarrow> net_answer" where
  "sample_script k =
     (if k = 0 then sample_answer TcpOk (HttpError 302)
      else if k = 1 then sample_answer TcpTimedOut BadUrl
      else sample_answer TcpOk (Upgraded 101))"

definition sample_net :: "unit net" where
  "sample_net d s = (sample_script (length (ws_trace s)), s\<lparr>ws_now := ws_now s + 1\<rparr>)"

definition sample_ws_state :: ws_state where
  "sample_ws_state = \<lparr>ws_now = 0, ws_cf_ip_rotation = 1,
     ws_edge_tls_fail = cooldown_set cooldown_new (lit ''10.0.0.2'') 0 60,
     ws_edge_plaintext_fail = cooldown_new, ws_trace = []\<rparr>"

definition sample_dial_opts :: "ip_addr list \<Rightarrow> CfDialOpts" where
  "sample_dial_opts ips = \<lparr>cd_cf_ips = ips, cd_disable_tls = False, cd_fail_cooldown = 60\<rparr>"

lemmas sample_net_defs = sample_answer_def sample_script_def sample_net_def sample_ws_state_def
  sample_dial_opts_def

lemma sample_net_answers: "answers sample_script sample_net"
  by (simp add: answers_def sample_net_def)

theorem ws_attempt_flags_witness:
  "fst (connect_ws_for_dc_with_outbound sample_net (lit ''149.154.167.220'') 203 True False 10 None
      sample_ws_state) =
     \<lparr>at_ws = None, at_all_redirects = False, at_upgrade_timed_out = False, at_connect_timed_out = True\<rparr> \<and>
   map dl_http_host (ws_trace (snd (connect_ws_for_dc_with_outbound sample_net (lit ''149.154.167.220'')
      203 True False 10 None sample_ws_state))) =
     [lit ''kws2-1.web.telegram.org'', lit ''kws2.web.telegram.org'']"
proof -
  have hosts: "ws_domains 203 True = [lit ''kws2-1.web.telegram.org'', lit ''kws2.web.telegram.org'']"
    by code_simp
  have out: "outcome_at sample_script 0 = Redirect 302" "outcome_at sample_script (Suc 0) = ConnectTimedOut"
    by (simp_all add: outcome_at_def sample_net_defs redirect_status_def)
  have tr: "ws_trace sample_ws_state = []" by (simp add: sample_ws_state_def)
  show ?thesis
    using ws_attempt_flags [OF sample_net_answers surjective_pairing, of "lit ''149.154.167.220''" 203 True
        False 10 None sample_ws_state]
    by (simp add: hosts out tr)
qed

theorem cf_connect_policy_witness:
  "fst (connect_cf_ws_for_dc_with_outbound_ordered sample_net (\<lambda>_ _. True) 64 2
      [lit ''a.org'', lit ''b.org'', lit ''a.org''] False 10 1 (sample_dial_opts []) sample_ws_state) =
     Ret (Some 7, Some (lit ''kws2.a.org''), False) \<and>
   map dl_http_host (ws_trace (snd (connect_cf_ws_for_dc_with_outbound_ordered sample_net (\<lambda>_ _. True) 64 2
      [lit ''a.org'', lit ''b.org'', lit ''a.org''] False 10 1 (sample_dial_opts []) sample_ws_state))) =
     [lit ''kws2.b.org'', lit ''kws2.b.org'', lit ''kws2.a.org'']"
proof -
  have ref: "cf_reference (outcome_at sample_script) (length (ws_trace sample_ws_state)) True
      (map (cf_record 2) (rev (remdups (rev (rotate 1 [lit ''a.org'', lit ''b.org'', lit ''a.org'']))))) =
      ([lit ''kws2.b.org'', lit ''kws2.b.org'', lit ''kws2.a.org''], Some 7, Some (lit ''kws2.a.org''), False)"
    by code_simp
  have tr: "ws_trace sample_ws_state = []" "cd_cf_ips (sample_dial_opts []) = []"
    by (simp_all add: sample_ws_state_def sample_dial_opts_def)
  show ?thesis
    using cf_connect_policy [OF sample_net_answers tr(2) surjective_pairing ref, of "\<lambda>_ _. True" 64 False 10]
    by (simp add: tr comp_def)
qed


end
