(* ===== verification/Runtime.thy ===== *)
theory Runtime
  imports WsClient
begin

text \<open>
  The state every connection shares, after \<^verbatim>\<open>src/runtime.rs\<close>. The outbound
  connector is represented by the question the program asks of it, whether it reaches a host
  without a proxy; its dials are the network parameter of \<^verbatim>\<open>WsClient\<close>.
\<close>

record Runtime =
  rt_direct :: "str \<Rightarrow> nat \<Rightarrow> bool"
  rt_cf_ips :: "ip_addr list"
  rt_cf_fail_cooldown :: nat
  rt_fronting_domain :: "str option"

definition runtime_new :: "(str \<Rightarrow> nat \<Rightarrow> bool) \<Rightarrow> Runtime" where
  "runtime_new direct =
     \<lparr>rt_direct = direct, rt_cf_ips = [], rt_cf_fail_cooldown = 60, rt_fronting_domain = None\<rparr>"

definition with_cf_ips :: "ip_addr list \<Rightarrow> Runtime \<Rightarrow> Runtime" where
  "with_cf_ips ips rt = rt\<lparr>rt_cf_ips := ips\<rparr>"

definition with_cf_fail_cooldown :: "nat \<Rightarrow> Runtime \<Rightarrow> Runtime" where
  "with_cf_fail_cooldown cooldown rt = rt\<lparr>rt_cf_fail_cooldown := cooldown\<rparr>"

definition with_fronting :: "str option \<Rightarrow> Runtime \<Rightarrow> Runtime" where
  "with_fronting domain rt = rt\<lparr>rt_fronting_domain := domain\<rparr>"

definition fallback_ip :: "nat \<Rightarrow> str option" where
  "fallback_ip dc = default_dc_ip dc"

definition runtime_websocket_dc :: "nat \<Rightarrow> nat" where
  "runtime_websocket_dc dc = websocket_dc dc"

end
