(* ===== verification/Upstream.thy ===== *)
theory Upstream
  imports Runtime FakeTls
begin

text \<open>
  Connecting to an upstream MTProto proxy, after \<open>connect_mtproto_upstream\<close> of
  \<^verbatim>\<open>src/proxy.rs\<close>, and what the task as a whole takes from outside: the network,
  the liveness of pooled sockets, the pointer width, the primitives and the wall clock.

  A result of \<open>None\<close> is a task that panics or does not return: the generation of the
  handshake draws random bytes until a draw is acceptable.
\<close>

record 'a world =
  wd_net :: "'a net"
  wd_dead :: "nat \<Rightarrow> nat \<Rightarrow> bool"
  wd_usize :: nat
  wd_sha :: digest
  wd_ks :: keystream
  wd_mac :: mac
  wd_unix :: "nat \<Rightarrow> u32"

definition tcp_writer :: "nat option \<Rightarrow> bytes writer" where
  "tcp_writer accepts bs out =
     (case accepts of
        None \<Rightarrow> Some (out @ bs)
      | Some n \<Rightarrow> if length out + length bs \<le> n then Some (out @ bs) else None)"

record UpstreamConnection =
  uc_reader :: bytes
  uc_writer :: bytes
  uc_enc :: AesCtr256
  uc_dec :: AesCtr256
  uc_faketls :: bool

text \<open>The part after the TCP connect and the generation of the handshake.\<close>

definition mtproto_session ::
    "mac \<Rightarrow> u32 \<Rightarrow> MtProtoProxy \<Rightarrow> net_answer \<Rightarrow> bytes \<Rightarrow> AesCtr256 \<Rightarrow> AesCtr256 \<Rightarrow> rng \<Rightarrow>
     UpstreamConnection option exec" where
  "mtproto_session hmac timestamp proxy ans handshake enc dec g =
     (let write_all = tcp_writer (na_accepts ans);
          key_bytes = mp_secret_key proxy
      in case mp_faketls_hostname proxy of
           None \<Rightarrow>
             (case write_all handshake [] of
                None \<Rightarrow> Ret None
              | Some out \<Rightarrow>
                  Ret (Some \<lparr>uc_reader = na_reply ans, uc_writer = out, uc_enc = enc, uc_dec = dec,
                             uc_faketls = False\<rparr>))
         | Some hostname \<Rightarrow>
             exec_bind (sign_faketls_client_hello hmac timestamp
                          (fst (build_faketls_client_hello g hostname)) key_bytes)
               (\<lambda>client_hello.
                  case write_all client_hello [] of
                    None \<Rightarrow> Ret None
                  | Some out \<Rightarrow>
                      (case drain_faketls_server_hello (na_reply ans) of
                         (False, _) \<Rightarrow> Ret None
                       | (True, reader) \<Rightarrow>
                           (case write_tls_appdata write_all out handshake of
                              Inl _ \<Rightarrow> Ret None
                            | Inr out \<Rightarrow>
                                Ret (Some \<lparr>uc_reader = reader, uc_writer = out, uc_enc = enc,
                                           uc_dec = dec, uc_faketls = True\<rparr>)))))"

definition connect_mtproto_upstream ::
    "'a world \<Rightarrow> MtProtoProxy \<Rightarrow> i16 \<Rightarrow> ProtoTag \<Rightarrow> nat \<Rightarrow> 'a ws_state_scheme \<Rightarrow>
     (UpstreamConnection option \<times> 'a ws_state_scheme) option" where
  "connect_mtproto_upstream wd proxy dc_idx proto timeout s =
     (let (ans, s) = dial_net (wd_net wd) (TcpDial (mp_host proxy) (mp_port proxy) timeout) s
      in case na_tcp ans of
           TcpOk \<Rightarrow>
             (case generate_client_handshake (wd_sha wd) (wd_ks wd) (na_random ans) (mp_secret_key proxy)
                     dc_idx proto of
                Some (Ret ((handshake, enc, dec), g)) \<Rightarrow>
                  (case mtproto_session (wd_mac wd) (wd_unix wd (ws_now s)) proxy ans handshake enc dec g of
                     Ret conn \<Rightarrow> Some (conn, s)
                   | Panic \<Rightarrow> None)
              | _ \<Rightarrow> None)
         | _ \<Rightarrow> Some (None, s))"

section \<open>Two proxies understand each other\<close>

lemma tcp_writer_unlimited [simp]: "tcp_writer None = vec_writer"
  by (simp add: tcp_writer_def vec_writer_def fun_eq_iff)

text \<open>
  C6: connecting to an upstream proxy that runs the same protocol succeeds. If the TCP connect
  succeeds, writes go through, some draw of random bytes is acceptable and, for a FakeTLS
  secret, the peer answers with the server hello of the protocol, then the connection is
  established and one dial was made; what was written is a handshake from which a proxy with
  the same secret reads the data centre, the media flag and the transport, wrapped for a FakeTLS
  secret in a client hello it authenticates with the host name and in one stream of application
  data; the proxy derives the same ciphers, and what it sends next is where reading starts.
\<close>

theorem upstream_interoperates:
  fixes wd :: "'a world"
  assumes sha: "digest_len (wd_sha wd) 32" and hmac: "mac_len (wd_mac wd)"
    and dial: "wd_net wd (TcpDial (mp_host proxy) (mp_port proxy) timeout) s = (ans, s1)"
    and up: "na_tcp ans = TcpOk" "na_accepts ans = None" "draws_accepted (na_random ans)"
    and reply: "na_reply ans = (if mp_faketls_hostname proxy = None then [] else packet) @ rest"
    and server: "build_faketls_server_hello (wd_mac wd) g (mp_secret_key proxy) hello = (packet, g')"
      "length (ch_session_id hello) < 256" "length (ch_cipher_suite hello) = 2"
    and name: "\<And>n. mp_faketls_hostname proxy = Some n \<Longrightarrow> utf8_valid n \<and> length n \<le> 65360"
    and init: "length init = HANDSHAKE_LEN"
  shows "\<exists>conn h rec ch ciphers.
    connect_mtproto_upstream wd proxy dc_idx proto timeout s =
      Some (Some conn, s1\<lparr>ws_trace := ws_trace s @ [TcpDial (mp_host proxy) (mp_port proxy) timeout]\<rparr>) \<and>
    uc_writer conn = (if mp_faketls_hostname proxy = None then h else rec @ appdata_stream h) \<and>
    uc_reader conn = rest \<and> uc_faketls conn = (mp_faketls_hostname proxy \<noteq> None) \<and>
    parse_handshake (wd_sha wd) (wd_ks wd) h (mp_secret_key proxy) =
      Ret (Some \<lparr>hs_dc_id = ucast (unsigned_abs16 dc_idx), hs_is_media = (sint dc_idx < 0),
                 hs_proto = proto, hs_prekey_and_iv = slice_of h 8 56\<rparr>) \<and>
    build_connection_ciphers (wd_sha wd) (wd_ks wd) (slice_of h 8 56) (mp_secret_key proxy) init = Ret ciphers \<and>
    clt_dec ciphers = uc_enc conn \<and> clt_enc ciphers = uc_dec conn \<and>
    (mp_faketls_hostname proxy = None \<or>
     parse_faketls_client_hello (wd_mac wd) rec (mp_secret_key proxy) = Ret (Some ch) \<and>
     ch_hostname ch = mp_faketls_hostname proxy)"
proof -
  let ?key = "mp_secret_key proxy"
  obtain h g1 where gen: "generate_client_handshake (wd_sha wd) (wd_ks wd) (na_random ans) ?key dc_idx proto =
      Some (Ret ((h, client_enc (wd_sha wd) ?key h, client_dec (wd_sha wd) ?key h), g1))"
    and h: "length h = 64" "\<not> reserved_prefix h"
      "peer_reads (secret_stream (wd_sha wd) (wd_ks wd) ?key h) h = Some (proto, dc_idx)"
    using generate_client_handshake_spec [OF sha up(3)] by blast
  note parsed = parse_handshake_peer_reads [OF sha h(1), of "wd_ks wd" ?key]
  note ciphers = connection_ciphers_in_step [OF sha h(1) init [unfolded HANDSHAKE_LEN_def]]
  show ?thesis
  proof (cases "mp_faketls_hostname proxy")
    case None
    then show ?thesis
      using dial up reply gen h parsed ciphers
      by (simp add: connect_mtproto_upstream_def dial_net_def mtproto_session_def vec_writer_def)
  next
    case (Some n)
    let ?ts = "wd_unix wd (ws_now s1)"
    obtain rec where rec: "sign_faketls_client_hello (wd_mac wd) ?ts (fst (build_faketls_client_hello g1 n)) ?key = Ret rec"
      "parse_faketls_client_hello (wd_mac wd) rec ?key =
         Ret (Some \<lparr>ch_random = slice_of rec 11 43, ch_session_id = fst (fill_bytes g1 32),
                    ch_cipher_suite = [0x13, 0x01], ch_hostname = Some n\<rparr>)"
      using client_hello_accepted [OF hmac] name [OF Some] by blast
    have "drain_faketls_server_hello (na_reply ans) = (True, rest)"
      using server_hello_drained [OF hmac server(2,3,1)] reply Some by simp
    then show ?thesis
      using dial up gen h parsed ciphers Some rec
      by (simp add: connect_mtproto_upstream_def dial_net_def mtproto_session_def vec_writer_def [of _ "[]"]
          write_appdata_stream) (rule exI [of _ h], rule exI [of _ rec], simp)
  qed
qed

section \<open>The connection attempt returns\<close>

text \<open>What is assumed of the primitives and of the randomness of every connection.\<close>

definition fair_world :: "'a world \<Rightarrow> bool" where
  "fair_world wd \<longleftrightarrow>
     digest_len (wd_sha wd) 32 \<and> mac_len (wd_mac wd) \<and>
     (\<forall>d s. draws_accepted (na_random (fst (wd_net wd d s))))"

lemma sign_built_hello:
  "\<exists>rec. sign_faketls_client_hello hmac ts (fst (build_faketls_client_hello g name)) secret = Ret rec"
  by (simp add: sign_faketls_client_hello_def build_faketls_client_hello_def Let_def tls_consts
      to_be_bytes16_def len16_def u24_bytes_def TLS_RECORD_VERSION_def TLS_VERSION_12_def split: prod.split)

lemma mtproto_session_returns: "\<exists>conn. mtproto_session hmac ts proxy ans h enc dec g = Ret conn"
proof (cases "mp_faketls_hostname proxy")
  case (Some name)
  then show ?thesis
    using sign_built_hello [of hmac ts g name "mp_secret_key proxy"]
    by (auto simp: mtproto_session_def Let_def split: option.split prod.split bool.split sum.split)
qed (auto simp: mtproto_session_def Let_def split: option.split)

lemma connect_mtproto_upstream_returns:
  assumes "fair_world wd"
  obtains conn s' where "connect_mtproto_upstream wd proxy dc_idx proto timeout s = Some (conn, s')"
    and "ws_trace s' = ws_trace s @ [TcpDial (mp_host proxy) (mp_port proxy) timeout]"
proof -
  let ?d = "TcpDial (mp_host proxy) (mp_port proxy) timeout"
  obtain ans s1 where dial: "dial_net (wd_net wd) ?d s = (ans, s1)" by fastforce
  have "draws_accepted (na_random ans)"
    using assms dial by (auto simp: fair_world_def dial_net_def split: prod.splits) (metis fst_conv)
  then obtain h enc dec g where gen: "generate_client_handshake (wd_sha wd) (wd_ks wd) (na_random ans)
      (mp_secret_key proxy) dc_idx proto = Some (Ret ((h, enc, dec), g))"
    using generate_client_handshake_spec assms unfolding fair_world_def by blast
  obtain conn where session: "mtproto_session (wd_mac wd) (wd_unix wd (ws_now s1)) proxy ans h enc dec g = Ret conn"
    using mtproto_session_returns by blast
  show thesis
    using that [of "if na_tcp ans = TcpOk then conn else None" s1] dial_net_trace [OF dial] dial gen session
    by (cases "na_tcp ans") (simp_all add: connect_mtproto_upstream_def)
qed

section \<open>A sample world\<close>

definition sample_hello :: FakeTlsClientHello where
  "sample_hello = \<lparr>ch_random = replicate 32 1, ch_session_id = [7, 7], ch_cipher_suite = [0x13, 0x02],
     ch_hostname = None\<rparr>"

definition sample_packet :: bytes where
  "sample_packet = fst (build_faketls_server_hello sample_mac (\<lambda>_. 9) [1, 2] sample_hello)"

definition sample_world :: "'a net \<Rightarrow> 'a world" where
  "sample_world env = \<lparr>wd_net = env, wd_dead = (\<lambda>_ _. False), wd_usize = 64,
     wd_sha = (\<lambda>m. take 32 (m @ replicate 32 0)), wd_ks = sample_ks, wd_mac = sample_mac,
     wd_unix = (\<lambda>_. 7)\<rparr>"

definition sample_proxy :: MtProtoProxy where
  "sample_proxy = \<lparr>mp_host = lit ''up.org'', mp_port = 443, mp_secret = [], mp_secret_key = [1, 2],
     mp_faketls_hostname = Some [0x61]\<rparr>"

definition sample_upstream_net :: "'a net" where
  "sample_upstream_net d s =
     (\<lparr>na_tcp = TcpOk, na_upgrade = BadUrl, na_conn = 7, na_reply = sample_packet @ [5], na_accepts = None,
       na_random = (\<lambda>_. 1)\<rparr>, s)"

theorem upstream_interoperates_witness:
  "\<exists>conn s'. connect_mtproto_upstream (sample_world sample_upstream_net) sample_proxy 2 Abridged 10
      sample_ws_state = Some (Some conn, s') \<and>
    ws_trace s' = [TcpDial (lit ''up.org'') 443 10] \<and> uc_reader conn = [5] \<and> uc_faketls conn"
proof -
  let ?wd = "sample_world sample_upstream_net :: unit world"
  have prims: "digest_len (wd_sha ?wd) 32" "mac_len (wd_mac ?wd)"
    using sample_digest_len sample_mac_len by (simp_all add: sample_world_def)
  have dial: "wd_net ?wd (TcpDial (mp_host sample_proxy) (mp_port sample_proxy) 10) sample_ws_state =
      (fst (sample_upstream_net (TcpDial [] 0 0) sample_ws_state), sample_ws_state)"
    by (simp add: sample_world_def sample_upstream_net_def)
  have server: "build_faketls_server_hello (wd_mac ?wd) (\<lambda>_. 9) (mp_secret_key sample_proxy) sample_hello =
      (sample_packet, snd (build_faketls_server_hello sample_mac (\<lambda>_. 9) [1, 2] sample_hello))"
    by (simp add: sample_world_def sample_packet_def sample_proxy_def)
  have name: "utf8_valid n \<and> length n \<le> 65360" if "mp_faketls_hostname sample_proxy = Some n" for n
    using that by (auto simp: sample_proxy_def utf8_valid.simps utf8_tail_def)
  from upstream_interoperates [OF prims dial _ _ _ _ server _ _ name, of "[5]" "replicate 64 0" 2 Abridged]
  show ?thesis
    using sample_draws_accepted
    by (auto simp: sample_upstream_net_def sample_proxy_def sample_hello_def HANDSHAKE_LEN_def
        sample_ws_state_def)
qed

end
