(* ===== verification/Systems.thy ===== *)
theory Systems
  imports Main
begin

text \<open>
  The two ways the development argues about step relations: an invariant kept by every step
  holds of every reachable state, and steps of a well-founded relation come to an end, in a state
  where nothing is left to do if every other state has a step; a rank that every step decreases
  gives such a relation and bounds the number of steps. The components with background
  tasks and the lifecycle of the Android service interpret these on their own steps.
\<close>

locale invariant_system =
  fixes step :: "'s \<Rightarrow> 's \<Rightarrow> bool"
    and inv :: "'s \<Rightarrow> bool"
  assumes inv_step: "inv s \<Longrightarrow> step s s' \<Longrightarrow> inv s'"
begin

lemma inv_reach: "step\<^sup>*\<^sup>* s s' \<Longrightarrow> inv s \<Longrightarrow> inv s'"
  by (induction rule: rtranclp_induct) (auto intro: inv_step)

end

locale terminating_system = invariant_system +
  fixes idle :: "'s \<Rightarrow> bool"
  assumes steps_end: "wfP (\<lambda>s' s. inv s \<and> step s s')"
    and progress: "inv s \<Longrightarrow> \<not> idle s \<Longrightarrow> \<exists>s'. step s s'"
begin

lemma ends_idle: "inv s \<Longrightarrow> \<exists>s'. step\<^sup>*\<^sup>* s s' \<and> idle s'"
proof (induction s rule: wfp_induct_rule [OF steps_end])
  case (1 s)
  show ?case
  proof (cases "idle s")
    case False
    then obtain m where "step s m" using 1(2) progress by blast
    with 1 show ?thesis
      using inv_step [of s m] by (meson converse_rtranclp_into_rtranclp)
  qed auto
qed

lemma stuck_idle: "step\<^sup>*\<^sup>* s s' \<Longrightarrow> inv s \<Longrightarrow> \<nexists>s''. step s' s'' \<Longrightarrow> idle s'"
  using inv_reach progress by blast

lemma no_infinite_run: "inv (f 0) \<Longrightarrow> \<not> (\<forall>n. step (f n) (f (Suc n)))"
proof
  assume start: "inv (f 0)" and run: "\<forall>n. step (f n) (f (Suc n))"
  have "inv (f n)" for n by (induction n) (use start run inv_step in blast)+
  then show False
    using run steps_end [unfolded wfp_def wf_iff_no_infinite_down_chain] by blast
qed

end

locale ranked_system = invariant_system +
  fixes rank :: "'s \<Rightarrow> nat"
    and idle :: "'s \<Rightarrow> bool"
  assumes rank_step: "inv s \<Longrightarrow> step s s' \<Longrightarrow> rank s' < rank s"
    and rank_progress: "inv s \<Longrightarrow> \<not> idle s \<Longrightarrow> \<exists>s'. step s s'"
begin

lemma run_bounded: "(step ^^ n) s s' \<Longrightarrow> inv s \<Longrightarrow> n + rank s' \<le> rank s \<and> inv s'"
proof (induction n arbitrary: s')
  case (Suc n)
  then obtain m where "(step ^^ n) s m" "step m s'" by auto
  with Suc show ?case using rank_step [of m s'] inv_step [of m s'] by fastforce
qed simp

end

sublocale ranked_system \<subseteq> terminating_system step inv idle
proof unfold_locales
  show "wfP (\<lambda>s' s. inv s \<and> step s s')"
    by (rule wfp_subset [OF wfp_if_convertible_to_nat [of "\<lambda>s' s. rank s' < rank s" rank]])
      (auto intro: rank_step)
qed (rule rank_progress)

end
