(* ===== verification/Pool.thy ===== *)
theory Pool
  imports Runtime Systems "HOL-Library.Multiset"
begin

text \<open>
  The pool of idle connections, after \<^verbatim>\<open>src/pool.rs\<close>. Each operation under a
  lock is a function on the pool; what a WebSocket answers when it is polled without waiting is
  the parameter \<open>dead\<close>. The background tasks are jobs of the system state below, whose steps
  interleave in any order: the lock sections of a task are atomic and anything may happen
  between them.
\<close>

section \<open>Data\<close>

definition CF_POOL_MAX :: nat where "CF_POOL_MAX = 1"
definition POOL_CONNECT_CONCURRENCY :: nat where "POOL_CONNECT_CONCURRENCY = 2"
definition WARMUP_BUCKET_CONCURRENCY :: nat where "WARMUP_BUCKET_CONCURRENCY = 2"

lemmas pool_consts = CF_POOL_MAX_def POOL_CONNECT_CONCURRENCY_def WARMUP_BUCKET_CONCURRENCY_def

datatype CfTier = Worker | Proxy

record PoolEntry =
  pe_ws :: nat
  pe_created :: nat

record CfEntry =
  ce_ws :: nat
  ce_created :: nat
  ce_domain :: str
  ce_dst :: str
  ce_skip_tls_verify :: bool
  ce_connect_timeout :: nat
  ce_disable_tls :: bool

record CfTarget =
  ct_tier :: CfTier
  ct_dc :: nat
  ct_is_media :: bool
  ct_dst :: str
  ct_domain :: str
  ct_skip_tls_verify :: bool
  ct_connect_timeout :: nat
  ct_disable_tls :: bool

type_synonym PoolKey = "nat \<times> bool"
type_synonym CfKey = "CfTier \<times> nat \<times> bool"

definition target_key :: "CfTarget \<Rightarrow> CfKey" where
  "target_key t = (ct_tier t, ct_dc t, ct_is_media t)"

record WsPool =
  wp_pool_size :: nat
  wp_max_age :: nat
  wp_idle :: "PoolKey \<rightharpoonup> PoolEntry list"
  wp_cf_idle :: "CfKey \<rightharpoonup> CfEntry list"
  wp_refilling :: "PoolKey set"
  wp_cf_refilling :: "CfKey set"

definition pool_with_runtime :: "nat \<Rightarrow> nat \<Rightarrow> WsPool" where
  "pool_with_runtime pool_size max_age =
     \<lparr>wp_pool_size = pool_size, wp_max_age = max_age, wp_idle = Map.empty, wp_cf_idle = Map.empty,
      wp_refilling = {}, wp_cf_refilling = {}\<rparr>"

text \<open>\<open>lock.entry(key).or_default()\<close> and \<open>map_or(0, len)\<close>.\<close>

definition bucket_of :: "('k \<rightharpoonup> 'e list) \<Rightarrow> 'k \<Rightarrow> 'e list" where
  "bucket_of m k = (case m k of None \<Rightarrow> [] | Some b \<Rightarrow> b)"

section \<open>Taking a connection\<close>

text \<open>The background tasks an operation spawns.\<close>

datatype pool_task =
    RefillTask PoolKey str bool
  | CfRefillTask CfTarget

function pop_live :: "('e \<Rightarrow> bool) \<Rightarrow> 'e list \<Rightarrow> 'e option \<times> 'e list" where
  "pop_live discard bucket =
     (if bucket = [] then (None, [])
      else if discard (last bucket) then pop_live discard (butlast bucket)
      else (Some (last bucket), butlast bucket))"
  by auto
termination
  by (relation "measure (\<lambda>(_, b). length b)") auto

declare pop_live.simps [simp del]

definition reserve_refill :: "PoolKey \<Rightarrow> WsPool \<Rightarrow> bool \<times> WsPool" where
  "reserve_refill key p = (key \<notin> wp_refilling p, p\<lparr>wp_refilling := insert key (wp_refilling p)\<rparr>)"

definition reserve_cf_refill :: "CfKey \<Rightarrow> WsPool \<Rightarrow> bool \<times> WsPool" where
  "reserve_cf_refill key p =
     (key \<notin> wp_cf_refilling p, p\<lparr>wp_cf_refilling := insert key (wp_cf_refilling p)\<rparr>)"

definition schedule_refill :: "nat \<Rightarrow> bool \<Rightarrow> str \<Rightarrow> bool \<Rightarrow> WsPool \<Rightarrow> pool_task list \<times> WsPool" where
  "schedule_refill dc is_media target_ip skip_tls p =
     (if wp_pool_size p = 0 then ([], p)
      else let (reserved, p) = reserve_refill (dc, is_media) p
           in if \<not> reserved then ([], p) else ([RefillTask (dc, is_media) target_ip skip_tls], p))"

definition pool_get ::
    "(nat \<Rightarrow> bool) \<Rightarrow> nat \<Rightarrow> nat \<Rightarrow> bool \<Rightarrow> str \<Rightarrow> bool \<Rightarrow> bool \<Rightarrow> WsPool \<Rightarrow>
     nat option \<times> pool_task list \<times> WsPool" where
  "pool_get dead now dc is_media target_ip skip_tls_verify allow_refill p =
     (let discard = (\<lambda>entry. wp_max_age p < now - pe_created entry \<or> dead (pe_ws entry));
          (taken, bucket) = pop_live discard (bucket_of (wp_idle p) (dc, is_media));
          p = p\<lparr>wp_idle := (wp_idle p)((dc, is_media) \<mapsto> bucket)\<rparr>;
          (tasks, p) = (if allow_refill then schedule_refill dc is_media target_ip skip_tls_verify p
                        else ([], p))
      in (map_option pe_ws taken, tasks, p))"

definition cf_prefetch :: "CfTarget \<Rightarrow> WsPool \<Rightarrow> pool_task list \<times> WsPool" where
  "cf_prefetch target p =
     (if wp_pool_size p = 0 then ([], p)
      else let (reserved, p) = reserve_cf_refill (target_key target) p
           in if \<not> reserved then ([], p) else ([CfRefillTask target], p))"

definition cf_get ::
    "(nat \<Rightarrow> bool) \<Rightarrow> nat \<Rightarrow> CfTier \<Rightarrow> nat \<Rightarrow> bool \<Rightarrow> WsPool \<Rightarrow>
     (nat \<times> str) option \<times> pool_task list \<times> WsPool" where
  "cf_get dead now tier dc is_media p =
     (case wp_cf_idle p (tier, dc, is_media) of
        None \<Rightarrow> (None, [], p)
      | Some bucket \<Rightarrow>
          let discard = (\<lambda>entry. wp_max_age p < now - ce_created entry \<or> dead (ce_ws entry));
              (taken, bucket) = pop_live discard bucket;
              p = p\<lparr>wp_cf_idle := (wp_cf_idle p)((tier, dc, is_media) \<mapsto> bucket)\<rparr>
          in case taken of
               None \<Rightarrow> (None, [], p)
             | Some entry \<Rightarrow>
                 let (tasks, p) = cf_prefetch
                       \<lparr>ct_tier = tier, ct_dc = dc, ct_is_media = is_media, ct_dst = ce_dst entry,
                        ct_domain = ce_domain entry, ct_skip_tls_verify = ce_skip_tls_verify entry,
                        ct_connect_timeout = ce_connect_timeout entry,
                        ct_disable_tls = ce_disable_tls entry\<rparr> p
                 in (Some (ce_ws entry, ce_domain entry), tasks, p))"

section \<open>Opening connections\<close>

text \<open>One dial of a batch, always fronted when a fronting domain is set.\<close>

definition pool_attempt ::
    "'a net \<Rightarrow> Runtime \<Rightarrow> str \<Rightarrow> nat \<Rightarrow> bool \<Rightarrow> bool \<Rightarrow> 'a ws_state_scheme \<Rightarrow>
     WsAttempt \<times> 'a ws_state_scheme" where
  "pool_attempt env rt ip dc is_media skip_tls s =
     connect_ws_for_dc_with_outbound env ip dc is_media skip_tls 8 (rt_fronting_domain rt) s"

text \<open>
  \<open>connect_batch\<close> in progress: dials not yet started, dials under way, connections
  opened. At most \<open>POOL_CONNECT_CONCURRENCY\<close> dials run at once and complete in any order;
  the first failure ends the batch with what is open.
\<close>

record connect_batch =
  cb_left :: nat
  cb_dialling :: nat
  cb_results :: "nat list"

definition batch_start :: "nat \<Rightarrow> connect_batch" where
  "batch_start n = \<lparr>cb_left = n, cb_dialling = 0, cb_results = []\<rparr>"

definition batch_may_dial :: "connect_batch \<Rightarrow> bool" where
  "batch_may_dial b \<longleftrightarrow> 0 < cb_left b \<and> cb_dialling b < POOL_CONNECT_CONCURRENCY"

definition batch_dial :: "connect_batch \<Rightarrow> connect_batch" where
  "batch_dial b = b\<lparr>cb_left := cb_left b - 1, cb_dialling := cb_dialling b + 1\<rparr>"

definition batch_opened :: "nat \<Rightarrow> connect_batch \<Rightarrow> connect_batch" where
  "batch_opened ws b = b\<lparr>cb_dialling := cb_dialling b - 1, cb_results := cb_results b @ [ws]\<rparr>"

definition batch_failed :: "connect_batch \<Rightarrow> connect_batch" where
  "batch_failed b = b\<lparr>cb_left := 0, cb_dialling := 0\<rparr>"

definition batch_ended :: "connect_batch \<Rightarrow> bool" where
  "batch_ended b \<longleftrightarrow> cb_left b = 0 \<and> cb_dialling b = 0"

definition cf_connect_one ::
    "'a net \<Rightarrow> nat \<Rightarrow> Runtime \<Rightarrow> CfTarget \<Rightarrow> 'a ws_state_scheme \<Rightarrow> nat option exec \<times> 'a ws_state_scheme" where
  "cf_connect_one env W rt t s =
     (let opts = \<lparr>cd_cf_ips = rt_cf_ips rt, cd_disable_tls = ct_disable_tls t,
                  cd_fail_cooldown = rt_cf_fail_cooldown rt\<rparr>
      in case ct_tier t of
           Worker \<Rightarrow>
             connect_cf_worker_ws_for_dc_with_outbound_opts env (rt_direct rt) W (ct_domain t) (ct_dst t)
               (ct_dc t) (ct_is_media t) (ct_skip_tls_verify t) (ct_connect_timeout t) opts s
         | Proxy \<Rightarrow>
             connect_cf_record_with_outbound_opts env (rt_direct rt) W (ct_domain t)
               (ct_skip_tls_verify t) (ct_connect_timeout t) opts s)"

section \<open>Filling the pool\<close>

text \<open>\<open>RefillGuard::drop\<close>.\<close>

definition release_refill :: "PoolKey \<Rightarrow> WsPool \<Rightarrow> WsPool" where
  "release_refill key p = p\<lparr>wp_refilling := wp_refilling p - {key}\<rparr>"

definition release_cf_refill :: "CfKey \<Rightarrow> WsPool \<Rightarrow> WsPool" where
  "release_cf_refill key p = p\<lparr>wp_cf_refilling := wp_cf_refilling p - {key}\<rparr>"

text \<open>The two lock sections of \<open>refill_reserved\<close>, around \<open>connect_batch\<close>.\<close>

definition refill_needed :: "PoolKey \<Rightarrow> WsPool \<Rightarrow> nat option" where
  "refill_needed key p =
     (let current = length (bucket_of (wp_idle p) key)
      in if wp_pool_size p \<le> current then None else Some (wp_pool_size p - current))"

definition push_entries :: "nat \<Rightarrow> nat list \<Rightarrow> PoolEntry list \<Rightarrow> PoolEntry list" where
  "push_entries now conns bucket = bucket @ map (\<lambda>ws. \<lparr>pe_ws = ws, pe_created = now\<rparr>) conns"

definition refill_commit :: "nat \<Rightarrow> PoolKey \<Rightarrow> nat list \<Rightarrow> WsPool \<Rightarrow> WsPool" where
  "refill_commit now key new_conns p =
     (if new_conns = [] then p
      else let bucket = bucket_of (wp_idle p) key;
               can_add = wp_pool_size p - length bucket
           in p\<lparr>wp_idle := (wp_idle p)(key \<mapsto> push_entries now (take can_add new_conns) bucket)\<rparr>)"

text \<open>The two lock sections of \<open>cf_refill_reserved\<close>, around \<open>cf_connect_one\<close>.\<close>

definition cf_budget :: "WsPool \<Rightarrow> nat" where
  "cf_budget p = min CF_POOL_MAX (wp_pool_size p)"

definition cf_refill_wanted :: "CfKey \<Rightarrow> WsPool \<Rightarrow> bool" where
  "cf_refill_wanted key p \<longleftrightarrow> length (bucket_of (wp_cf_idle p) key) < cf_budget p"

definition cf_refill_commit :: "nat \<Rightarrow> CfTarget \<Rightarrow> nat option \<Rightarrow> WsPool \<Rightarrow> WsPool" where
  "cf_refill_commit now t conn p =
     (case conn of
        None \<Rightarrow> p
      | Some ws \<Rightarrow>
          let bucket = bucket_of (wp_cf_idle p) (target_key t);
              entry = \<lparr>ce_ws = ws, ce_created = now, ce_domain = ct_domain t, ce_dst = ct_dst t,
                       ce_skip_tls_verify = ct_skip_tls_verify t,
                       ce_connect_timeout = ct_connect_timeout t, ce_disable_tls = ct_disable_tls t\<rparr>
          in p\<lparr>wp_cf_idle := (wp_cf_idle p)(target_key t \<mapsto>
                (if length bucket < cf_budget p then bucket @ [entry] else bucket))\<rparr>)"

text \<open>
  The buckets \<open>warmup\<close> opens, for the configured addresses in the order the hash map
  yields them, and the section that stores a finished batch.
\<close>

definition pinned_off_ws :: "Config \<Rightarrow> bool \<Rightarrow> bool" where
  "pinned_off_ws config is_media =
     (case forced_upstreams config is_media of None \<Rightarrow> False | Some tiers \<Rightarrow> Ws \<notin> set tiers)"

definition warmup_jobs :: "Config \<Rightarrow> (nat \<times> str) list \<Rightarrow> (nat \<times> str \<times> bool) list" where
  "warmup_jobs config redirects =
     concat (map (\<lambda>(dc, ip). map (\<lambda>is_media. (dc, ip, is_media))
       (filter (\<lambda>is_media. \<not> pinned_off_ws config is_media) [False, True])) redirects)"

definition warmup_commit :: "nat \<Rightarrow> PoolKey \<Rightarrow> nat list \<Rightarrow> WsPool \<Rightarrow> WsPool" where
  "warmup_commit now key new_conns p =
     p\<lparr>wp_idle := (wp_idle p)(key \<mapsto> push_entries now new_conns (bucket_of (wp_idle p) key))\<rparr>"

section \<open>The pool and its background tasks\<close>

text \<open>
  A refill is reserved when it is spawned and released when it ends, early or not. Warm-up runs
  one batch per configured bucket, \<open>WARMUP_BUCKET_CONCURRENCY\<close> at a time.
\<close>

datatype pool_job =
    Spawned pool_task
  | Filling PoolKey connect_batch
  | Warming PoolKey connect_batch
  | CfDialling CfTarget

record pool_sys =
  sy_pool :: WsPool
  sy_now :: nat
  sy_jobs :: "pool_job multiset"
  sy_warmup :: "PoolKey list"

fun warming_job :: "pool_job \<Rightarrow> bool" where
  "warming_job (Warming _ _) = True"
| "warming_job _ = False"

text \<open>What the rest of the program does with the pool, and the passing of time.\<close>

inductive client_step :: "pool_sys \<Rightarrow> pool_sys \<Rightarrow> bool" where
  clock: "sy_now y \<le> now' \<Longrightarrow> client_step y (y\<lparr>sy_now := now'\<rparr>)"
| get: "pool_get dead (sy_now y) dc is_media ip skip allow (sy_pool y) = (ws, tasks, p) \<Longrightarrow>
    client_step y (y\<lparr>sy_pool := p, sy_jobs := sy_jobs y + mset (map Spawned tasks)\<rparr>)"
| cf_get: "Pool.cf_get dead (sy_now y) tier dc is_media (sy_pool y) = (ws, tasks, p) \<Longrightarrow>
    client_step y (y\<lparr>sy_pool := p, sy_jobs := sy_jobs y + mset (map Spawned tasks)\<rparr>)"
| prefetch: "cf_prefetch target (sy_pool y) = (tasks, p) \<Longrightarrow>
    client_step y (y\<lparr>sy_pool := p, sy_jobs := sy_jobs y + mset (map Spawned tasks)\<rparr>)"

text \<open>The steps of the background tasks; \<open>M\<close> are the other tasks.\<close>

inductive job_step :: "pool_sys \<Rightarrow> pool_sys \<Rightarrow> bool" where
  refill_full: "sy_jobs y = add_mset (Spawned (RefillTask key ip skip)) M \<Longrightarrow>
    refill_needed key (sy_pool y) = None \<Longrightarrow>
    job_step y (y\<lparr>sy_pool := release_refill key (sy_pool y), sy_jobs := M\<rparr>)"
| refill_begin: "sy_jobs y = add_mset (Spawned (RefillTask key ip skip)) M \<Longrightarrow>
    refill_needed key (sy_pool y) = Some needed \<Longrightarrow>
    job_step y (y\<lparr>sy_jobs := add_mset (Filling key (batch_start needed)) M\<rparr>)"
| refill_dial: "sy_jobs y = add_mset (Filling key b) M \<Longrightarrow> batch_may_dial b \<Longrightarrow>
    job_step y (y\<lparr>sy_jobs := add_mset (Filling key (batch_dial b)) M\<rparr>)"
| refill_opened: "sy_jobs y = add_mset (Filling key b) M \<Longrightarrow> 0 < cb_dialling b \<Longrightarrow>
    job_step y (y\<lparr>sy_jobs := add_mset (Filling key (batch_opened ws b)) M\<rparr>)"
| refill_failed: "sy_jobs y = add_mset (Filling key b) M \<Longrightarrow> 0 < cb_dialling b \<Longrightarrow>
    job_step y (y\<lparr>sy_jobs := add_mset (Filling key (batch_failed b)) M\<rparr>)"
| refill_end: "sy_jobs y = add_mset (Filling key b) M \<Longrightarrow> batch_ended b \<Longrightarrow>
    job_step y (y\<lparr>sy_pool := release_refill key (refill_commit (sy_now y) key (cb_results b) (sy_pool y)),
                  sy_jobs := M\<rparr>)"
| refill_panic: "sy_jobs y = add_mset (Filling key b) M \<Longrightarrow>
    job_step y (y\<lparr>sy_pool := release_refill key (sy_pool y), sy_jobs := M\<rparr>)"
| warmup_begin: "sy_warmup y = key # keys \<Longrightarrow>
    size (filter_mset warming_job (sy_jobs y)) < WARMUP_BUCKET_CONCURRENCY \<Longrightarrow>
    job_step y (y\<lparr>sy_warmup := keys,
                  sy_jobs := add_mset (Warming key (batch_start (wp_pool_size (sy_pool y)))) (sy_jobs y)\<rparr>)"
| warmup_dial: "sy_jobs y = add_mset (Warming key b) M \<Longrightarrow> batch_may_dial b \<Longrightarrow>
    job_step y (y\<lparr>sy_jobs := add_mset (Warming key (batch_dial b)) M\<rparr>)"
| warmup_opened: "sy_jobs y = add_mset (Warming key b) M \<Longrightarrow> 0 < cb_dialling b \<Longrightarrow>
    job_step y (y\<lparr>sy_jobs := add_mset (Warming key (batch_opened ws b)) M\<rparr>)"
| warmup_failed: "sy_jobs y = add_mset (Warming key b) M \<Longrightarrow> 0 < cb_dialling b \<Longrightarrow>
    job_step y (y\<lparr>sy_jobs := add_mset (Warming key (batch_failed b)) M\<rparr>)"
| warmup_end: "sy_jobs y = add_mset (Warming key b) M \<Longrightarrow> batch_ended b \<Longrightarrow>
    job_step y (y\<lparr>sy_pool := warmup_commit (sy_now y) key (cb_results b) (sy_pool y), sy_jobs := M\<rparr>)"
| cf_full: "sy_jobs y = add_mset (Spawned (CfRefillTask t)) M \<Longrightarrow>
    \<not> cf_refill_wanted (target_key t) (sy_pool y) \<Longrightarrow>
    job_step y (y\<lparr>sy_pool := release_cf_refill (target_key t) (sy_pool y), sy_jobs := M\<rparr>)"
| cf_begin: "sy_jobs y = add_mset (Spawned (CfRefillTask t)) M \<Longrightarrow>
    cf_refill_wanted (target_key t) (sy_pool y) \<Longrightarrow>
    job_step y (y\<lparr>sy_jobs := add_mset (CfDialling t) M\<rparr>)"
| cf_end: "sy_jobs y = add_mset (CfDialling t) M \<Longrightarrow>
    job_step y (y\<lparr>sy_pool := release_cf_refill (target_key t) (cf_refill_commit (sy_now y) t conn (sy_pool y)),
                  sy_jobs := M\<rparr>)"

definition pool_init :: "nat \<Rightarrow> nat \<Rightarrow> PoolKey list \<Rightarrow> pool_sys" where
  "pool_init pool_size max_age keys =
     \<lparr>sy_pool = pool_with_runtime pool_size max_age, sy_now = 0, sy_jobs = {#}, sy_warmup = keys\<rparr>"

inductive pool_step :: "pool_sys \<Rightarrow> pool_sys \<Rightarrow> bool" where
  client: "client_step y y' \<Longrightarrow> pool_step y y'"
| job: "job_step y y' \<Longrightarrow> pool_step y y'"

section \<open>Taking: which connection\<close>

lemma pop_live_split:
  "\<exists>gone. bucket = snd (pop_live discard bucket) @
      (case fst (pop_live discard bucket) of None \<Rightarrow> [] | Some e \<Rightarrow> [e]) @ gone \<and>
    list_all discard gone \<and>
    (case fst (pop_live discard bucket) of
       None \<Rightarrow> snd (pop_live discard bucket) = [] | Some e \<Rightarrow> \<not> discard e)"
proof (induction discard bucket rule: pop_live.induct)
  case (1 discard bucket)
  show ?case
  proof (cases "bucket \<noteq> [] \<and> discard (last bucket)")
    case True
    then have unfold: "pop_live discard bucket = pop_live discard (butlast bucket)"
      by (subst pop_live.simps) simp
    obtain gone where gone: "butlast bucket = snd (pop_live discard (butlast bucket)) @
        (case fst (pop_live discard (butlast bucket)) of None \<Rightarrow> [] | Some e \<Rightarrow> [e]) @ gone"
      "list_all discard gone" and live: "case fst (pop_live discard (butlast bucket)) of
        None \<Rightarrow> snd (pop_live discard (butlast bucket)) = [] | Some e \<Rightarrow> \<not> discard e"
      using 1 True by auto
    have "butlast bucket @ [last bucket] = snd (pop_live discard (butlast bucket)) @
        (case fst (pop_live discard (butlast bucket)) of None \<Rightarrow> [] | Some e \<Rightarrow> [e]) @ gone @ [last bucket]"
      by (subst gone(1)) simp
    then show ?thesis
      using gone(2) live True unfolding unfold by (intro exI [of _ "gone @ [last bucket]"]) simp
  next
    case False
    then show ?thesis
      by (cases "bucket = []") (simp_all add: pop_live.simps [of discard], rule exI [of _ "[]"], simp)
  qed
qed

lemma pop_live_length: "pop_live discard bucket = (e, rest) \<Longrightarrow> length rest \<le> length bucket"
  using pop_live_split [of bucket discard]
  by (metis fst_conv snd_conv length_append le_add1)

section \<open>Invariant\<close>

definition batch_size :: "connect_batch \<Rightarrow> nat" where
  "batch_size b = cb_left b + cb_dialling b + length (cb_results b)"

fun refill_count :: "PoolKey \<Rightarrow> pool_job \<Rightarrow> nat" where
  "refill_count k (Spawned (RefillTask key _ _)) = (if key = k then 1 else 0)"
| "refill_count k (Filling key _) = (if key = k then 1 else 0)"
| "refill_count k _ = 0"

fun fill_size :: "PoolKey \<Rightarrow> pool_job \<Rightarrow> nat" where
  "fill_size k (Filling key b) = (if key = k then batch_size b else 0)"
| "fill_size k _ = 0"

fun warm_size :: "PoolKey \<Rightarrow> pool_job \<Rightarrow> nat" where
  "warm_size k (Warming key b) = (if key = k then batch_size b else 0)"
| "warm_size k _ = 0"

fun cf_count :: "CfKey \<Rightarrow> pool_job \<Rightarrow> nat" where
  "cf_count k (Spawned (CfRefillTask t)) = (if target_key t = k then 1 else 0)"
| "cf_count k (CfDialling t) = (if target_key t = k then 1 else 0)"
| "cf_count k _ = 0"

fun cf_dialling :: "CfKey \<Rightarrow> pool_job \<Rightarrow> nat" where
  "cf_dialling k (CfDialling t) = (if target_key t = k then 1 else 0)"
| "cf_dialling k _ = 0"

fun batch_dials :: "pool_job \<Rightarrow> nat" where
  "batch_dials (Filling _ b) = cb_dialling b"
| "batch_dials (Warming _ b) = cb_dialling b"
| "batch_dials _ = 0"

definition total :: "(pool_job \<Rightarrow> nat) \<Rightarrow> pool_sys \<Rightarrow> nat" where
  "total f y = (\<Sum>j\<in>#sy_jobs y. f j)"

definition idle_count :: "PoolKey \<Rightarrow> pool_sys \<Rightarrow> nat" where
  "idle_count k y = length (bucket_of (wp_idle (sy_pool y)) k)"

definition cf_idle_count :: "CfKey \<Rightarrow> pool_sys \<Rightarrow> nat" where
  "cf_idle_count k y = length (bucket_of (wp_cf_idle (sy_pool y)) k)"

text \<open>What warm-up may still add to a bucket.\<close>

definition warm_load :: "PoolKey \<Rightarrow> pool_sys \<Rightarrow> nat" where
  "warm_load k y = total (warm_size k) y + count (mset (sy_warmup y)) k * wp_pool_size (sy_pool y)"

definition bucket_inv :: "PoolKey \<Rightarrow> pool_sys \<Rightarrow> bool" where
  "bucket_inv k y \<longleftrightarrow>
     total (refill_count k) y = (if k \<in> wp_refilling (sy_pool y) then 1 else 0) \<and>
     warm_load k y \<le> wp_pool_size (sy_pool y) \<and>
     idle_count k y + total (fill_size k) y + warm_load k y \<le> 2 * wp_pool_size (sy_pool y)"

definition cf_inv :: "CfKey \<Rightarrow> pool_sys \<Rightarrow> bool" where
  "cf_inv k y \<longleftrightarrow>
     total (cf_count k) y = (if k \<in> wp_cf_refilling (sy_pool y) then 1 else 0) \<and>
     cf_idle_count k y + total (cf_dialling k) y \<le> cf_budget (sy_pool y)"

definition dial_inv :: "pool_sys \<Rightarrow> bool" where
  "dial_inv y \<longleftrightarrow>
     size (filter_mset warming_job (sy_jobs y)) \<le> WARMUP_BUCKET_CONCURRENCY \<and>
     (\<forall>j \<in># sy_jobs y. batch_dials j \<le> POOL_CONNECT_CONCURRENCY)"

lemmas batch_defs = batch_size_def batch_start_def batch_may_dial_def batch_dial_def
  batch_opened_def batch_failed_def batch_ended_def

lemmas pool_inv_defs = bucket_inv_def cf_inv_def dial_inv_def warm_load_def idle_count_def
  cf_idle_count_def total_def

lemma bucket_of_upd [simp]: "bucket_of (m(k \<mapsto> b)) k' = (if k' = k then b else bucket_of m k')"
  by (simp add: bucket_of_def)

lemma bucket_of_empty [simp]: "bucket_of Map.empty k = []"
  by (simp add: bucket_of_def)

lemma no_refill_no_fill:
  "(\<Sum>j\<in>#M. refill_count k j) = 0 \<Longrightarrow> (\<Sum>j\<in>#M. fill_size k j) = 0"
proof (induction M)
  case (add j M)
  then show ?case by (cases j) (auto split: if_splits)
qed simp

lemma no_cf_no_dialling:
  "(\<Sum>j\<in>#M. cf_count k j) = 0 \<Longrightarrow> (\<Sum>j\<in>#M. cf_dialling k j) = 0"
proof (induction M)
  case (add j M)
  then show ?case by (cases j) (auto split: if_splits)
qed simp

section \<open>Preservation\<close>

text \<open>What an operation spawns is what it reserves.\<close>

lemma schedule_refill_cases:
  assumes "schedule_refill dc is_media ip skip p = (tasks, p')"
  shows "(tasks = [] \<and> p' = p) \<or>
         (tasks = [RefillTask (dc, is_media) ip skip] \<and> (dc, is_media) \<notin> wp_refilling p \<and>
          p' = p\<lparr>wp_refilling := insert (dc, is_media) (wp_refilling p)\<rparr>)"
  using assms by (auto simp: schedule_refill_def reserve_refill_def insert_absorb split: if_splits)

lemma cf_prefetch_cases:
  assumes "cf_prefetch t p = (tasks, p')"
  shows "(tasks = [] \<and> p' = p) \<or>
         (tasks = [CfRefillTask t] \<and> target_key t \<notin> wp_cf_refilling p \<and>
          p' = p\<lparr>wp_cf_refilling := insert (target_key t) (wp_cf_refilling p)\<rparr>)"
  using assms by (auto simp: cf_prefetch_def reserve_cf_refill_def insert_absorb split: if_splits)

text \<open>The states between the removal of idle connections and the refill.\<close>

definition shrunk :: "WsPool \<Rightarrow> WsPool \<Rightarrow> bool" where
  "shrunk p q \<longleftrightarrow>
     wp_pool_size q = wp_pool_size p \<and> wp_refilling q = wp_refilling p \<and>
     wp_cf_refilling q = wp_cf_refilling p \<and>
     (\<forall>k. length (bucket_of (wp_idle q) k) \<le> length (bucket_of (wp_idle p) k)) \<and>
     (\<forall>k. length (bucket_of (wp_cf_idle q) k) \<le> length (bucket_of (wp_cf_idle p) k))"

lemma shrunk_refl [simp]: "shrunk p p"
  by (simp add: shrunk_def)

lemma pool_get_shape:
  assumes "pool_get dead now dc is_media ip skip allow p = (ws, tasks, p')"
  obtains q where "shrunk p q"
    and "tasks = [] \<and> p' = q \<or> schedule_refill dc is_media ip skip q = (tasks, p')"
proof -
  obtain e rest where pop: "pop_live (\<lambda>entry. wp_max_age p < now - pe_created entry \<or> dead (pe_ws entry))
      (bucket_of (wp_idle p) (dc, is_media)) = (e, rest)" by fastforce
  show thesis
    using assms pop pop_live_length [OF pop]
    by (intro that [of "p\<lparr>wp_idle := (wp_idle p)((dc, is_media) \<mapsto> rest)\<rparr>"])
      (auto simp: pool_get_def shrunk_def Let_def split: if_splits prod.splits)
qed

lemma cf_get_shape:
  assumes "Pool.cf_get dead now tier dc is_media p = (ws, tasks, p')"
  obtains q where "shrunk p q"
    and "tasks = [] \<and> p' = q \<or> (\<exists>t. cf_prefetch t q = (tasks, p'))"
proof (cases "wp_cf_idle p (tier, dc, is_media)")
  case None
  then show thesis using assms by (intro that [of p]) (auto simp: Pool.cf_get_def)
next
  case (Some bucket)
  obtain e rest where pop: "pop_live (\<lambda>entry. wp_max_age p < now - ce_created entry \<or> dead (ce_ws entry))
      bucket = (e, rest)" by fastforce
  have "bucket_of (wp_cf_idle p) (tier, dc, is_media) = bucket"
    using Some by (simp add: bucket_of_def)
  then show thesis
    using assms pop pop_live_length [OF pop] Some
    by (intro that [of "p\<lparr>wp_cf_idle := (wp_cf_idle p)((tier, dc, is_media) \<mapsto> rest)\<rparr>"])
      (auto simp: Pool.cf_get_def shrunk_def Let_def split: option.splits prod.splits)
qed

definition pool_inv :: "pool_sys \<Rightarrow> bool" where
  "pool_inv y \<longleftrightarrow> (\<forall>k. bucket_inv k y) \<and> (\<forall>k. cf_inv k y) \<and> dial_inv y"

lemma shrunk_inv:
  assumes "shrunk (sy_pool y) q" and "pool_inv y"
  shows "pool_inv (y\<lparr>sy_pool := q\<rparr>)"
proof -
  have same: "wp_pool_size q = wp_pool_size (sy_pool y)" "wp_refilling q = wp_refilling (sy_pool y)"
    "wp_cf_refilling q = wp_cf_refilling (sy_pool y)"
    and idle: "length (bucket_of (wp_idle q) k) \<le> length (bucket_of (wp_idle (sy_pool y)) k)"
    and cf: "length (bucket_of (wp_cf_idle q) c) \<le> length (bucket_of (wp_cf_idle (sy_pool y)) c)" for k c
    using assms(1) unfolding shrunk_def by blast+
  have "bucket_inv k y" "cf_inv c y" for k c
    using assms(2) unfolding pool_inv_def by blast+
  then have "bucket_inv k (y\<lparr>sy_pool := q\<rparr>)" "cf_inv c (y\<lparr>sy_pool := q\<rparr>)" for k c
    using same idle [of k] cf [of c]
    by (simp_all add: bucket_inv_def cf_inv_def warm_load_def idle_count_def cf_idle_count_def total_def
        cf_budget_def) (meson add_le_mono1 le_trans)+
  then show ?thesis
    using assms by (simp add: pool_inv_def dial_inv_def)
qed

lemma spawn_refill_inv:
  assumes "pool_inv y" and "key \<notin> wp_refilling (sy_pool y)"
  shows "pool_inv (y\<lparr>sy_pool := (sy_pool y)\<lparr>wp_refilling := insert key (wp_refilling (sy_pool y))\<rparr>,
    sy_jobs := sy_jobs y + {#Spawned (RefillTask key ip skip)#}\<rparr>)"
  using assms by (auto simp: pool_inv_def pool_inv_defs cf_budget_def)

lemma spawn_cf_refill_inv:
  assumes "pool_inv y" and "target_key t \<notin> wp_cf_refilling (sy_pool y)"
  shows "pool_inv (y\<lparr>sy_pool := (sy_pool y)\<lparr>wp_cf_refilling := insert (target_key t) (wp_cf_refilling (sy_pool y))\<rparr>,
    sy_jobs := sy_jobs y + {#Spawned (CfRefillTask t)#}\<rparr>)"
  using assms by (auto simp: pool_inv_def pool_inv_defs cf_budget_def)

lemma client_step_inv:
  assumes "client_step y y'" and "pool_inv y"
  shows "pool_inv y'"
  using assms(1)
proof cases
  case (clock now')
  then show ?thesis using assms(2) by (simp add: pool_inv_def pool_inv_defs)
next
  case (get dead dc is_media ip skip allow ws tasks p)
  from pool_get_shape [OF get(2)] obtain q where q: "shrunk (sy_pool y) q"
    "tasks = [] \<and> p = q \<or> schedule_refill dc is_media ip skip q = (tasks, p)" .
  note inv = shrunk_inv [OF q(1) assms(2)]
  show ?thesis
    using q(2) inv spawn_refill_inv [OF inv] get(1)
    by (auto dest!: schedule_refill_cases)
next
  case (cf_get dead tier dc is_media ws tasks p)
  from cf_get_shape [OF cf_get(2)] obtain q where q: "shrunk (sy_pool y) q"
    "tasks = [] \<and> p = q \<or> (\<exists>t. cf_prefetch t q = (tasks, p))" .
  note inv = shrunk_inv [OF q(1) assms(2)]
  show ?thesis
    using q(2) inv spawn_cf_refill_inv [OF inv] cf_get(1)
    by (auto dest!: cf_prefetch_cases)
next
  case (prefetch target tasks p)
  then show ?thesis
    using assms(2) spawn_cf_refill_inv [OF assms(2)]
    by (auto dest!: cf_prefetch_cases)
qed

lemma job_step_bucket_inv:
  assumes "job_step y y'" and "bucket_inv k y"
  shows "bucket_inv k y'"
  using assms(1)
proof cases
  case (refill_begin key ip skip M needed)
  then show ?thesis
    using assms(2) no_refill_no_fill [of k M]
    by (auto simp: bucket_inv_def warm_load_def idle_count_def total_def refill_needed_def batch_size_def
        batch_start_def Let_def simp del: sum_mset_0_iff split: if_splits)
next
  case (refill_end key b M)
  then show ?thesis
    using assms(2)
    by (auto simp: bucket_inv_def warm_load_def idle_count_def total_def refill_commit_def release_refill_def
        push_entries_def batch_size_def batch_ended_def Let_def split: if_splits)
next
  case (warmup_begin key keys)
  then show ?thesis
    using assms(2)
    by (auto simp: bucket_inv_def warm_load_def idle_count_def total_def batch_size_def batch_start_def)
next
  case (warmup_end key b M)
  then show ?thesis
    using assms(2)
    by (auto simp: bucket_inv_def warm_load_def idle_count_def total_def warmup_commit_def
        push_entries_def batch_size_def batch_ended_def)
qed (use assms(2) in \<open>auto simp: bucket_inv_def warm_load_def idle_count_def total_def batch_defs
    release_refill_def release_cf_refill_def cf_refill_commit_def Let_def split: if_splits option.splits\<close>)

lemma job_step_cf_inv:
  assumes "job_step y y'" and "cf_inv k y"
  shows "cf_inv k y'"
  using assms(1)
proof cases
  case (cf_begin t M)
  then show ?thesis
    using assms(2) no_cf_no_dialling [of k M]
    by (auto simp: cf_inv_def cf_idle_count_def total_def cf_refill_wanted_def cf_budget_def pool_consts
        split: if_splits)
next
  case (cf_end t M conn)
  then show ?thesis
    using assms(2)
    by (auto simp: cf_inv_def cf_idle_count_def total_def cf_refill_commit_def release_cf_refill_def
        cf_budget_def Let_def split: if_splits option.splits)
qed (use assms(2) in \<open>auto simp: cf_inv_def cf_idle_count_def total_def batch_defs cf_budget_def
    release_refill_def release_cf_refill_def refill_commit_def warmup_commit_def Let_def split: if_splits\<close>)

lemma job_step_dial_inv:
  assumes "job_step y y'" and "dial_inv y"
  shows "dial_inv y'"
  using assms
  by cases (auto simp: dial_inv_def batch_defs pool_consts)

lemma job_step_inv: "job_step y y' \<Longrightarrow> pool_inv y \<Longrightarrow> pool_inv y'"
  unfolding pool_inv_def by (blast intro: job_step_bucket_inv job_step_cf_inv job_step_dial_inv)

interpretation pool: invariant_system pool_step pool_inv
  by unfold_locales (auto elim!: pool_step.cases intro: client_step_inv job_step_inv)

section \<open>The tasks come to an end\<close>

fun job_rank :: "nat \<Rightarrow> pool_job \<Rightarrow> nat" where
  "job_rank P (Spawned (RefillTask _ _ _)) = 2 * P + 2"
| "job_rank P (Spawned (CfRefillTask _)) = 2"
| "job_rank P (Filling _ b) = 2 * cb_left b + cb_dialling b + 1"
| "job_rank P (Warming _ b) = 2 * cb_left b + cb_dialling b + 1"
| "job_rank P (CfDialling _) = 1"

definition pool_rank :: "pool_sys \<Rightarrow> nat" where
  "pool_rank y =
     total (job_rank (wp_pool_size (sy_pool y))) y +
     length (sy_warmup y) * (2 * wp_pool_size (sy_pool y) + 2)"

definition no_tasks :: "pool_sys \<Rightarrow> bool" where
  "no_tasks y \<longleftrightarrow> sy_jobs y = {#} \<and> sy_warmup y = []"

lemma refill_commit_size [simp]: "wp_pool_size (refill_commit now key conns p) = wp_pool_size p"
  by (simp add: refill_commit_def Let_def)

lemma cf_refill_commit_size [simp]: "wp_pool_size (cf_refill_commit now t conn p) = wp_pool_size p"
  by (simp add: cf_refill_commit_def Let_def split: option.split)

lemma job_step_rank:
  assumes "job_step y y'"
  shows "pool_rank y' < pool_rank y"
  using assms
  by cases (auto simp: pool_rank_def total_def batch_defs release_refill_def release_cf_refill_def
      warmup_commit_def refill_needed_def Let_def split: if_splits)

text \<open>A task always has a step, without counting on a panic.\<close>

lemma batch_can_step: "batch_ended b \<or> 0 < cb_dialling b \<or> batch_may_dial b"
  by (auto simp: batch_defs pool_consts)

lemma task_can_step:
  assumes "sy_jobs y = add_mset (Spawned task) M"
  shows "\<exists>y'. job_step y y'"
proof (cases task)
  case (RefillTask key ip skip)
  then show ?thesis
    using assms job_step.refill_full job_step.refill_begin
    by (cases "refill_needed key (sy_pool y)") blast+
next
  case (CfRefillTask t)
  then show ?thesis
    using assms job_step.cf_full job_step.cf_begin
    by (cases "cf_refill_wanted (target_key t) (sy_pool y)") blast+
qed

lemma job_can_step:
  assumes "sy_jobs y = add_mset j M"
  shows "\<exists>y'. job_step y y'"
proof (cases j)
  case (Spawned task)
  then show ?thesis using assms task_can_step by blast
next
  case (Filling key b)
  then show ?thesis
    using assms batch_can_step [of b]
    by (auto dest: job_step.refill_end job_step.refill_opened job_step.refill_dial)
next
  case (Warming key b)
  then show ?thesis
    using assms batch_can_step [of b]
    by (auto dest: job_step.warmup_end job_step.warmup_opened job_step.warmup_dial)
next
  case (CfDialling t)
  then show ?thesis using assms job_step.cf_end by blast
qed

lemma pool_progress:
  assumes "\<not> no_tasks y"
  shows "\<exists>y'. job_step y y'"
proof (cases "sy_jobs y")
  case empty
  then obtain key keys where "sy_warmup y = key # keys"
    using assms by (cases "sy_warmup y") (auto simp: no_tasks_def)
  then show ?thesis
    using empty job_step.warmup_begin by (fastforce simp: pool_consts)
next
  case (add j M)
  then show ?thesis using job_can_step by blast
qed

interpretation tasks: ranked_system job_step pool_inv pool_rank no_tasks
  by unfold_locales (auto intro: job_step_inv job_step_rank pool_progress)

lemma pool_step_size: "pool_step\<^sup>*\<^sup>* y y' \<Longrightarrow> wp_pool_size (sy_pool y') = wp_pool_size (sy_pool y)"
proof (induction rule: rtranclp_induct)
  case (step y' y'')
  have "wp_pool_size (sy_pool y'') = wp_pool_size (sy_pool y')" if "client_step y' y''"
    using that
    by cases (auto simp: shrunk_def dest!: schedule_refill_cases cf_prefetch_cases
        elim!: pool_get_shape cf_get_shape)
  moreover have "wp_pool_size (sy_pool y'') = wp_pool_size (sy_pool y')" if "job_step y' y''"
    using that by cases (auto simp: release_refill_def release_cf_refill_def warmup_commit_def)
  ultimately show ?case
    using step by (auto elim: pool_step.cases)
qed simp

lemma pool_init_inv: "distinct keys \<Longrightarrow> pool_inv (pool_init P max_age keys)"
  by (auto simp: pool_inv_def pool_inv_defs pool_init_def pool_with_runtime_def distinct_count_atmost_1)

section \<open>Properties\<close>

text \<open>The sockets a background task holds for a bucket: dials under way and results.\<close>

fun job_sockets :: "PoolKey \<Rightarrow> pool_job \<Rightarrow> nat" where
  "job_sockets k (Filling key b) = (if key = k then cb_dialling b + length (cb_results b) else 0)"
| "job_sockets k (Warming key b) = (if key = k then cb_dialling b + length (cb_results b) else 0)"
| "job_sockets k _ = 0"

lemma job_sockets_le: "total (job_sockets k) y \<le> total (fill_size k) y + total (warm_size k) y"
proof -
  have "(\<Sum>j\<in>#M. job_sockets k j) \<le> (\<Sum>j\<in>#M. fill_size k j) + (\<Sum>j\<in>#M. warm_size k j)" for M
  proof (induction M)
    case (add j M)
    then show ?case by (cases j) (auto simp: batch_size_def)
  qed simp
  then show ?thesis by (simp add: total_def)
qed

text \<open>
  C9: the pool keeps within its budget however its tasks and the clients interleave. A bucket
  with the connections being opened for it, by a refill and by warm-up together, never holds
  more than two sockets per slot; a Cloudflare bucket with its refill never holds more than one
  connection; and at most two buckets are warmed at once, with at most two dials under way in
  any batch.
\<close>

theorem pool_bounded:
  assumes "distinct keys" and "pool_step\<^sup>*\<^sup>* (pool_init pool_size max_age keys) y"
  shows "idle_count k y + total (job_sockets k) y \<le> 2 * pool_size \<and>
         cf_idle_count c y + total (cf_dialling c) y \<le> min CF_POOL_MAX pool_size \<and>
         size (filter_mset warming_job (sy_jobs y)) \<le> WARMUP_BUCKET_CONCURRENCY \<and>
         (j \<in># sy_jobs y \<longrightarrow> batch_dials j \<le> POOL_CONNECT_CONCURRENCY)"
proof -
  have inv: "pool_inv y"
    using pool.inv_reach [OF assms(2)] pool_init_inv [OF assms(1)] by blast
  moreover have "wp_pool_size (sy_pool y) = pool_size"
    using assms(2) pool_step_size by (fastforce simp: pool_init_def pool_with_runtime_def)
  ultimately have b: "bucket_inv k y" and c: "cf_inv c y" and d: "dial_inv y"
    and size: "wp_pool_size (sy_pool y) = pool_size"
    unfolding pool_inv_def by blast+
  show ?thesis
    using b c d job_sockets_le [of k y] size
    by (auto simp: bucket_inv_def cf_inv_def dial_inv_def warm_load_def cf_budget_def)
qed

text \<open>
  C10: a refill is spawned at most once per bucket and its reservation is never lost. In every
  reachable state a bucket is reserved exactly if one task is refilling it, and likewise for the
  Cloudflare buckets; from there the background tasks make at most \<open>pool_rank\<close> steps, and
  wherever they stop no task is left and every bucket can be refilled again.
\<close>

theorem pool_tasks_release:
  assumes "distinct keys" and "pool_step\<^sup>*\<^sup>* (pool_init pool_size max_age keys) y"
    and "(job_step ^^ n) y y'"
  shows "total (refill_count k) y' = (if k \<in> wp_refilling (sy_pool y') then 1 else 0) \<and>
         total (cf_count c) y' = (if c \<in> wp_cf_refilling (sy_pool y') then 1 else 0) \<and>
         n \<le> pool_rank y \<and>
         ((\<exists>y''. job_step y' y'') \<or>
          sy_jobs y' = {#} \<and> sy_warmup y' = [] \<and>
          wp_refilling (sy_pool y') = {} \<and> wp_cf_refilling (sy_pool y') = {})"
proof -
  have "pool_inv y"
    using pool.inv_reach [OF assms(2)] pool_init_inv [OF assms(1)] by blast
  then have n: "n \<le> pool_rank y" and inv: "pool_inv y'"
    using tasks.run_bounded [OF assms(3)] by auto
  have reserved: "total (refill_count k) y' = (if k \<in> wp_refilling (sy_pool y') then 1 else 0)"
    "total (cf_count c) y' = (if c \<in> wp_cf_refilling (sy_pool y') then 1 else 0)" for k c
    using inv unfolding pool_inv_def bucket_inv_def cf_inv_def by blast+
  have "k \<notin> wp_refilling (sy_pool y')" "c \<notin> wp_cf_refilling (sy_pool y')" if "no_tasks y'" for k c
    using that reserved(1) [of k] reserved(2) [of c] by (auto simp: no_tasks_def total_def split: if_splits)
  then have "wp_refilling (sy_pool y') = {} \<and> wp_cf_refilling (sy_pool y') = {}" if "no_tasks y'"
    using that by blast
  then show ?thesis
    using reserved n pool_progress [of y'] unfolding no_tasks_def by blast
qed

text \<open>
  C33: taking a connection. The one handed out is the newest idle one that is neither too old nor
  closed, everything newer is dropped, everything older stays; a miss empties the bucket and
  means that nothing in it was usable. A refill is spawned exactly if it is allowed, pooling is
  on and none is under way.
\<close>

theorem pool_get_newest:
  assumes "pool_get dead now dc is_media ip skip allow p = (ws, tasks, p')"
  defines "bucket \<equiv> bucket_of (wp_idle p) (dc, is_media)"
  defines "usable \<equiv> \<lambda>e. now - pe_created e \<le> wp_max_age p \<and> \<not> dead (pe_ws e)"
  shows "ws = (if filter usable bucket = [] then None else Some (pe_ws (last (filter usable bucket)))) \<and>
         (\<exists>dropped. bucket = bucket_of (wp_idle p') (dc, is_media) @ dropped \<and>
            filter usable dropped = (if ws = None then [] else [last (filter usable bucket)])) \<and>
         tasks = (if allow \<and> 0 < wp_pool_size p \<and> (dc, is_media) \<notin> wp_refilling p
                  then [RefillTask (dc, is_media) ip skip] else [])"
proof -
  define discard where "discard = (\<lambda>e :: PoolEntry. wp_max_age p < now - pe_created e \<or> dead (pe_ws e))"
  have usable: "usable = (\<lambda>e. \<not> discard e)"
    by (auto simp: usable_def discard_def fun_eq_iff)
  obtain taken rest where pop: "pop_live discard bucket = (taken, rest)" by fastforce
  obtain gone where gone: "bucket = rest @ (case taken of None \<Rightarrow> [] | Some e \<Rightarrow> [e]) @ gone"
    "list_all discard gone" "case taken of None \<Rightarrow> rest = [] | Some e \<Rightarrow> \<not> discard e"
    using pop_live_split [of bucket discard] unfolding pop fst_conv snd_conv by blast
  have "filter usable gone = []"
    using gone(2) by (simp add: usable list_all_iff filter_empty_conv)
  then have live: "filter usable bucket = filter usable rest @ (case taken of None \<Rightarrow> [] | Some e \<Rightarrow> [e])"
    using gone by (auto simp: usable split: option.splits)
  moreover have "ws = map_option pe_ws taken" "bucket_of (wp_idle p') (dc, is_media) = rest"
    "tasks = (if allow \<and> 0 < wp_pool_size p \<and> (dc, is_media) \<notin> wp_refilling p
              then [RefillTask (dc, is_media) ip skip] else [])"
    using assms(1) pop
    by (auto simp: pool_get_def discard_def bucket_def schedule_refill_def reserve_refill_def Let_def
        split: if_splits)
  moreover have "filter usable ((case taken of None \<Rightarrow> [] | Some e \<Rightarrow> [e]) @ gone) =
      (case taken of None \<Rightarrow> [] | Some e \<Rightarrow> [e])"
    using \<open>filter usable gone = []\<close> gone(3) by (auto simp: usable split: option.splits)
  ultimately show ?thesis
    using gone(1,3) by (cases taken) (auto intro!: exI [of _ "(case taken of None \<Rightarrow> [] | Some e \<Rightarrow> [e]) @ gone"])
qed

text \<open>
  A refill restores the bucket. After a miss that spawns it, with every dial successful and
  nobody else filling the bucket, the refill leaves exactly \<open>pool_size\<close> connections, created
  when it ended, and the reservation released.
\<close>

lemma pool_refill_restores:
  fixes now' :: nat
  assumes "pool_get dead now dc is_media ip skip True p = (None, [RefillTask (dc, is_media) ip skip], p1)"
    and "refill_needed (dc, is_media) p1 = Some needed" and "length conns = needed"
  defines "p2 \<equiv> release_refill (dc, is_media) (refill_commit now' (dc, is_media) conns p1)"
  shows "bucket_of (wp_idle p2) (dc, is_media) = map (\<lambda>ws. \<lparr>pe_ws = ws, pe_created = now'\<rparr>) conns \<and>
         length conns = wp_pool_size p \<and> wp_refilling p2 = wp_refilling p \<and> 0 < wp_pool_size p"
proof -
  obtain taken rest where pop: "pop_live (\<lambda>e. wp_max_age p < now - pe_created e \<or> dead (pe_ws e))
      (bucket_of (wp_idle p) (dc, is_media)) = (taken, rest)" by fastforce
  have "taken = None"
    using assms(1) pop by (auto simp: pool_get_def Let_def split: prod.splits)
  then have "rest = []"
    using pop_live_split [of "bucket_of (wp_idle p) (dc, is_media)"
        "\<lambda>e. wp_max_age p < now - pe_created e \<or> dead (pe_ws e)"] pop by auto
  then have p1: "p1 = p\<lparr>wp_idle := (wp_idle p)((dc, is_media) \<mapsto> []),
      wp_refilling := insert (dc, is_media) (wp_refilling p)\<rparr>"
    and "0 < wp_pool_size p" "(dc, is_media) \<notin> wp_refilling p"
    using assms(1) pop
    by (auto simp: pool_get_def schedule_refill_def reserve_refill_def Let_def split: if_splits)
  moreover have "needed = wp_pool_size p" "conns \<noteq> []"
    using assms(2,3) p1 by (auto simp: refill_needed_def Let_def split: if_splits)
  ultimately show ?thesis
    using assms(3) by (auto simp: p2_def release_refill_def refill_commit_def push_entries_def)
qed

section \<open>A sample run\<close>

text \<open>A miss on the bucket of data centre 2, and the refill it spawns up to its first dial.\<close>

definition sample_pool :: WsPool where
  "sample_pool = \<lparr>wp_pool_size = 1, wp_max_age = 55, wp_idle = [(2, False) \<mapsto> []], wp_cf_idle = Map.empty,
     wp_refilling = {(2, False)}, wp_cf_refilling = {}\<rparr>"

definition sample_sys :: "pool_job \<Rightarrow> pool_sys" where
  "sample_sys j = \<lparr>sy_pool = sample_pool, sy_now = 0, sy_jobs = {#j#}, sy_warmup = [(2, False)]\<rparr>"

lemma sample_get:
  "pool_get (\<lambda>_. False) 0 2 False ip skip True (pool_with_runtime 1 55) =
     (None, [RefillTask (2, False) ip skip], sample_pool)"
  by (simp add: pool_get_def pop_live.simps schedule_refill_def reserve_refill_def
      pool_with_runtime_def sample_pool_def)

lemma sample_spawned:
  "pool_step (pool_init 1 55 [(2, False)]) (sample_sys (Spawned (RefillTask (2, False) [] False)))"
proof -
  let ?y = "pool_init 1 55 [(2, False)]"
  have "pool_get (\<lambda>_. False) (sy_now ?y) 2 False [] False True (sy_pool ?y) =
      (None, [RefillTask (2, False) [] False], sample_pool)"
    unfolding pool_init_def by (simp only: pool_sys.select_convs sample_get)
  from client_step.get [OF this] show ?thesis
    by (intro pool_step.client) (simp add: pool_init_def sample_sys_def)
qed

lemma sample_begun:
  "job_step (sample_sys (Spawned (RefillTask (2, False) [] False))) (sample_sys (Filling (2, False) (batch_start 1)))"
  using job_step.refill_begin [of "sample_sys (Spawned (RefillTask (2, False) [] False))" "(2, False)" "[]" False "{#}" 1]
  by (simp add: sample_sys_def sample_pool_def refill_needed_def bucket_of_def)

lemma sample_dialled:
  "job_step (sample_sys (Filling (2, False) (batch_start 1)))
     (sample_sys (Filling (2, False) (batch_dial (batch_start 1))))"
  using job_step.refill_dial [of "sample_sys (Filling (2, False) (batch_start 1))" "(2, False)" "batch_start 1" "{#}"]
  by (simp add: sample_sys_def batch_defs pool_consts)

lemma sample_reach:
  "pool_step\<^sup>*\<^sup>* (pool_init 1 55 [(2, False)]) (sample_sys (Filling (2, False) (batch_dial (batch_start 1))))"
  using sample_spawned pool_step.job [OF sample_begun] pool_step.job [OF sample_dialled]
  by (meson converse_rtranclp_into_rtranclp rtranclp.rtrancl_refl)

theorem pool_bounded_witness:
  "idle_count (2, False) (sample_sys (Filling (2, False) (batch_dial (batch_start 1)))) +
   total (job_sockets (2, False)) (sample_sys (Filling (2, False) (batch_dial (batch_start 1)))) \<le> 2 \<and>
   batch_dials (Filling (2, False) (batch_dial (batch_start 1))) \<le> POOL_CONNECT_CONCURRENCY"
  using pool_bounded [OF _ sample_reach, of "(2, False)" _ "Filling (2, False) (batch_dial (batch_start 1))"]
  by (simp add: sample_sys_def)

theorem pool_tasks_release_witness:
  "total (refill_count (2, False)) (sample_sys (Filling (2, False) (batch_dial (batch_start 1)))) = 1 \<and>
   2 \<le> pool_rank (sample_sys (Spawned (RefillTask (2, False) [] False)))"
proof -
  have "(job_step ^^ 2) (sample_sys (Spawned (RefillTask (2, False) [] False)))
      (sample_sys (Filling (2, False) (batch_dial (batch_start 1))))"
    using sample_begun sample_dialled by (auto simp: numeral_2_eq_2)
  from pool_tasks_release [OF _ r_into_rtranclp [of pool_step, OF sample_spawned] this, of "(2, False)"] show ?thesis
    by (simp add: sample_sys_def sample_pool_def)
qed

definition sample_idle :: "PoolEntry list" where
  "sample_idle = [\<lparr>pe_ws = 2, pe_created = 90\<rparr>, \<lparr>pe_ws = 3, pe_created = 91\<rparr>, \<lparr>pe_ws = 4, pe_created = 92\<rparr>]"

theorem pool_get_newest_witness:
  "fst (pool_get (\<lambda>ws. ws = 4) 100 2 False [] False True (sample_pool\<lparr>wp_idle := [(2, False) \<mapsto> sample_idle]\<rparr>)) =
     Some 3"
proof -
  obtain ws tasks p where get: "pool_get (\<lambda>ws. ws = 4) 100 2 False [] False True
      (sample_pool\<lparr>wp_idle := [(2, False) \<mapsto> sample_idle]\<rparr>) = (ws, tasks, p)"
    by (metis prod_cases3)
  show ?thesis
    using pool_get_newest [OF get] get by (simp add: bucket_of_def sample_pool_def sample_idle_def)
qed

theorem pool_refill_restores_witness:
  "bucket_of (wp_idle (release_refill (2, False) (refill_commit 5 (2, False) [8] sample_pool))) (2, False) =
     [\<lparr>pe_ws = 8, pe_created = 5\<rparr>]"
proof -
  have "refill_needed (2, False) sample_pool = Some 1" "length [8 :: nat] = 1"
    by (simp_all add: refill_needed_def sample_pool_def bucket_of_def)
  from pool_refill_restores [OF sample_get this, of 5] show ?thesis by simp
qed

end
