(* ===== verification/Route.thy ===== *)
theory Route
  imports Upstream Pool "HOL-Library.Monad_Syntax"
begin

text \<open>
  Routing of one client connection, after the fallback ladder of \<^verbatim>\<open>src/proxy.rs\<close>:
  direct WebSocket, Cloudflare Worker, Cloudflare proxy, upstream MTProto proxies and plain TCP,
  in the default order or in the order the user pins, with the failure cooldowns, the balancing
  counters and the pool.

  The state extends that of \<^verbatim>\<open>WsClient\<close> by what the process shares, so the network may
  change all of it while a dial is awaited. A result of \<open>None\<close> is a task that panics or does
  not return; that this does not happen is a property below.
\<close>

section \<open>State and parameters\<close>

record route_state = ws_state +
  rs_ws_fail :: "(nat \<times> bool) cooldown_map"
  rs_ip_fail :: "str cooldown_map"
  rs_upstream_fail :: "str cooldown_map"
  rs_cf_worker_fail :: "str cooldown_map"
  rs_cf_balance :: nat
  rs_cf_worker_balance :: nat
  rs_pool :: WsPool
  rs_spawned :: "pool_task list"

type_synonym route_world = "unit route_state_ext world"

definition upstream_key :: "str \<Rightarrow> nat \<Rightarrow> str" where
  "upstream_key host port = host @ lit '':'' @ show_nat port"

record Timeouts =
  to_ws_connect :: nat
  to_ws_fail_probe :: nat
  to_ws_fail_cooldown :: nat
  to_ws_redirect_cooldown :: nat
  to_ip_fail_cooldown :: nat
  to_handshake :: nat
  to_tcp_fallback :: nat
  to_upstream_connect :: nat
  to_upstream_fail_cooldown :: nat
  to_cf_connect :: nat
  to_cf_fail_cooldown :: nat

definition timeouts_from_config :: "Config \<Rightarrow> Timeouts" where
  "timeouts_from_config c =
     \<lparr>to_ws_connect = cfg_ws_connect_timeout c, to_ws_fail_probe = cfg_ws_fail_probe_timeout c,
      to_ws_fail_cooldown = cfg_ws_fail_cooldown c,
      to_ws_redirect_cooldown = cfg_ws_redirect_cooldown c,
      to_ip_fail_cooldown = cfg_ip_fail_cooldown c, to_handshake = cfg_handshake_timeout c,
      to_tcp_fallback = cfg_tcp_fallback_timeout c,
      to_upstream_connect = cfg_upstream_connect_timeout c,
      to_upstream_fail_cooldown = cfg_upstream_fail_cooldown c,
      to_cf_connect = cfg_cf_connect_timeout c, to_cf_fail_cooldown = cfg_cf_fail_cooldown c\<rparr>"

record Route =
  ro_config :: Config
  ro_runtime :: Runtime
  ro_timeouts :: Timeouts
  ro_dc :: nat
  ro_is_media :: bool
  ro_dc_idx :: i16
  ro_proto :: ProtoTag

datatype WsFraming = Packets | Tunnel

datatype Upstream =
    UpWs nat WsFraming
  | UpMtproto UpstreamConnection
  | UpTcp str

section \<open>Balancing\<close>

definition balance_offset :: "nat \<Rightarrow> str list \<Rightarrow> bool \<Rightarrow> nat \<Rightarrow> nat \<times> nat" where
  "balance_offset W domains enabled counter =
     (if \<not> enabled \<or> length domains \<le> 1 then (0, counter)
      else (counter mod length domains, (counter + 1) mod 2 ^ W))"

definition domain_order :: "str list \<Rightarrow> nat \<Rightarrow> str list" where
  "domain_order domains first =
     map (\<lambda>offset. domains ! ((first + offset) mod length domains)) [0..<length domains]"

text \<open>The spare the pool should open next, and the counter after choosing it.\<close>

definition cf_target ::
    "nat \<Rightarrow> Route \<Rightarrow> CfTier \<Rightarrow> str \<Rightarrow> str \<Rightarrow> str list \<Rightarrow> nat \<Rightarrow> CfTarget \<times> nat" where
  "cf_target W ro tier dst domain rotation counter =
     (let (domain, counter) =
            (if cfg_cf_balance (ro_config ro)
             then let (offset, counter) = balance_offset W rotation True counter
                  in (case domain_order rotation offset of [] \<Rightarrow> domain | d # _ \<Rightarrow> d, counter)
             else (domain, counter))
      in (\<lparr>ct_tier = tier, ct_dc = ro_dc ro, ct_is_media = ro_is_media ro, ct_dst = dst,
           ct_domain = domain, ct_skip_tls_verify = cfg_skip_tls_verify (ro_config ro),
           ct_connect_timeout = to_cf_connect (ro_timeouts ro),
           ct_disable_tls = cfg_cf_disable_tls (ro_config ro)\<rparr>, counter))"

definition route_dial_opts :: "Route \<Rightarrow> CfDialOpts" where
  "route_dial_opts ro =
     \<lparr>cd_cf_ips = rt_cf_ips (ro_runtime ro), cd_disable_tls = cfg_cf_disable_tls (ro_config ro),
      cd_fail_cooldown = to_cf_fail_cooldown (ro_timeouts ro)\<rparr>"

section \<open>Cloudflare Worker\<close>

fun cf_worker_loop ::
    "route_world \<Rightarrow> Route \<Rightarrow> str \<Rightarrow> bool \<Rightarrow> str list \<Rightarrow> route_state \<Rightarrow> (nat option \<times> route_state) option" where
  "cf_worker_loop wd ro dst force [] s = Some (None, s)"
| "cf_worker_loop wd ro dst force (worker_domain # domains) s =
     (if \<not> force \<and> cooldown_active (rs_cf_worker_fail s) worker_domain (ws_now s)
      then cf_worker_loop wd ro dst force domains s
      else
        (case connect_cf_worker_ws_for_dc_with_outbound_opts (wd_net wd) (rt_direct (ro_runtime ro))
                (wd_usize wd) worker_domain dst (ro_dc ro) (ro_is_media ro)
                (cfg_skip_tls_verify (ro_config ro)) (to_cf_connect (ro_timeouts ro)) (route_dial_opts ro) s of
           (Panic, s) \<Rightarrow> None
         | (Ret (Some ws), s) \<Rightarrow>
             (let s = s\<lparr>rs_cf_worker_fail := cooldown_clear (rs_cf_worker_fail s) worker_domain\<rparr>;
                  (target, counter) = cf_target (wd_usize wd) ro Worker dst worker_domain
                     (cfg_cf_worker_domains (ro_config ro)) (rs_cf_worker_balance s);
                  (tasks, pool) = cf_prefetch target (rs_pool s)
              in Some (Some ws, s\<lparr>rs_cf_worker_balance := counter, rs_pool := pool,
                                  rs_spawned := rs_spawned s @ tasks\<rparr>))
         | (Ret None, s) \<Rightarrow>
             cf_worker_loop wd ro dst force domains
               (s\<lparr>rs_cf_worker_fail := cooldown_set (rs_cf_worker_fail s) worker_domain (ws_now s)
                    (to_cf_fail_cooldown (ro_timeouts ro))\<rparr>)))"

text \<open>Taking a spare from the pool, on the state.\<close>

definition route_cf_get ::
    "route_world \<Rightarrow> Route \<Rightarrow> CfTier \<Rightarrow> route_state \<Rightarrow> (nat \<times> str) option \<times> route_state" where
  "route_cf_get wd ro tier s =
     (let (taken, tasks, pool) = cf_get (wd_dead wd (ws_now s)) (ws_now s) tier (ro_dc ro) (ro_is_media ro) (rs_pool s)
      in (taken, s\<lparr>rs_pool := pool, rs_spawned := rs_spawned s @ tasks\<rparr>))"

definition cf_worker ::
    "route_world \<Rightarrow> Route \<Rightarrow> str \<Rightarrow> bool \<Rightarrow> route_state \<Rightarrow> (nat option \<times> route_state) option" where
  "cf_worker wd ro dst force s =
     (let worker_domains = cfg_cf_worker_domains (ro_config ro)
      in if worker_domains = [] then Some (None, s)
         else
           let dst = (case fallback_ip (ro_dc ro) of Some ip \<Rightarrow> ip | None \<Rightarrow> dst);
               (taken, s) = route_cf_get wd ro Worker s
           in case taken of
                Some (ws, domain) \<Rightarrow> Some (Some ws, s)
              | None \<Rightarrow>
                  (let (first_worker, counter) = balance_offset (wd_usize wd) worker_domains
                          (cfg_cf_balance (ro_config ro)) (rs_cf_worker_balance s)
                   in cf_worker_loop wd ro dst force (domain_order worker_domains first_worker)
                        (s\<lparr>rs_cf_worker_balance := counter\<rparr>)))"

section \<open>Cloudflare proxy\<close>

definition cf_proxy :: "route_world \<Rightarrow> Route \<Rightarrow> route_state \<Rightarrow> (nat option \<times> route_state) option" where
  "cf_proxy wd ro s =
     (let cf_domains = cfg_cf_domains (ro_config ro)
      in if cf_domains = [] then Some (None, s)
         else
           let (first_domain, counter) = balance_offset (wd_usize wd) cf_domains
                 (cfg_cf_balance (ro_config ro)) (rs_cf_balance s);
               s = s\<lparr>rs_cf_balance := counter\<rparr>;
               (taken, s) = route_cf_get wd ro Proxy s
           in case taken of
                Some (ws, domain) \<Rightarrow> Some (Some ws, s)
              | None \<Rightarrow>
                  (case connect_cf_ws_for_dc_with_outbound_ordered (wd_net wd) (rt_direct (ro_runtime ro))
                          (wd_usize wd) (ro_dc ro) cf_domains (cfg_skip_tls_verify (ro_config ro))
                          (to_cf_connect (ro_timeouts ro)) first_domain (route_dial_opts ro) s of
                     (Panic, s) \<Rightarrow> None
                   | (Ret (ws, domain, all_redirects), s) \<Rightarrow>
                       (case (ws, domain) of
                          (Some _, Some domain) \<Rightarrow>
                            (let (target, counter) = cf_target (wd_usize wd) ro Proxy [] domain cf_domains
                                   (rs_cf_balance s);
                                 (tasks, pool) = cf_prefetch target (rs_pool s)
                             in Some (ws, s\<lparr>rs_cf_balance := counter, rs_pool := pool,
                                            rs_spawned := rs_spawned s @ tasks\<rparr>))
                        | _ \<Rightarrow> Some (ws, s))))"

section \<open>Upstream proxies\<close>

fun upstream_loop ::
    "route_world \<Rightarrow> Route \<Rightarrow> bool \<Rightarrow> MtProtoProxy list \<Rightarrow> route_state \<Rightarrow>
     (UpstreamConnection option \<times> route_state) option" where
  "upstream_loop wd ro force [] s = Some (None, s)"
| "upstream_loop wd ro force (proxy # proxies) s =
     (let key = upstream_key (mp_host proxy) (mp_port proxy)
      in if \<not> force \<and> cooldown_active (rs_upstream_fail s) key (ws_now s)
         then upstream_loop wd ro force proxies s
         else do {
           (conn, s) \<leftarrow> connect_mtproto_upstream wd proxy (ro_dc_idx ro) (ro_proto ro)
             (to_upstream_connect (ro_timeouts ro)) s;
           (case conn of
              Some conn \<Rightarrow>
                Some (Some conn, s\<lparr>rs_upstream_fail := cooldown_clear (rs_upstream_fail s) key\<rparr>)
            | None \<Rightarrow>
                upstream_loop wd ro force proxies
                  (s\<lparr>rs_upstream_fail := cooldown_set (rs_upstream_fail s) key (ws_now s)
                       (to_upstream_fail_cooldown (ro_timeouts ro))\<rparr>))
         })"

definition upstream_proxies ::
    "route_world \<Rightarrow> Route \<Rightarrow> bool \<Rightarrow> route_state \<Rightarrow> (UpstreamConnection option \<times> route_state) option" where
  "upstream_proxies wd ro force s = upstream_loop wd ro force (cfg_mtproto_proxies (ro_config ro)) s"

section \<open>Direct WebSocket\<close>

definition cool_down_ws :: "Route \<Rightarrow> bool \<Rightarrow> route_state \<Rightarrow> route_state" where
  "cool_down_ws ro all_redirects s =
     (let cooldown = (if all_redirects then to_ws_redirect_cooldown (ro_timeouts ro)
                      else to_ws_fail_cooldown (ro_timeouts ro))
      in s\<lparr>rs_ws_fail := cooldown_set (rs_ws_fail s) (ro_dc ro, ro_is_media ro) (ws_now s) cooldown\<rparr>)"

definition cool_down_ip :: "Route \<Rightarrow> str \<Rightarrow> route_state \<Rightarrow> route_state" where
  "cool_down_ip ro target_ip s =
     s\<lparr>rs_ip_fail := cooldown_set (rs_ip_fail s) target_ip (ws_now s) (to_ip_fail_cooldown (ro_timeouts ro))\<rparr>"

definition connect_ws ::
    "route_world \<Rightarrow> Route \<Rightarrow> str \<Rightarrow> str option \<Rightarrow> route_state \<Rightarrow> WsAttempt \<times> route_state" where
  "connect_ws wd ro target_ip sni_override s =
     (let timeout = (if cooldown_active (rs_ws_fail s) (ro_dc ro, ro_is_media ro) (ws_now s)
                     then to_ws_fail_probe (ro_timeouts ro) else to_ws_connect (ro_timeouts ro))
      in connect_ws_for_dc_with_outbound (wd_net wd) target_ip (runtime_websocket_dc (ro_dc ro)) (ro_is_media ro)
           (cfg_skip_tls_verify (ro_config ro)) timeout sni_override s)"

definition direct_ws ::
    "route_world \<Rightarrow> Route \<Rightarrow> str \<Rightarrow> route_state \<Rightarrow> nat option \<times> route_state" where
  "direct_ws wd ro target_ip s =
     (let fronting = rt_fronting_domain (ro_runtime ro);
          probing = cooldown_active (rs_ws_fail s) (ro_dc ro, ro_is_media ro) (ws_now s);
          (attempt, s) = connect_ws wd ro target_ip fronting s
      in case at_ws attempt of
           Some ws \<Rightarrow>
             (Some ws, s\<lparr>rs_ws_fail := cooldown_clear (rs_ws_fail s) (ro_dc ro, ro_is_media ro),
                        rs_ip_fail := cooldown_clear (rs_ip_fail s) target_ip\<rparr>)
         | None \<Rightarrow>
             (let s = cool_down_ws ro (at_all_redirects attempt) s
              in (None, if at_connect_timed_out attempt \<and> \<not> probing then cool_down_ip ro target_ip s else s)))"

definition direct_ws_tier ::
    "route_world \<Rightarrow> Route \<Rightarrow> str \<Rightarrow> route_state \<Rightarrow> Upstream option \<times> route_state" where
  "direct_ws_tier wd ro target_ip s =
     (let (pooled, tasks, pool) = pool_get (wd_dead wd (ws_now s)) (ws_now s) (ro_dc ro) (ro_is_media ro)
            target_ip (cfg_skip_tls_verify (ro_config ro))
            (\<not> cooldown_active (rs_ip_fail s) target_ip (ws_now s)) (rs_pool s);
          s = s\<lparr>rs_pool := pool, rs_spawned := rs_spawned s @ tasks\<rparr>
      in case pooled of
           Some ws \<Rightarrow> (Some (UpWs ws Packets), s)
         | None \<Rightarrow>
             let (ws, s) = direct_ws wd ro target_ip s
             in (map_option (\<lambda>ws. UpWs ws Packets) ws, s))"

section \<open>The ladders\<close>

definition has_fallback :: "Route \<Rightarrow> bool" where
  "has_fallback ro \<longleftrightarrow>
     cfg_cf_worker_domains (ro_config ro) \<noteq> [] \<or> cfg_cf_domains (ro_config ro) \<noteq> [] \<or>
     cfg_mtproto_proxies (ro_config ro) \<noteq> []"

definition tcp_fallback :: "str \<Rightarrow> Upstream" where
  "tcp_fallback dst = UpTcp dst"

definition tcp_last_resort :: "Route \<Rightarrow> str \<Rightarrow> Upstream" where
  "tcp_last_resort ro target_ip =
     (let dst = (case fallback_ip (ro_dc ro) of Some ip \<Rightarrow> ip | None \<Rightarrow> target_ip)
      in tcp_fallback dst)"

definition cf_tiers ::
    "route_world \<Rightarrow> Route \<Rightarrow> str \<Rightarrow> route_state \<Rightarrow> (Upstream option \<times> route_state) option" where
  "cf_tiers wd ro dst s = do {
     (ws, s) \<leftarrow> cf_worker wd ro dst False s;
     (case ws of
        Some ws \<Rightarrow> Some (Some (UpWs ws Tunnel), s)
      | None \<Rightarrow> do {
          (ws, s) \<leftarrow> cf_proxy wd ro s;
          Some (map_option (\<lambda>ws. UpWs ws Packets) ws, s)
        })
   }"

definition fallback_chain ::
    "route_world \<Rightarrow> Route \<Rightarrow> str \<Rightarrow> route_state \<Rightarrow> (Upstream option \<times> route_state) option" where
  "fallback_chain wd ro dst s = do {
     (upstream, s) \<leftarrow> cf_tiers wd ro dst s;
     (case upstream of
        Some upstream \<Rightarrow> Some (Some upstream, s)
      | None \<Rightarrow> do {
          (conn, s) \<leftarrow> upstream_proxies wd ro False s;
          Some (map_option UpMtproto conn, s)
        })
   }"

definition tier_attemptable :: "Route \<Rightarrow> str option \<Rightarrow> UpstreamTier \<Rightarrow> bool" where
  "tier_attemptable ro target_ip tier =
     (case tier of
        Ws \<Rightarrow> target_ip \<noteq> None
      | Cfworker \<Rightarrow> cfg_cf_worker_domains (ro_config ro) \<noteq> []
      | Cfproxy \<Rightarrow> cfg_cf_domains (ro_config ro) \<noteq> []
      | Mtproto \<Rightarrow> cfg_mtproto_proxies (ro_config ro) \<noteq> []
      | Tcp \<Rightarrow> target_ip \<noteq> None \<or> fallback_ip (ro_dc ro) \<noteq> None)"

definition tier_attemptable_after :: "Route \<Rightarrow> UpstreamTier list \<Rightarrow> str option \<Rightarrow> bool" where
  "tier_attemptable_after ro tiers_from target_ip = list_ex (tier_attemptable ro target_ip) tiers_from"

definition worker_dst :: "Route \<Rightarrow> str option \<Rightarrow> str option" where
  "worker_dst ro target_ip = (case fallback_ip (ro_dc ro) of Some ip \<Rightarrow> Some ip | None \<Rightarrow> target_ip)"

fun pinned_ladder ::
    "route_world \<Rightarrow> Route \<Rightarrow> UpstreamTier list \<Rightarrow> str option \<Rightarrow> route_state \<Rightarrow>
     (Upstream option \<times> route_state) option" where
  "pinned_ladder wd ro [] target_ip s = Some (None, s)"
| "pinned_ladder wd ro (tier # tiers) target_ip s =
     (let last_resort = \<not> tier_attemptable_after ro tiers target_ip
      in case tier of
           Ws \<Rightarrow>
             (case target_ip of
                None \<Rightarrow> pinned_ladder wd ro tiers target_ip s
              | Some ip \<Rightarrow>
                  (let (upstream, s) = direct_ws_tier wd ro ip s
                   in case upstream of
                        Some upstream \<Rightarrow> Some (Some upstream, s)
                      | None \<Rightarrow> pinned_ladder wd ro tiers target_ip s))
         | Cfworker \<Rightarrow>
             (case worker_dst ro target_ip of
                None \<Rightarrow> pinned_ladder wd ro tiers target_ip s
              | Some dst \<Rightarrow> do {
                  (ws, s) \<leftarrow> cf_worker wd ro dst last_resort s;
                  (case ws of
                     Some ws \<Rightarrow> Some (Some (UpWs ws Tunnel), s)
                   | None \<Rightarrow> pinned_ladder wd ro tiers target_ip s)
                })
         | Cfproxy \<Rightarrow> do {
             (ws, s) \<leftarrow> cf_proxy wd ro s;
             (case ws of
                Some ws \<Rightarrow> Some (Some (UpWs ws Packets), s)
              | None \<Rightarrow> pinned_ladder wd ro tiers target_ip s)
           }
         | Mtproto \<Rightarrow> do {
             (conn, s) \<leftarrow> upstream_proxies wd ro last_resort s;
             (case conn of
                Some conn \<Rightarrow> Some (Some (UpMtproto conn), s)
              | None \<Rightarrow> pinned_ladder wd ro tiers target_ip s)
           }
         | Tcp \<Rightarrow>
             (case worker_dst ro target_ip of
                None \<Rightarrow> pinned_ladder wd ro tiers target_ip s
              | Some dst \<Rightarrow> Some (Some (tcp_fallback dst), s)))"

definition select_upstream ::
    "route_world \<Rightarrow> Route \<Rightarrow> str option \<Rightarrow> route_state \<Rightarrow> (Upstream option \<times> route_state) option" where
  "select_upstream wd ro target_ip s =
     (case forced_upstreams (ro_config ro) (ro_is_media ro) of
        Some tiers \<Rightarrow> pinned_ladder wd ro tiers target_ip s
      | None \<Rightarrow>
          (case target_ip of
             None \<Rightarrow>
               (case fallback_ip (ro_dc ro) of
                  None \<Rightarrow> Some (None, s)
                | Some fallback \<Rightarrow> do {
                    (upstream, s) \<leftarrow> fallback_chain wd ro fallback s;
                    Some (Some (case upstream of Some u \<Rightarrow> u | None \<Rightarrow> tcp_fallback fallback), s)
                  })
           | Some target_ip \<Rightarrow>
               (let ip_cooling = cooldown_active (rs_ip_fail s) target_ip (ws_now s) \<and> has_fallback ro
                in do {
                  (upstream, s) \<leftarrow> (if ip_cooling then fallback_chain wd ro target_ip s else Some (None, s));
                  (case upstream of
                     Some upstream \<Rightarrow> Some (Some upstream, s)
                   | None \<Rightarrow>
                       (let (upstream, s) = direct_ws_tier wd ro target_ip s
                        in case upstream of
                             Some upstream \<Rightarrow> Some (Some upstream, s)
                           | None \<Rightarrow>
                               if ip_cooling then Some (Some (tcp_last_resort ro target_ip), s)
                               else do {
                                 (upstream, s) \<leftarrow> fallback_chain wd ro target_ip s;
                                 Some (Some (case upstream of Some u \<Rightarrow> u
                                             | None \<Rightarrow> tcp_last_resort ro target_ip), s)
                               }))
                })))"

section \<open>What each tier dials\<close>

definition tier_dial :: "Route \<Rightarrow> str option \<Rightarrow> UpstreamTier \<Rightarrow> dial \<Rightarrow> bool" where
  "tier_dial ro target_ip tier d =
     (case tier of
        Ws \<Rightarrow>
          (\<exists>ip host timeout. target_ip = Some ip \<and>
             host \<in> set (ws_domains (runtime_websocket_dc (ro_dc ro)) (ro_is_media ro)) \<and>
             d = ws_dial ip host (lit ''/apiws'') True (cfg_skip_tls_verify (ro_config ro)) timeout
                   (rt_fronting_domain (ro_runtime ro)) False)
      | Cfworker \<Rightarrow>
          (\<exists>dst domain. worker_dst ro target_ip = Some dst \<and>
             domain \<in> set (cfg_cf_worker_domains (ro_config ro)) \<and>
             cf_dial domain (cf_worker_path dst (ro_dc ro) (ro_is_media ro)) (route_dial_opts ro) d)
      | Cfproxy \<Rightarrow> cf_domain_dial (ro_dc ro) (cfg_cf_domains (ro_config ro)) (route_dial_opts ro) d
      | Mtproto \<Rightarrow>
          (\<exists>proxy \<in> set (cfg_mtproto_proxies (ro_config ro)).
             d = TcpDial (mp_host proxy) (mp_port proxy) (to_upstream_connect (ro_timeouts ro)))
      | Tcp \<Rightarrow> False)"

lemma set_domain_order: "set (domain_order domains first) = set domains"
proof (cases "domains = []")
  case False
  then have "domain_order domains first = rotate first domains"
    unfolding domain_order_def by (intro nth_equalityI) (simp_all add: nth_rotate)
  then show ?thesis by simp
qed (simp add: domain_order_def)

lemma route_cf_get_trace [simp]: "ws_trace (snd (route_cf_get wd ro tier s)) = ws_trace s"
  by (simp add: route_cf_get_def split: prod.split)

lemma worker_connect:
  assumes "connect_cf_worker_ws_for_dc_with_outbound_opts env direct W domain dst dc is_media skip timeout opts s = (r, s')"
  shows "\<exists>conn. r = Ret conn" and "dialled (cf_dial domain (cf_worker_path dst dc is_media) opts) s s'"
proof -
  obtain x where step: "connect_cf_with_path env direct W domain (cf_worker_path dst dc is_media) False skip
      timeout opts s = (x, s')" and r: "r = exec_bind x (\<lambda>r. Ret (case r of Connected ws \<Rightarrow> Some ws | _ \<Rightarrow> None))"
    using assms by (auto simp: connect_cf_worker_ws_for_dc_with_outbound_opts_def split: prod.splits)
  have "x \<noteq> Panic"
    using connect_cf_with_path_returns [of env direct W domain "cf_worker_path dst dc is_media" False skip timeout opts s]
      step by simp
  then show "\<exists>conn. r = Ret conn" using r by (cases x) auto
  show "dialled (cf_dial domain (cf_worker_path dst dc is_media) opts) s s'"
    by (rule connect_cf_with_path_dials [OF step])
qed

text \<open>
  A tier that returns, dials only as \<open>P\<close> allows, and, if it \<open>must\<close>, does not give up without
  a dial.
\<close>

definition tier_ran :: "(dial \<Rightarrow> bool) \<Rightarrow> bool \<Rightarrow> ('x option \<times> route_state) option \<Rightarrow> route_state \<Rightarrow> bool" where
  "tier_ran P must m s \<longleftrightarrow>
     (\<exists>x s'. m = Some (x, s') \<and> dialled P s s' \<and>
        (must \<and> x = None \<longrightarrow> length (ws_trace s) < length (ws_trace s')))"

lemma tier_ranI:
  "m = Some (x, s') \<Longrightarrow> dialled P s s' \<Longrightarrow>
   (must \<Longrightarrow> x = None \<Longrightarrow> length (ws_trace s) < length (ws_trace s')) \<Longrightarrow> tier_ran P must m s"
  by (auto simp: tier_ran_def)

lemma tier_ran_done: "ws_trace s' = ws_trace s \<Longrightarrow> tier_ran P must (Some (Some x, s')) s"
  by (auto simp: tier_ran_def dialled_same_trace)

lemma tier_ran_nothing: "tier_ran P False (Some (None, s)) s"
  by (auto simp: tier_ran_def)

lemma tier_ran_same_trace: "tier_ran P must m s1 \<Longrightarrow> ws_trace s1 = ws_trace s \<Longrightarrow> tier_ran P must m s"
  by (auto simp: tier_ran_def dialled_def)

lemma tier_ran_after:
  assumes "dialled P s s1" and "tier_ran P False m s1" and "must \<Longrightarrow> length (ws_trace s) < length (ws_trace s1)"
  shows "tier_ran P must m s"
proof -
  obtain x s' where m: "m = Some (x, s')" "dialled P s1 s'"
    using assms(2) by (auto simp: tier_ran_def)
  show ?thesis
    using assms(3) dialled_length [OF m(2)]
    by (intro tier_ranI [OF m(1) dialled_trans [OF assms(1) m(2)]]) fastforce
qed

lemma tier_ran_weaken: "tier_ran P True m s \<Longrightarrow> tier_ran P must m s"
  by (auto simp: tier_ran_def)

lemma cf_worker_loop_ran:
  assumes "set domains \<subseteq> set (cfg_cf_worker_domains (ro_config ro))" and "worker_dst ro target_ip = Some dst"
  shows "tier_ran (tier_dial ro target_ip Cfworker) (force \<and> domains \<noteq> []) (cf_worker_loop wd ro dst force domains s) s"
  using assms(1)
proof (induction domains arbitrary: s)
  case Nil
  then show ?case by (simp add: tier_ran_nothing)
next
  case (Cons domain domains)
  let ?P = "tier_dial ro target_ip Cfworker"
  have IH: "tier_ran ?P False (cf_worker_loop wd ro dst force domains s) s" for s
    using Cons.IH [of s] Cons.prems by (auto simp: tier_ran_def)
  obtain r s1 where step: "connect_cf_worker_ws_for_dc_with_outbound_opts (wd_net wd) (rt_direct (ro_runtime ro))
      (wd_usize wd) domain dst (ro_dc ro) (ro_is_media ro) (cfg_skip_tls_verify (ro_config ro))
      (to_cf_connect (ro_timeouts ro)) (route_dial_opts ro) s = (r, s1)" by fastforce
  then obtain conn where r: "r = Ret conn" using worker_connect(1) by blast
  have dial: "dialled ?P s s1"
    using worker_connect(2) [OF step] Cons.prems assms(2)
    by (auto simp: tier_dial_def elim!: dialled_mono)
  have grow: "length (ws_trace s) < length (ws_trace s1)"
    using step by (auto simp: connect_cf_worker_ws_for_dc_with_outbound_opts_def
        dest!: connect_cf_with_path_grows split: prod.splits)
  show ?case
  proof (cases "\<not> force \<and> cooldown_active (rs_cf_worker_fail s) domain (ws_now s)")
    case True
    then show ?thesis using IH by simp
  next
    case False
    show ?thesis
    proof (cases conn)
      case None
      let ?s = "s1\<lparr>rs_cf_worker_fail := cooldown_set (rs_cf_worker_fail s1) domain (ws_now s1)
        (to_cf_fail_cooldown (ro_timeouts ro))\<rparr>"
      have "tier_ran ?P (force \<and> domain # domains \<noteq> []) (cf_worker_loop wd ro dst force domains ?s) s"
        using dial grow by (intro tier_ran_after [OF _ IH]) (simp_all add: dialled_def)
      then show ?thesis using False step r None by auto
    next
      case (Some ws)
      then show ?thesis
        using False step r dial
        by (auto simp: Let_def tier_ran_def dialled_def split: prod.split)
    qed
  qed
qed

lemma cf_worker_ran:
  assumes "worker_dst ro target_ip = Some dst"
    and "(case fallback_ip (ro_dc ro) of Some ip \<Rightarrow> ip | None \<Rightarrow> dst') = dst"
  shows "tier_ran (tier_dial ro target_ip Cfworker) (force \<and> cfg_cf_worker_domains (ro_config ro) \<noteq> [])
           (cf_worker wd ro dst' force s) s"
proof (cases "cfg_cf_worker_domains (ro_config ro) = []")
  case True
  then show ?thesis by (simp add: cf_worker_def tier_ran_nothing)
next
  case False
  let ?workers = "cfg_cf_worker_domains (ro_config ro)"
  obtain taken s1 where get: "route_cf_get wd ro Worker s = (taken, s1)" by fastforce
  then have s1: "ws_trace s1 = ws_trace s" using route_cf_get_trace [of wd ro Worker s] by simp
  obtain first counter where bal: "balance_offset (wd_usize wd) ?workers (cfg_cf_balance (ro_config ro))
      (rs_cf_worker_balance s1) = (first, counter)" by fastforce
  have "domain_order ?workers first \<noteq> []"
    using False set_domain_order [of ?workers first] by auto
  then have "tier_ran (tier_dial ro target_ip Cfworker) force
      (cf_worker_loop wd ro dst force (domain_order ?workers first) (s1\<lparr>rs_cf_worker_balance := counter\<rparr>))
      (s1\<lparr>rs_cf_worker_balance := counter\<rparr>)"
    using cf_worker_loop_ran [OF _ assms(1), of "domain_order ?workers first" force wd
        "s1\<lparr>rs_cf_worker_balance := counter\<rparr>"]
    by (simp add: set_domain_order)
  then have "tier_ran (tier_dial ro target_ip Cfworker) force
      (cf_worker_loop wd ro dst force (domain_order ?workers first) (s1\<lparr>rs_cf_worker_balance := counter\<rparr>)) s"
    by (rule tier_ran_same_trace) (simp add: s1)
  moreover have "cf_worker wd ro dst' force s =
      (case taken of
         Some (ws, domain) \<Rightarrow> Some (Some ws, s1)
       | None \<Rightarrow> cf_worker_loop wd ro dst force (domain_order ?workers first) (s1\<lparr>rs_cf_worker_balance := counter\<rparr>))"
    unfolding cf_worker_def Let_def assms(2) get prod.case using False bal by (cases taken) simp_all
  ultimately show ?thesis
    using False s1 by (simp add: tier_ran_done split: option.split prod.split)
qed

lemma tier_dial_Cfproxy:
  "tier_dial ro target_ip Cfproxy =
     cf_domain_dial (ro_dc ro) (cfg_cf_domains (ro_config ro)) (route_dial_opts ro)"
  by (simp add: tier_dial_def fun_eq_iff)

lemma cf_proxy_ran:
  "tier_ran (tier_dial ro target_ip Cfproxy) (cfg_cf_domains (ro_config ro) \<noteq> []) (cf_proxy wd ro s) s"
proof (cases "cfg_cf_domains (ro_config ro) = []")
  case True
  then show ?thesis by (simp add: cf_proxy_def tier_ran_nothing)
next
  case False
  let ?domains = "cfg_cf_domains (ro_config ro)"
  obtain first counter where bal: "balance_offset (wd_usize wd) ?domains (cfg_cf_balance (ro_config ro))
      (rs_cf_balance s) = (first, counter)" by fastforce
  obtain taken s1 where get: "route_cf_get wd ro Proxy (s\<lparr>rs_cf_balance := counter\<rparr>) = (taken, s1)" by fastforce
  then have s1: "ws_trace s1 = ws_trace s"
    using route_cf_get_trace [of wd ro Proxy "s\<lparr>rs_cf_balance := counter\<rparr>"] by simp
  obtain r s2 where step: "connect_cf_ws_for_dc_with_outbound_ordered (wd_net wd) (rt_direct (ro_runtime ro))
      (wd_usize wd) (ro_dc ro) ?domains (cfg_skip_tls_verify (ro_config ro)) (to_cf_connect (ro_timeouts ro))
      first (route_dial_opts ro) s1 = (r, s2)" by fastforce
  obtain ws domain red where r: "r = Ret (ws, domain, red)"
    using connect_cf_ordered_dials(1) [OF step] by (cases r) auto
  have P: "dialled (tier_dial ro target_ip Cfproxy) s s2" "length (ws_trace s) < length (ws_trace s2)"
    using connect_cf_ordered_dials(2) [OF step] connect_cf_ordered_grows [OF step False] s1
    by (auto simp: dialled_def tier_dial_Cfproxy)
  show ?thesis
  proof (cases taken)
    case None
    then show ?thesis
      using False bal get step r P
      by (auto simp: cf_proxy_def tier_ran_def dialled_def Let_def split: prod.split option.split)
  next
    case (Some c)
    then show ?thesis
      using False bal get s1 by (cases c) (auto simp: cf_proxy_def tier_ran_done)
  qed
qed

lemma upstream_loop_ran:
  assumes "fair_world wd" and "set proxies \<subseteq> set (cfg_mtproto_proxies (ro_config ro))"
  shows "tier_ran (tier_dial ro target_ip Mtproto) (force \<and> proxies \<noteq> []) (upstream_loop wd ro force proxies s) s"
  using assms(2)
proof (induction proxies arbitrary: s)
  case Nil
  then show ?case by (simp add: tier_ran_nothing)
next
  case (Cons proxy proxies)
  let ?P = "tier_dial ro target_ip Mtproto"
  have IH: "tier_ran ?P False (upstream_loop wd ro force proxies s) s" for s
    using Cons.IH [of s] Cons.prems by (auto simp: tier_ran_def)
  obtain conn s1 where step: "connect_mtproto_upstream wd proxy (ro_dc_idx ro) (ro_proto ro)
      (to_upstream_connect (ro_timeouts ro)) s = Some (conn, s1)"
    and tr: "ws_trace s1 = ws_trace s @ [TcpDial (mp_host proxy) (mp_port proxy) (to_upstream_connect (ro_timeouts ro))]"
    using connect_mtproto_upstream_returns [OF assms(1)] by blast
  have dial: "dialled ?P s s1"
    using tr Cons.prems by (auto simp: dialled_def tier_dial_def)
  let ?key = "upstream_key (mp_host proxy) (mp_port proxy)"
  let ?s = "s1\<lparr>rs_upstream_fail := cooldown_set (rs_upstream_fail s1) ?key (ws_now s1)
    (to_upstream_fail_cooldown (ro_timeouts ro))\<rparr>"
  have "tier_ran ?P (force \<and> proxy # proxies \<noteq> []) (upstream_loop wd ro force proxies ?s) s"
    using dial tr by (intro tier_ran_after [OF _ IH]) (simp_all add: dialled_def)
  then show ?case
    using step dial IH [of s]
    by (cases conn) (auto simp: Let_def tier_ran_def dialled_def)
qed

lemma upstream_proxies_ran:
  "fair_world wd \<Longrightarrow>
   tier_ran (tier_dial ro target_ip Mtproto) (force \<and> cfg_mtproto_proxies (ro_config ro) \<noteq> [])
     (upstream_proxies wd ro force s) s"
  unfolding upstream_proxies_def by (rule upstream_loop_ran) auto

lemma direct_ws_dials:
  assumes "direct_ws wd ro ip s = (r, s')"
  shows "dialled (tier_dial ro (Some ip) Ws) s s'" and "length (ws_trace s) < length (ws_trace s')"
proof -
  obtain a s1 where step: "connect_ws wd ro ip (rt_fronting_domain (ro_runtime ro)) s = (a, s1)" by fastforce
  let ?timeout = "if cooldown_active (rs_ws_fail s) (ro_dc ro, ro_is_media ro) (ws_now s)
    then to_ws_fail_probe (ro_timeouts ro) else to_ws_connect (ro_timeouts ro)"
  have walk: "connect_ws_for_dc_with_outbound (wd_net wd) ip (runtime_websocket_dc (ro_dc ro)) (ro_is_media ro)
      (cfg_skip_tls_verify (ro_config ro)) ?timeout (rt_fronting_domain (ro_runtime ro)) s = (a, s1)"
    using step by (simp add: connect_ws_def Let_def)
  have "dialled (tier_dial ro (Some ip) Ws) s s1"
    using walk unfolding connect_ws_for_dc_with_outbound_def
    by (rule ws_walk_dials [rotated]) (auto simp: tier_dial_def)
  moreover have "length (ws_trace s) < length (ws_trace s1)"
    by (rule connect_ws_for_dc_grows [OF walk])
  moreover have "ws_trace s' = ws_trace s1"
    using assms step by (auto simp: direct_ws_def cool_down_ws_def cool_down_ip_def Let_def split: option.splits)
  ultimately show "dialled (tier_dial ro (Some ip) Ws) s s'" "length (ws_trace s) < length (ws_trace s')"
    by (simp_all add: dialled_def)
qed

lemma direct_ws_tier_ran:
  "tier_ran (tier_dial ro (Some ip) Ws) True (Some (direct_ws_tier wd ro ip s)) s"
proof -
  obtain pooled tasks pool where get: "pool_get (wd_dead wd (ws_now s)) (ws_now s) (ro_dc ro) (ro_is_media ro)
      ip (cfg_skip_tls_verify (ro_config ro)) (\<not> cooldown_active (rs_ip_fail s) ip (ws_now s)) (rs_pool s) =
      (pooled, tasks, pool)" by (metis prod_cases3)
  let ?s = "s\<lparr>rs_pool := pool, rs_spawned := rs_spawned s @ tasks\<rparr>"
  obtain r s' where step: "direct_ws wd ro ip ?s = (r, s')" by fastforce
  show ?thesis
    using get step direct_ws_dials [OF step]
    by (cases pooled) (auto simp: direct_ws_tier_def tier_ran_def dialled_def)
qed

section \<open>Climbing a ladder\<close>

text \<open>The upstreams a tier can yield.\<close>

definition upstream_of :: "Route \<Rightarrow> str option \<Rightarrow> UpstreamTier \<Rightarrow> Upstream \<Rightarrow> bool" where
  "upstream_of ro target_ip tier u =
     (case tier of
        Ws \<Rightarrow> (\<exists>ws. u = UpWs ws Packets)
      | Cfworker \<Rightarrow> (\<exists>ws. u = UpWs ws Tunnel)
      | Cfproxy \<Rightarrow> (\<exists>ws. u = UpWs ws Packets)
      | Mtproto \<Rightarrow> (\<exists>conn. u = UpMtproto conn)
      | Tcp \<Rightarrow> (\<exists>dst. worker_dst ro target_ip = Some dst \<and> u = UpTcp dst))"

text \<open>
  The dials of a climb: each tier in turn makes dials of its own kind; then it yields the
  upstream and nothing more is dialled, or the climb goes on.
\<close>

fun climbs :: "Route \<Rightarrow> str option \<Rightarrow> UpstreamTier list \<Rightarrow> Upstream option \<Rightarrow> dial list \<Rightarrow> bool" where
  "climbs ro target_ip [] x ds \<longleftrightarrow> x = None \<and> ds = []"
| "climbs ro target_ip (tier # tiers) x ds \<longleftrightarrow>
     (\<exists>a b. ds = a @ b \<and> list_all (tier_dial ro target_ip tier) a \<and>
        ((\<exists>u. x = Some u \<and> upstream_of ro target_ip tier u \<and> b = []) \<or> climbs ro target_ip tiers x b))"

definition climbed ::
    "Route \<Rightarrow> str option \<Rightarrow> UpstreamTier list \<Rightarrow> (Upstream option \<times> route_state) option \<Rightarrow> route_state \<Rightarrow> bool" where
  "climbed ro target_ip tiers m s \<longleftrightarrow>
     (\<exists>x s' ds. m = Some (x, s') \<and> ws_trace s' = ws_trace s @ ds \<and> climbs ro target_ip tiers x ds)"

lemma climbs_found: "climbs ro tg tiers (Some u) ds \<Longrightarrow> climbs ro tg (tiers @ rest) (Some u) ds"
proof (induction tiers arbitrary: ds)
  case (Cons t tiers)
  then obtain a b where "ds = a @ b" "list_all (tier_dial ro tg t) a"
    "upstream_of ro tg t u \<and> b = [] \<or> climbs ro tg tiers (Some u) b"
    by auto
  with Cons.IH show ?case
    unfolding append_Cons climbs.simps by (intro exI [of _ a] exI [of _ b]) auto
qed simp

lemma climbs_then: "climbs ro tg tiers None a \<Longrightarrow> climbs ro tg rest x b \<Longrightarrow> climbs ro tg (tiers @ rest) x (a @ b)"
proof (induction tiers arbitrary: a)
  case (Cons t tiers)
  then obtain a1 a2 where "a = a1 @ a2" "list_all (tier_dial ro tg t) a1" "climbs ro tg tiers None a2"
    by auto
  with Cons show ?case
    unfolding append_Cons climbs.simps by (intro exI [of _ a1] exI [of _ "a2 @ b"]) simp
qed simp

lemma climbed_skip: "climbed ro tg [] (Some (None, s)) s"
  by (simp add: climbed_def)

lemma climbed_then:
  assumes "climbed ro tg tiers m s" and "\<And>s'. climbed ro tg rest (k s') s'"
  shows "climbed ro tg (tiers @ rest)
           (do { (x, s') \<leftarrow> m; (case x of Some u \<Rightarrow> Some (Some u, s') | None \<Rightarrow> k s') }) s"
proof -
  obtain x s1 a where m: "m = Some (x, s1)" "ws_trace s1 = ws_trace s @ a" "climbs ro tg tiers x a"
    using assms(1) by (auto simp: climbed_def)
  show ?thesis
  proof (cases x)
    case (Some u)
    then show ?thesis using m by (auto simp: climbed_def climbs_found)
  next
    case None
    obtain y s2 b where "k s1 = Some (y, s2)" "ws_trace s2 = ws_trace s1 @ b" "climbs ro tg rest y b"
      using assms(2) [of s1] by (auto simp: climbed_def)
    then show ?thesis using m None by (auto simp: climbed_def intro!: climbs_then)
  qed
qed

text \<open>One tier.\<close>

lemma climbed_tier:
  assumes "tier_ran (tier_dial ro tg t) must m s" and "\<And>y. upstream_of ro tg t (f y)"
  shows "climbed ro tg [t] (do { (y, s') \<leftarrow> m; Some (map_option f y, s') }) s"
proof -
  obtain y s' ds where "m = Some (y, s')" "ws_trace s' = ws_trace s @ ds" "list_all (tier_dial ro tg t) ds"
    using assms(1) by (auto simp: tier_ran_def dialled_def)
  then show ?thesis
    using assms(2) by (cases y) (auto simp: climbed_def)
qed

lemma climbed_tcp:
  "worker_dst ro tg = Some dst \<Longrightarrow> climbed ro tg (Tcp # tiers) (Some (Some (UpTcp dst), s)) s"
  by (auto simp: climbed_def upstream_of_def)

text \<open>The tiers as functions of one type, to compose them.\<close>

lemma bind_tier:
  "(do { (y, s') \<leftarrow> m; (case y of Some z \<Rightarrow> Some (Some (f z), s') | None \<Rightarrow> k s') }) =
   (do { (x, s') \<leftarrow> (do { (y, s') \<leftarrow> m; Some (map_option f y, s') });
         (case x of Some u \<Rightarrow> Some (Some u, s') | None \<Rightarrow> k s') })"
  by (cases m) (auto split: option.split)

lemma climbed_fallback_chain:
  assumes "fair_world wd" and "worker_dst ro tg = Some dst"
    and "(case fallback_ip (ro_dc ro) of Some ip \<Rightarrow> ip | None \<Rightarrow> dst') = dst"
  shows "climbed ro tg [Cfworker, Cfproxy, Mtproto] (fallback_chain wd ro dst' s) s"
proof -
  have worker: "climbed ro tg [Cfworker] (do { (y, s') \<leftarrow> cf_worker wd ro dst' False s;
      Some (map_option (\<lambda>ws. UpWs ws Tunnel) y, s') }) s" for s
    using cf_worker_ran [OF assms(2,3)] by (rule climbed_tier) (simp add: upstream_of_def)
  have proxy: "climbed ro tg [Cfproxy] (do { (y, s') \<leftarrow> cf_proxy wd ro s;
      Some (map_option (\<lambda>ws. UpWs ws Packets) y, s') }) s" for s
    using cf_proxy_ran by (rule climbed_tier) (simp add: upstream_of_def)
  have mtproto: "climbed ro tg [Mtproto] (do { (y, s') \<leftarrow> upstream_proxies wd ro False s;
      Some (map_option UpMtproto y, s') }) s" for s
    using upstream_proxies_ran [OF assms(1)] by (rule climbed_tier) (simp add: upstream_of_def)
  have "climbed ro tg ([Cfworker] @ [Cfproxy]) (cf_tiers wd ro dst' s) s" for s
    unfolding cf_tiers_def by (subst bind_tier) (rule climbed_then [OF worker proxy])
  from climbed_then [OF this mtproto] show ?thesis
    unfolding fallback_chain_def by simp
qed

lemma climbed_direct:
  "climbed ro (Some ip) [Ws] (Some (direct_ws_tier wd ro ip s)) s"
proof -
  obtain u s' where step: "direct_ws_tier wd ro ip s = (u, s')" by fastforce
  have "u = None \<or> (\<exists>ws. u = Some (UpWs ws Packets))"
    using step by (auto simp: direct_ws_tier_def Let_def split: prod.splits option.splits)
  then show ?thesis
    using direct_ws_tier_ran [of ro ip wd s] step
    by (auto simp: tier_ran_def dialled_def climbed_def upstream_of_def split: option.splits)
qed

lemma climbed_skip_tier:
  assumes "climbed ro tg tiers m s"
  shows "climbed ro tg (t # tiers) m s"
proof -
  obtain x s' ds where "m = Some (x, s')" "ws_trace s' = ws_trace s @ ds" "climbs ro tg tiers x ds"
    using assms by (auto simp: climbed_def)
  then show ?thesis
    unfolding climbed_def climbs.simps
    by (intro exI [of _ x] exI [of _ s'] exI [of _ ds]) (auto intro: exI [of _ "[]"])
qed

text \<open>A rung of the pinned ladder, and what follows if it fails.\<close>

lemma climbed_rung:
  assumes "tier_ran (tier_dial ro tg t) must m s" and "\<And>y. upstream_of ro tg t (f y)"
    and "\<And>s'. climbed ro tg tiers (k s') s'"
  shows "climbed ro tg (t # tiers)
           (do { (y, s') \<leftarrow> m; (case y of Some z \<Rightarrow> Some (Some (f z), s') | None \<Rightarrow> k s') }) s"
  using climbed_then [OF climbed_tier [OF assms(1,2)] assms(3)] by (subst bind_tier) simp

lemma climbed_pinned:
  assumes "fair_world wd"
  shows "climbed ro tg tiers (pinned_ladder wd ro tiers tg s) s"
proof (induction tiers arbitrary: s)
  case Nil
  then show ?case by (simp add: climbed_skip)
next
  case (Cons t tiers)
  note skip = climbed_skip_tier [OF Cons.IH]
  show ?case
  proof (cases t)
    case Ws
    show ?thesis
    proof (cases tg)
      case (Some ip)
      have "climbed ro tg ([Ws] @ tiers) (do { (x, s') \<leftarrow> Some (direct_ws_tier wd ro ip s);
          (case x of Some u \<Rightarrow> Some (Some u, s') | None \<Rightarrow> pinned_ladder wd ro tiers tg s') }) s"
        by (rule climbed_then [OF _ Cons.IH]) (simp add: Some climbed_direct)
      then show ?thesis unfolding Ws Some by (simp add: Let_def split_def)
    qed (use Ws skip in simp)
  next
    case Cfworker
    show ?thesis
    proof (cases "worker_dst ro tg")
      case (Some dst)
      have "(case fallback_ip (ro_dc ro) of Some ip \<Rightarrow> ip | None \<Rightarrow> dst) = dst"
        using Some by (simp add: worker_dst_def split: option.splits)
      note rung = climbed_rung [OF cf_worker_ran [OF Some this] _ Cons.IH, where f = "\<lambda>ws. UpWs ws Tunnel"]
      show ?thesis using rung Cfworker Some by (simp add: Let_def upstream_of_def)
    qed (use Cfworker skip in simp)
  next
    case Cfproxy
    show ?thesis
      using climbed_rung [OF cf_proxy_ran _ Cons.IH, where f = "\<lambda>ws. UpWs ws Packets"] Cfproxy
      by (simp add: Let_def upstream_of_def)
  next
    case Mtproto
    show ?thesis
      using climbed_rung [OF upstream_proxies_ran [OF assms] _ Cons.IH, where f = UpMtproto] Mtproto
      by (simp add: Let_def upstream_of_def)
  next
    case Tcp
    then show ?thesis
      using skip climbed_tcp by (cases "worker_dst ro tg") (auto simp: tcp_fallback_def)
  qed
qed

text \<open>The default ladder, and the ladder in force.\<close>

definition ip_cooling :: "Route \<Rightarrow> str \<Rightarrow> route_state \<Rightarrow> bool" where
  "ip_cooling ro target_ip s \<longleftrightarrow> cooldown_active (rs_ip_fail s) target_ip (ws_now s) \<and> has_fallback ro"

definition ladder_of :: "Route \<Rightarrow> str option \<Rightarrow> route_state \<Rightarrow> UpstreamTier list" where
  "ladder_of ro target_ip s =
     (case forced_upstreams (ro_config ro) (ro_is_media ro) of
        Some tiers \<Rightarrow> tiers
      | None \<Rightarrow>
          (case target_ip of
             None \<Rightarrow> if fallback_ip (ro_dc ro) = None then [] else [Cfworker, Cfproxy, Mtproto, Tcp]
           | Some ip \<Rightarrow>
               if ip_cooling ro ip s then [Cfworker, Cfproxy, Mtproto, Ws, Tcp]
               else [Ws, Cfworker, Cfproxy, Mtproto, Tcp]))"

lemma last_resort_dst:
  "worker_dst ro (Some ip) = Some (case fallback_ip (ro_dc ro) of Some x \<Rightarrow> x | None \<Rightarrow> ip)"
  by (simp add: worker_dst_def split: option.split)

lemma climbed_last:
  "climbed ro (Some ip) [Tcp] (Some (Some (tcp_last_resort ro ip), s)) s"
  using climbed_tcp [OF last_resort_dst, of ro ip "[]"]
  by (simp add: tcp_last_resort_def tcp_fallback_def)

lemma climbed_select:
  assumes "fair_world wd"
  shows "climbed ro tg (ladder_of ro tg s) (select_upstream wd ro tg s) s"
proof (cases "forced_upstreams (ro_config ro) (ro_is_media ro)")
  case (Some tiers)
  then show ?thesis using climbed_pinned [OF assms] by (simp add: select_upstream_def ladder_of_def)
next
  case default: None
  show ?thesis
  proof (cases tg)
    case None
    show ?thesis
    proof (cases "fallback_ip (ro_dc ro)")
      case None': None
      then show ?thesis
        using default None by (simp add: select_upstream_def ladder_of_def climbed_skip)
    next
      case (Some ip)
      have dst: "worker_dst ro tg = Some ip" using None Some by (simp add: worker_dst_def)
      have "climbed ro tg ([Cfworker, Cfproxy, Mtproto] @ [Tcp])
          (do { (x, s') \<leftarrow> fallback_chain wd ro ip s;
                (case x of Some u \<Rightarrow> Some (Some u, s') | None \<Rightarrow> Some (Some (tcp_fallback ip), s')) }) s"
        using climbed_fallback_chain [OF assms dst] climbed_tcp [OF dst] Some
        by (intro climbed_then) (simp_all add: tcp_fallback_def)
      moreover have "select_upstream wd ro tg s =
          do { (x, s') \<leftarrow> fallback_chain wd ro ip s;
               (case x of Some u \<Rightarrow> Some (Some u, s') | None \<Rightarrow> Some (Some (tcp_fallback ip), s')) }"
        using default None Some
        by (cases "fallback_chain wd ro ip s") (auto simp: select_upstream_def split: option.split)
      ultimately show ?thesis using default None Some by (simp add: ladder_of_def)
    qed
  next
    case (Some ip)
    note chain = climbed_fallback_chain [OF assms last_resort_dst refl]
    have ws: "climbed ro (Some ip) ([Ws] @ tiers) (do { (x, s') \<leftarrow> Some (direct_ws_tier wd ro ip s);
        (case x of Some u \<Rightarrow> Some (Some u, s') | None \<Rightarrow> k s') }) s"
      if "\<And>s'. climbed ro (Some ip) tiers (k s') s'" for tiers k s
      by (rule climbed_then [OF climbed_direct that])
    show ?thesis
    proof (cases "ip_cooling ro ip s")
      case True
      have "climbed ro (Some ip) ([Cfworker, Cfproxy, Mtproto] @ ([Ws] @ [Tcp]))
          (do { (x, s') \<leftarrow> fallback_chain wd ro ip s;
                (case x of Some u \<Rightarrow> Some (Some u, s') | None \<Rightarrow>
                   do { (x, s') \<leftarrow> Some (direct_ws_tier wd ro ip s');
                        (case x of Some u \<Rightarrow> Some (Some u, s')
                         | None \<Rightarrow> Some (Some (tcp_last_resort ro ip), s')) }) }) s"
        by (rule climbed_then [OF chain ws [OF climbed_last]])
      moreover obtain x s1 where "fallback_chain wd ro ip s = Some (x, s1)"
        using chain unfolding climbed_def by blast
      ultimately show ?thesis
        using default True unfolding Some
        by (cases x) (simp_all add: select_upstream_def ladder_of_def ip_cooling_def [symmetric] Let_def split_def)
    next
      case False
      have "climbed ro (Some ip) ([Ws] @ ([Cfworker, Cfproxy, Mtproto] @ [Tcp]))
          (do { (x, s') \<leftarrow> Some (direct_ws_tier wd ro ip s);
                (case x of Some u \<Rightarrow> Some (Some u, s') | None \<Rightarrow>
                   do { (x, s') \<leftarrow> fallback_chain wd ro ip s';
                        (case x of Some u \<Rightarrow> Some (Some u, s')
                         | None \<Rightarrow> Some (Some (tcp_last_resort ro ip), s')) }) }) s"
        by (rule ws [OF climbed_then [OF chain climbed_last]])
      moreover obtain u s1 where "direct_ws_tier wd ro ip s = (u, s1)" by fastforce
      moreover obtain x s2 where "fallback_chain wd ro ip s1 = Some (x, s2)"
        using chain unfolding climbed_def by blast
      ultimately show ?thesis
        using default False unfolding Some
        by (cases u; cases x) (simp_all add: select_upstream_def ladder_of_def ip_cooling_def [symmetric] Let_def)
    qed
  qed
qed

section \<open>The pinned ladder does not give up without a dial\<close>

text \<open>A rung that fails, followed by the rest of the ladder.\<close>

lemma rung_grows:
  assumes "tier_ran P must m s" and "m = Some (None, s1)"
    and "must \<or> length (ws_trace s1) < length (ws_trace s')" and "length (ws_trace s1) \<le> length (ws_trace s')"
  shows "length (ws_trace s) < length (ws_trace s')"
  using assms dialled_length [of P s s1] by (auto simp: tier_ran_def)

lemma pinned_longer:
  assumes "fair_world wd" and "pinned_ladder wd ro tiers tg s = Some (x, s')"
  shows "length (ws_trace s) \<le> length (ws_trace s')"
  using climbed_pinned [OF assms(1), of ro tg tiers s] assms(2) by (auto simp: climbed_def)

lemma pinned_must_dial:
  assumes fair: "fair_world wd" and dst: "worker_dst ro tg \<noteq> None"
    and "list_ex (tier_attemptable ro tg) tiers"
    and "pinned_ladder wd ro tiers tg s = Some (None, s')"
  shows "length (ws_trace s) < length (ws_trace s')"
  using assms(3,4)
proof (induction tiers arbitrary: s)
  case (Cons t tiers)
  let ?after = "tier_attemptable_after ro tiers tg"
  let ?must = "tier_attemptable ro tg t \<and> \<not> ?after"
  obtain d where d: "worker_dst ro tg = Some d" using dst by blast
  have d': "(case fallback_ip (ro_dc ro) of Some ip \<Rightarrow> ip | None \<Rightarrow> d) = d"
    using d by (simp add: worker_dst_def split: option.splits)
  have later: "(?must \<or> length (ws_trace s1) < length (ws_trace s')) \<and> length (ws_trace s1) \<le> length (ws_trace s')"
    if "pinned_ladder wd ro tiers tg s1 = Some (None, s')" for s1
    using Cons.IH [OF _ that] pinned_longer [OF fair that] Cons.prems(1)
    by (auto simp: tier_attemptable_after_def)
  show ?case
  proof (cases t)
    case Ws
    show ?thesis
    proof (cases tg)
      case None
      then show ?thesis using Ws Cons by (simp add: tier_attemptable_def)
    next
      case (Some ip)
      then obtain s1 where s1: "direct_ws_tier wd ro ip s = (None, s1)"
        "pinned_ladder wd ro tiers tg s1 = Some (None, s')"
        using Cons.prems(2) Ws by (auto split: prod.splits option.splits)
      show ?thesis
        using rung_grows [OF direct_ws_tier_ran [of ro ip wd s], of s1 s'] s1 later [OF s1(2)] by simp
    qed
  next
    case Cfworker
    obtain s1 where s1: "cf_worker wd ro d (\<not> ?after) s = Some (None, s1)"
      "pinned_ladder wd ro tiers tg s1 = Some (None, s')"
      using Cons.prems(2) Cfworker d by (auto simp: Let_def split: option.splits Option.bind_splits prod.splits)
    show ?thesis
      using rung_grows [OF cf_worker_ran [OF d d'] s1(1)] later [OF s1(2)] Cfworker
      by (auto simp: tier_attemptable_def)
  next
    case Cfproxy
    obtain s1 where s1: "cf_proxy wd ro s = Some (None, s1)" "pinned_ladder wd ro tiers tg s1 = Some (None, s')"
      using Cons.prems(2) Cfproxy by (auto simp: Let_def split: option.splits Option.bind_splits prod.splits)
    show ?thesis
      using rung_grows [OF cf_proxy_ran s1(1)] later [OF s1(2)] Cfproxy
      by (auto simp: tier_attemptable_def)
  next
    case Mtproto
    obtain s1 where s1: "upstream_proxies wd ro (\<not> ?after) s = Some (None, s1)"
      "pinned_ladder wd ro tiers tg s1 = Some (None, s')"
      using Cons.prems(2) Mtproto by (auto simp: Let_def split: option.splits Option.bind_splits prod.splits)
    show ?thesis
      using rung_grows [OF upstream_proxies_ran [OF fair] s1(1)] later [OF s1(2)] Mtproto
      by (auto simp: tier_attemptable_def)
  next
    case Tcp
    then show ?thesis using Cons.prems(2) d by simp
  qed
qed simp

section \<open>Properties\<close>

text \<open>
  C5: routing always returns, and follows the ladder. Whatever the network answers and whatever
  the other tasks do to the shared state, \<open>select_upstream\<close> neither panics nor loops; its dials
  are those of the tiers of the ladder in force, in that order, each to the configured
  addresses of its tier with the TLS name that belongs to it; the upstream it returns is one
  of the tier that dialled last, and tiers after it are not dialled. The ladder is exactly the
  pinned list if there is one, and otherwise the default, with the direct tier moved behind
  the fallbacks while its address is cooling.
\<close>

theorem select_upstream_ladder:
  assumes "fair_world wd"
  shows "\<exists>x s' ds. select_upstream wd ro target_ip s = Some (x, s') \<and>
           ws_trace s' = ws_trace s @ ds \<and>
           climbs ro target_ip (ladder_of ro target_ip s) x ds"
  using climbed_select [OF assms] by (simp add: climbed_def)

text \<open>
  C35: without pins a client is never dropped as long as its data centre has an address, configured
  or built in: routing ends with an upstream, at worst plain TCP.
\<close>

theorem select_upstream_default:
  assumes "fair_world wd" and "forced_upstreams (ro_config ro) (ro_is_media ro) = None"
    and "worker_dst ro target_ip \<noteq> None"
  shows "\<exists>u s'. select_upstream wd ro target_ip s = Some (Some u, s')"
proof -
  obtain x s' ds where sel: "select_upstream wd ro target_ip s = Some (x, s')"
    using climbed_select [OF assms(1)] unfolding climbed_def by blast
  have "x \<noteq> None"
    using sel assms(2,3)
    by (auto simp: select_upstream_def worker_dst_def Let_def split: option.splits Option.bind_splits
        prod.splits if_splits)
  then show ?thesis using sel by auto
qed

text \<open>
  C34: the last tier of a pin dials through its cooldown. If the data centre has an address and
  some pinned tier can be attempted, a pinned ladder that ends without an upstream has made at
  least one dial: a cooldown alone never drops a connection.
\<close>

theorem pinned_ladder_dials:
  assumes "fair_world wd" and "worker_dst ro target_ip \<noteq> None"
    and "list_ex (tier_attemptable ro target_ip) tiers"
    and "pinned_ladder wd ro tiers target_ip s = Some (None, s')"
  shows "length (ws_trace s) < length (ws_trace s')"
  by (rule pinned_must_dial [OF assms])

text \<open>
  C36: what a direct attempt does to the cooldowns. A success clears the cooldowns of the data
  centre and of the address. A failure starts the cooldown of the data centre, the long one
  exactly if every hostname redirected; the address starts to cool exactly if a TCP connect
  timed out and the attempt was not a short probe of a cooling data centre.
\<close>

theorem direct_ws_cooldowns:
  assumes "connect_ws wd ro ip (rt_fronting_domain (ro_runtime ro)) s = (attempt, s1)"
    and "direct_ws wd ro ip s = (ws, s')"
  defines "key \<equiv> (ro_dc ro, ro_is_media ro)"
  defines "probing \<equiv> cooldown_active (rs_ws_fail s) key (ws_now s)"
  shows "ws = at_ws attempt \<and>
    (ws \<noteq> None \<longrightarrow>
       \<not> cooldown_active (rs_ws_fail s') key t \<and> \<not> cooldown_active (rs_ip_fail s') ip t) \<and>
    (ws = None \<longrightarrow>
       (cooldown_active (rs_ws_fail s') key t \<longleftrightarrow>
          t < ws_now s1 + (if at_all_redirects attempt then to_ws_redirect_cooldown (ro_timeouts ro)
                           else to_ws_fail_cooldown (ro_timeouts ro))) \<and>
       (cooldown_active (rs_ip_fail s') ip t \<longleftrightarrow>
          (if at_connect_timed_out attempt \<and> \<not> probing
           then t < ws_now s1 + to_ip_fail_cooldown (ro_timeouts ro)
           else cooldown_active (rs_ip_fail s1) ip t)))"
  using assms(1,2)
  by (auto simp: direct_ws_def key_def probing_def cool_down_ws_def cool_down_ip_def Let_def
      cd.active_clear cd.active_set split: option.splits if_splits)

text \<open>
  C37: with \<open>--cf-balance\<close> the spare of the Cloudflare proxy tier is opened through a bare
  domain. The target the pool is given names a configured domain, not one of the records
  \<open>kws<N>.<domain>\<close> that serve the data centres, and opening the spare dials that bare name.
\<close>

theorem balanced_spare_bare_domain:
  assumes "cfg_cf_balance (ro_config ro)" and "cfg_cf_domains (ro_config ro) \<noteq> []"
    and "rt_cf_ips rt = []"
    and "cf_target W ro Proxy [] domain (cfg_cf_domains (ro_config ro)) counter = (target, counter')"
    and "cf_connect_one env W rt target s = (r, s')"
  shows "\<exists>bare \<in> set (cfg_cf_domains (ro_config ro)). \<exists>d.
           ws_trace s' = ws_trace s @ [d] \<and> dl_host d = bare \<and> dl_http_host d = bare"
proof -
  let ?domains = "cfg_cf_domains (ro_config ro)"
  obtain offset c where "balance_offset W ?domains True counter = (offset, c)" by fastforce
  moreover have "domain_order ?domains offset \<noteq> []"
    using assms(2) set_domain_order [of ?domains offset] by auto
  then have "hd (domain_order ?domains offset) \<in> set ?domains"
    using set_domain_order [of ?domains offset] by (metis hd_in_set)
  ultimately have bare: "ct_domain target \<in> set ?domains" "ct_tier target = Proxy"
    using assms(1,4) \<open>domain_order ?domains offset \<noteq> []\<close>
    by (auto simp: cf_target_def Let_def split: prod.splits list.splits)
  obtain x where "connect_cf_with_path env (rt_direct rt) W (ct_domain target) (lit ''/apiws'') True
      (ct_skip_tls_verify target) (ct_connect_timeout target)
      \<lparr>cd_cf_ips = rt_cf_ips rt, cd_disable_tls = ct_disable_tls target,
       cd_fail_cooldown = rt_cf_fail_cooldown rt\<rparr> s = (x, s')"
    using assms(5) bare(2)
    by (auto simp: cf_connect_one_def connect_cf_record_with_outbound_opts_def split: prod.splits)
  then show ?thesis
    using assms(3) bare(1)
    by (auto simp: connect_cf_with_path_def dest!: connect_ws_with_path_trace split: prod.splits)
qed

text \<open>
  C38: the last-resort rule has a gap. For a data centre without any address, a pin of the
  upstream proxies followed by the Worker tier gives up without a dial while the proxies cool:
  the Worker tier counts as attemptable because Workers are configured, so the proxies are not
  forced, but its rung is skipped for want of a destination.
\<close>

theorem pinned_ladder_gap:
  assumes "worker_dst ro target_ip = None" and "cfg_cf_worker_domains (ro_config ro) \<noteq> []"
    and "list_all (\<lambda>proxy. cooldown_active (rs_upstream_fail s) (upstream_key (mp_host proxy) (mp_port proxy))
           (ws_now s)) (cfg_mtproto_proxies (ro_config ro))"
  shows "pinned_ladder wd ro [Mtproto, Cfworker] target_ip s = Some (None, s)"
proof -
  have "upstream_loop wd ro False proxies s = Some (None, s)"
    if "list_all (\<lambda>proxy. cooldown_active (rs_upstream_fail s) (upstream_key (mp_host proxy) (mp_port proxy))
          (ws_now s)) proxies" for proxies
    using that by (induction proxies) (auto simp: Let_def)
  then show ?thesis
    using assms by (simp add: upstream_proxies_def tier_attemptable_after_def tier_attemptable_def)
qed

section \<open>A sample route\<close>

definition sample_refusing :: "unit route_state_ext net" where
  "sample_refusing d s =
     (\<lparr>na_tcp = TcpTimedOut, na_upgrade = BadUrl, na_conn = 7, na_reply = [], na_accepts = None,
       na_random = (\<lambda>_. 1)\<rparr>, s\<lparr>ws_now := ws_now s + 10\<rparr>)"

definition sample_route :: "UpstreamTier list \<Rightarrow> nat \<Rightarrow> Route" where
  "sample_route pins dc =
     \<lparr>ro_config = sample_config\<lparr>cfg_pinned_upstreams := pins, cfg_cf_balance := True,
        cfg_mtproto_proxies := [sample_proxy]\<rparr>,
      ro_runtime = runtime_new (\<lambda>_ _. True), ro_timeouts = timeouts_from_config sample_config, ro_dc = dc,
      ro_is_media = False, ro_dc_idx = word_of_nat dc, ro_proto = Abridged\<rparr>"

definition sample_route_state :: route_state where
  "sample_route_state = ws_state.extend sample_ws_state
     (route_state.fields cooldown_new cooldown_new
        (cooldown_set cooldown_new (upstream_key (lit ''up.org'') 443) 0 60)
        (cooldown_set cooldown_new (lit '' https://w.example.org/x'') 0 60) 0 0 (pool_with_runtime 1 55) [])"

lemma sample_fair: "fair_world (sample_world sample_refusing)"
  using sample_digest_len sample_mac_len sample_draws_accepted
  by (simp add: fair_world_def sample_world_def sample_refusing_def)

lemma sample_worker_dst: "worker_dst (sample_route pins 2) None = Some (lit ''149.154.167.51'')"
  by (simp add: worker_dst_def sample_route_def fallback_ip_def default_dc_ip_def DEFAULT_DC_IPS_def)

theorem select_upstream_ladder_witness:
  "\<exists>x s' ds. select_upstream (sample_world sample_refusing) (sample_route [Mtproto, Tcp] 2) None
       sample_route_state = Some (x, s') \<and>
     ws_trace s' = ws_trace sample_route_state @ ds \<and> climbs (sample_route [Mtproto, Tcp] 2) None [Mtproto, Tcp] x ds"
  using select_upstream_ladder [OF sample_fair, of "sample_route [Mtproto, Tcp] 2" None sample_route_state]
  by (simp add: ladder_of_def sample_route_def forced_upstreams_def sample_config_def)

theorem select_upstream_default_witness:
  "\<exists>u s'. select_upstream (sample_world sample_refusing) (sample_route [] 2) None sample_route_state =
     Some (Some u, s')"
  by (rule select_upstream_default [OF sample_fair])
    (simp_all add: sample_worker_dst, simp add: sample_route_def forced_upstreams_def sample_config_def)

lemma sample_attempt:
  "\<exists>s1. connect_ws (sample_world sample_refusing) (sample_route [] 2) (lit ''10.0.0.1'') None sample_route_state =
     (\<lparr>at_ws = None, at_all_redirects = False, at_upgrade_timed_out = False, at_connect_timed_out = True\<rparr>, s1) \<and>
     ws_now s1 = 20"
  by (simp add: connect_ws_def connect_ws_for_dc_with_outbound_def ws_domains_def ordered_records_def
      sample_route_def connect_ws_with_path_def dial_net_def sample_world_def sample_refusing_def
      sample_route_state_def sample_ws_state_def ws_state.defs route_state.defs Let_def)

theorem direct_ws_cooldowns_witness:
  "\<exists>s'. direct_ws (sample_world sample_refusing) (sample_route [] 2) (lit ''10.0.0.1'') sample_route_state = (None, s') \<and>
     cooldown_active (rs_ws_fail s') (2, False) 49 \<and> \<not> cooldown_active (rs_ws_fail s') (2, False) 50 \<and>
     cooldown_active (rs_ip_fail s') (lit ''10.0.0.1'') 3619"
proof -
  obtain s1 where run: "connect_ws (sample_world sample_refusing) (sample_route [] 2) (lit ''10.0.0.1'')
      (rt_fronting_domain (ro_runtime (sample_route [] 2))) sample_route_state =
      (\<lparr>at_ws = None, at_all_redirects = False, at_upgrade_timed_out = False, at_connect_timed_out = True\<rparr>, s1)"
      "ws_now s1 = 20"
    using sample_attempt by (auto simp: sample_route_def runtime_new_def)
  obtain ws s' where direct: "direct_ws (sample_world sample_refusing) (sample_route [] 2) (lit ''10.0.0.1'')
      sample_route_state = (ws, s')" by fastforce
  have "\<not> cooldown_active (rs_ws_fail sample_route_state) (2, False) (ws_now sample_route_state)"
    by (simp add: sample_route_state_def route_state.defs ws_state.defs sample_ws_state_def)
  then show ?thesis
    using direct_ws_cooldowns [OF run(1) direct, of 49] direct_ws_cooldowns [OF run(1) direct, of 50]
      direct_ws_cooldowns [OF run(1) direct, of 3619] direct run(2)
    by (simp add: sample_route_def timeouts_from_config_def sample_config_def)
qed

theorem pinned_ladder_dials_witness:
  "\<exists>s'. pinned_ladder (sample_world sample_refusing) (sample_route [Mtproto] 2) [Mtproto] None sample_route_state =
     Some (None, s') \<and> length (ws_trace sample_route_state) < length (ws_trace s')"
proof -
  obtain s' where run: "pinned_ladder (sample_world sample_refusing) (sample_route [Mtproto] 2) [Mtproto] None
      sample_route_state = Some (None, s')"
    by (simp add: upstream_proxies_def tier_attemptable_after_def sample_route_def sample_config_def
        connect_mtproto_upstream_def dial_net_def sample_world_def sample_refusing_def Let_def)
  have "list_ex (tier_attemptable (sample_route [Mtproto] 2) None) [Mtproto]"
    by (simp add: tier_attemptable_def sample_route_def)
  from pinned_ladder_dials [OF sample_fair _ this run] run show ?thesis
    by (simp add: sample_worker_dst)
qed

theorem balanced_spare_bare_domain_witness:
  "\<exists>target counter'. cf_target 64 (sample_route [] 2) Proxy [] (lit ''kws2.example.org'') [lit ''example.org''] 0 =
       (target, counter') \<and>
     (\<exists>d. ws_trace (snd (cf_connect_one sample_net 64 (runtime_new (\<lambda>_ _. True)) target sample_ws_state)) = [d] \<and>
        dl_http_host d = lit ''example.org'')"
proof -
  have domains: "cfg_cf_domains (ro_config (sample_route [] 2)) = [lit ''example.org'']"
    and balance: "cfg_cf_balance (ro_config (sample_route [] 2))"
    by (simp_all add: sample_route_def sample_config_def)
  obtain target counter' where target: "cf_target 64 (sample_route [] 2) Proxy [] (lit ''kws2.example.org'')
      (cfg_cf_domains (ro_config (sample_route [] 2))) 0 = (target, counter')" by fastforce
  from balanced_spare_bare_domain [OF balance _ _ this surjective_pairing,
      of "runtime_new (\<lambda>_ _. True)" sample_net sample_ws_state]
  show ?thesis
    using target unfolding domains by (auto simp: runtime_new_def sample_ws_state_def)
qed

theorem pinned_ladder_gap_witness:
  "pinned_ladder (sample_world sample_refusing) (sample_route [Mtproto, Cfworker] 9) [Mtproto, Cfworker] None
     sample_route_state = Some (None, sample_route_state) \<and>
   tier_attemptable (sample_route [Mtproto, Cfworker] 9) None Mtproto"
proof -
  let ?ro = "sample_route [Mtproto, Cfworker] 9"
  have "worker_dst ?ro None = None"
    by (simp add: worker_dst_def sample_route_def fallback_ip_def default_dc_ip_def DEFAULT_DC_IPS_def)
  moreover have "cfg_cf_worker_domains (ro_config ?ro) \<noteq> []"
    by (simp add: sample_route_def sample_config_def)
  moreover have "list_all (\<lambda>proxy. cooldown_active (rs_upstream_fail sample_route_state)
      (upstream_key (mp_host proxy) (mp_port proxy)) (ws_now sample_route_state)) (cfg_mtproto_proxies (ro_config ?ro))"
    by (simp add: sample_route_def sample_proxy_def sample_route_state_def route_state.defs ws_state.defs
        sample_ws_state_def cd.active_set)
  ultimately show ?thesis
    using pinned_ladder_gap [of ?ro None sample_route_state "sample_world sample_refusing"]
    by (simp add: tier_attemptable_def sample_route_def)
qed

end
