(* ===== verification/Bridge.thy ===== *)
theory Bridge
  imports Splitter Inbound Route Systems "HOL-Library.Sublist"
begin

text \<open>
  The bridges of \<^verbatim>\<open>src/proxy.rs\<close>: \<open>bridge_ws\<close>, \<open>bridge_relay\<close> and \<open>bridge_tcp\<close>, each
  with its upload and its download, and \<open>join_bridge\<close>, which waits for the first of the two.

  The six loops have one shape: read, decrypt, encrypt again, send, count. It is
  \<open>pump_step\<close>, in steps that end at the points where the source awaits a send, so that every
  place where \<open>join_bridge\<close> can cancel an upload lies between two steps. Only the upload to a WebSocket
  cuts its data into packets, flushes and closes. A read that has nothing yet is a direction
  that is not scheduled; a send is taken or refused as a whole.
\<close>

section \<open>One direction\<close>

text \<open>\<open>Sending parts n\<close>: the parts of a read of \<open>n\<close> bytes that are still to be sent.\<close>

datatype pump_phase =
    Reading
  | Sending "bytes list" nat
  | Flushing "bytes list"
  | Ended

type_synonym u64 = "64 word"

record ('r, 's) pump =
  pm_source :: 'r
  pm_dec :: AesCtr256
  pm_enc :: AesCtr256
  pm_splitter :: "MsgSplitter option"
  pm_sink :: 's
  pm_bytes :: u64
  pm_phase :: pump_phase

definition counter_add :: "u64 \<Rightarrow> nat \<Rightarrow> u64" where
  "counter_add bytes n = bytes + word_of_nat n"

text \<open>What the loops do with a read, once it is decrypted: the parts to send.\<close>

definition encrypt_chunk ::
    "keystream \<Rightarrow> nat \<Rightarrow> MsgSplitter option \<Rightarrow> bytes \<Rightarrow> AesCtr256 \<Rightarrow>
     (bytes list \<times> MsgSplitter option \<times> AesCtr256) option" where
  "encrypt_chunk ks W splitter chunk enc =
     (case splitter of
        Some s \<Rightarrow>
          (case split_and_encrypt ks W s chunk enc of
             Some (Ret (parts, s, enc)) \<Rightarrow> Some (parts, Some s, enc)
           | _ \<Rightarrow> None)
      | None \<Rightarrow> (let (chunk, enc) = apply_keystream ks enc chunk in Some ([chunk], None, enc)))"

definition flush_parts :: "MsgSplitter option \<Rightarrow> bytes list" where
  "flush_parts splitter = (case splitter of Some s \<Rightarrow> fst (flush_splitter s) | None \<Rightarrow> [])"

text \<open>
  \<open>read\<close> yields \<open>None\<close> at the end of its source or on an error, which the loops do not tell
  apart; \<open>close\<close> is what is done to the sink after the last part.
\<close>

definition pump_step ::
    "keystream \<Rightarrow> nat \<Rightarrow> ('r \<Rightarrow> bytes option \<times> 'r) \<Rightarrow> (bytes \<Rightarrow> 's \<Rightarrow> 's option) \<Rightarrow> ('s \<Rightarrow> 's) \<Rightarrow>
     ('r, 's) pump \<Rightarrow> ('r, 's) pump option" where
  "pump_step ks W read send close p =
     (case pm_phase p of
        Reading \<Rightarrow>
          (case read (pm_source p) of
             (None, source) \<Rightarrow>
               Some (p\<lparr>pm_source := source, pm_phase := Flushing (flush_parts (pm_splitter p))\<rparr>)
           | (Some chunk, source) \<Rightarrow>
               (let n = length chunk;
                    (chunk, dec) = apply_keystream ks (pm_dec p) chunk
                in case encrypt_chunk ks W (pm_splitter p) chunk (pm_enc p) of
                     None \<Rightarrow> None
                   | Some (parts, splitter, enc) \<Rightarrow>
                       Some (p\<lparr>pm_source := source, pm_dec := dec, pm_enc := enc,
                               pm_splitter := splitter, pm_phase := Sending parts n\<rparr>)))
      | Sending [] n \<Rightarrow> Some (p\<lparr>pm_bytes := counter_add (pm_bytes p) n, pm_phase := Reading\<rparr>)
      | Sending (part # parts) n \<Rightarrow>
          (case send part (pm_sink p) of
             None \<Rightarrow> Some (p\<lparr>pm_phase := Ended\<rparr>)
           | Some sink \<Rightarrow> Some (p\<lparr>pm_sink := sink, pm_phase := Sending parts n\<rparr>))
      | Flushing [] \<Rightarrow> Some (p\<lparr>pm_sink := close (pm_sink p), pm_phase := Ended\<rparr>)
      | Flushing (part # parts) \<Rightarrow>
          (case send part (pm_sink p) of
             None \<Rightarrow> Some (p\<lparr>pm_phase := Flushing parts\<rparr>)
           | Some sink \<Rightarrow> Some (p\<lparr>pm_sink := sink, pm_phase := Flushing parts\<rparr>))
      | Ended \<Rightarrow> Some p)"

definition start_pump ::
    "'r \<Rightarrow> AesCtr256 \<Rightarrow> AesCtr256 \<Rightarrow> MsgSplitter option \<Rightarrow> 's \<Rightarrow> bytes list \<Rightarrow> ('r, 's) pump" where
  "start_pump source dec enc splitter sink opening =
     \<lparr>pm_source = source, pm_dec = dec, pm_enc = enc, pm_splitter = splitter, pm_sink = sink,
      pm_bytes = 0, pm_phase = Sending opening 0\<rparr>"

section \<open>Sources and sinks\<close>

text \<open>Messages of a WebSocket, as far as the download tells them apart.\<close>

datatype WsMessage =
    Binary bytes | Message_Text bytes | Ping bytes | Pong bytes | Message_Close | Ws_Error

fun ws_next :: "WsMessage list \<Rightarrow> bytes option \<times> WsMessage list" where
  "ws_next [] = (None, [])"
| "ws_next (Binary b # ms) = (Some b, ms)"
| "ws_next (Message_Text t # ms) = (Some t, ms)"
| "ws_next (Ping _ # ms) = ws_next ms"
| "ws_next (Pong _ # ms) = ws_next ms"
| "ws_next (Message_Close # ms) = (None, ms)"
| "ws_next (Ws_Error # ms) = (None, ms)"

text \<open>\<open>takes i\<close>: whether the peer takes the \<open>i\<close>-th message.\<close>

record ws_sink =
  wk_sent :: "bytes list"
  wk_closed :: bool

definition ws_send :: "(nat \<Rightarrow> bool) \<Rightarrow> bytes \<Rightarrow> ws_sink \<Rightarrow> ws_sink option" where
  "ws_send takes part s =
     (if takes (length (wk_sent s)) then Some (s\<lparr>wk_sent := wk_sent s @ [part]\<rparr>) else None)"

definition ws_close :: "ws_sink \<Rightarrow> ws_sink" where
  "ws_close s = s\<lparr>wk_closed := True\<rparr>"

text \<open>\<open>Ok(0)\<close> ends a loop.\<close>

definition nonempty :: "bytes \<times> 'r \<Rightarrow> bytes option \<times> 'r" where
  "nonempty r = (if fst r = [] then None else Some (fst r), snd r)"

definition client_source :: "ClientReader \<Rightarrow> bytes option \<times> ClientReader" where
  "client_source r = nonempty (client_read CLIENT_READ_BUF_SIZE r)"

definition remote_write :: "bool \<Rightarrow> 'w writer \<Rightarrow> bytes \<Rightarrow> 'w \<Rightarrow> 'w option" where
  "remote_write faketls write_all chunk w =
     (if faketls then (case write_tls_appdata write_all w chunk of Inl _ \<Rightarrow> None | Inr w \<Rightarrow> Some w)
      else write_all chunk w)"

definition remote_read :: "bool \<Rightarrow> tcp_reader \<Rightarrow> bytes option \<times> tcp_reader" where
  "remote_read faketls r =
     (if faketls then
        (let (bs, reader) = read_tls_appdata (TLS_MAX_RECORD_PAYLOAD + TLS_READ_HEADROOM) (stream_of r)
         in nonempty (bs, [reader]))
      else nonempty (tcp_read RELAY_BUF_SIZE r))"

text \<open>
  What a direction relies on of its source: the reads are the pieces of one stream, and it ends.
  What it relies on of its sink: a part that was taken is there, after those before it.
\<close>

locale byte_source =
  fixes read :: "'r \<Rightarrow> bytes option \<times> 'r"
    and rest :: "'r \<Rightarrow> bytes"
    and left :: "'r \<Rightarrow> nat"
  assumes read_Some: "read r = (Some bs, r') \<Longrightarrow> rest r = bs @ rest r'"
    and read_None: "read r = (None, r') \<Longrightarrow> rest r = []"
    and read_left: "read r = (Some bs, r') \<Longrightarrow> left r' < left r"
    and read_left_None: "read r = (None, r') \<Longrightarrow> left r' \<le> left r"

locale piece_sink =
  fixes send :: "bytes \<Rightarrow> 's \<Rightarrow> 's option"
    and close :: "'s \<Rightarrow> 's"
    and holds :: "'s \<Rightarrow> bytes list \<Rightarrow> bool"
  assumes send_holds: "holds s ps \<Longrightarrow> send p s = Some s' \<Longrightarrow> holds s' (ps @ [p])"
    and close_holds: "holds s ps \<Longrightarrow> holds (close s) ps"

fun ws_rest :: "WsMessage list \<Rightarrow> bytes" where
  "ws_rest [] = []"
| "ws_rest (Binary b # ms) = b @ ws_rest ms"
| "ws_rest (Message_Text t # ms) = t @ ws_rest ms"
| "ws_rest (Ping _ # ms) = ws_rest ms"
| "ws_rest (Pong _ # ms) = ws_rest ms"
| "ws_rest (Message_Close # ms) = []"
| "ws_rest (Ws_Error # ms) = []"

lemma ws_next_rest:
  "ws_next ms = (Some bs, ms') \<Longrightarrow> ws_rest ms = bs @ ws_rest ms' \<and> length ms' < length ms"
  "ws_next ms = (None, ms') \<Longrightarrow> ws_rest ms = [] \<and> length ms' \<le> length ms"
  by (induction ms rule: ws_next.induct) auto

interpretation ws_in: byte_source ws_next ws_rest length
  by unfold_locales (auto dest: ws_next_rest)

definition client_rest :: "ClientReader \<Rightarrow> bytes" where
  "client_rest = client_stream CLIENT_READ_BUF_SIZE"

lemma buf_pos: "0 < CLIENT_READ_BUF_SIZE" "0 < RELAY_BUF_SIZE"
  by (simp_all add: buf_consts tls_consts)

lemma nonempty_eq:
  "nonempty r = (Some bs, r') \<longleftrightarrow> r = (bs, r') \<and> bs \<noteq> []"
  "nonempty r = (None, r') \<longleftrightarrow> r = ([], r')"
  by (cases r; auto simp: nonempty_def)+

lemma read_tls_appdata_le: "length (snd (read_tls_appdata n reader)) \<le> length reader"
proof (induction n reader rule: read_tls_appdata.induct)
  case (1 n reader)
  then show ?case
    by (subst read_tls_appdata.simps)
      (fastforce simp: Let_def read_exact_def split: option.splits if_splits)
qed

lemma client_read_left_Nil:
  assumes "client_read n r = ([], r')" and "0 < n"
  shows "client_left r' \<le> client_left r"
proof (cases r)
  case (CrPlain reader)
  then show ?thesis using assms by (cases reader) (auto split: if_splits)
next
  case (CrFakeTls reader pending)
  then show ?thesis
    using assms pending_read_stream(2) [of n pending "[]"] read_tls_appdata_le [of n reader]
    by (auto split: option.splits prod.splits)
qed

interpretation client_in: byte_source client_source client_rest client_left
proof unfold_locales
  fix r bs r'
  assume "client_source r = (Some bs, r')"
  then have "client_read CLIENT_READ_BUF_SIZE r = (bs, r')" "bs \<noteq> []"
    by (simp_all add: client_source_def nonempty_eq)
  then show "client_rest r = bs @ client_rest r'" "client_left r' < client_left r"
    using client_read_stream [of CLIENT_READ_BUF_SIZE r bs r'] client_read_left [of _ r bs r'] buf_pos
    by (auto simp: client_rest_def)
next
  fix r r'
  assume "client_source r = (None, r')"
  then have "client_read CLIENT_READ_BUF_SIZE r = ([], r')"
    by (simp add: client_source_def nonempty_eq)
  then show "client_rest r = []" "client_left r' \<le> client_left r"
    using client_read_stream [of CLIENT_READ_BUF_SIZE r "[]" r'] client_read_left_Nil buf_pos
    by (auto simp: client_rest_def)
qed

definition remote_rest :: "bool \<Rightarrow> tcp_reader \<Rightarrow> bytes" where
  "remote_rest faketls r =
     (if faketls then read_all_appdata CLIENT_READ_BUF_SIZE (stream_of r) else stream_of r)"

definition remote_left :: "bool \<Rightarrow> tcp_reader \<Rightarrow> nat" where
  "remote_left faketls r = (if faketls then length (stream_of r) else length (concat r))"

lemma remote_read_Some:
  assumes read: "remote_read faketls r = (Some bs, r')"
  shows "remote_rest faketls r = bs @ remote_rest faketls r' \<and> remote_left faketls r' < remote_left faketls r"
proof (cases faketls)
  case True
  then obtain reader where "read_tls_appdata CLIENT_READ_BUF_SIZE (stream_of r) = (bs, reader)"
    "r' = [reader]" "bs \<noteq> []"
    using read by (auto simp: remote_read_def CLIENT_READ_BUF_SIZE_def nonempty_eq split: prod.splits)
  then show ?thesis
    using True read_tls_appdata_shorter [of CLIENT_READ_BUF_SIZE "stream_of r"]
    by (auto simp: remote_rest_def remote_left_def read_all_appdata.simps [of _ "stream_of r"])
next
  case False
  then have "tcp_read RELAY_BUF_SIZE r = (bs, r')" "bs \<noteq> []"
    using read by (simp_all add: remote_read_def nonempty_eq)
  then show ?thesis
    using False tcp_read_stream(1) [of RELAY_BUF_SIZE r] buf_pos
    by (cases r) (auto simp: remote_rest_def remote_left_def split: if_splits)
qed

lemma remote_read_None:
  assumes read: "remote_read faketls r = (None, r')"
  shows "remote_rest faketls r = [] \<and> remote_left faketls r' \<le> remote_left faketls r"
proof (cases faketls)
  case True
  then obtain reader where "read_tls_appdata CLIENT_READ_BUF_SIZE (stream_of r) = ([], reader)"
    "r' = [reader]"
    using read by (auto simp: remote_read_def CLIENT_READ_BUF_SIZE_def nonempty_eq split: prod.splits)
  then show ?thesis
    using True read_tls_appdata_le [of CLIENT_READ_BUF_SIZE "stream_of r"]
    by (auto simp: remote_rest_def remote_left_def read_all_appdata.simps [of _ "stream_of r"])
next
  case False
  then have "tcp_read RELAY_BUF_SIZE r = ([], r')"
    using read by (simp_all add: remote_read_def nonempty_eq)
  then show ?thesis
    using False tcp_read_stream(1) [of RELAY_BUF_SIZE r] buf_pos
    by (cases r) (auto simp: remote_rest_def remote_left_def split: if_splits)
qed

interpretation remote_in: byte_source "remote_read faketls" "remote_rest faketls" "remote_left faketls"
  for faketls
  by unfold_locales (auto dest: remote_read_Some remote_read_None)

interpretation ws_out: piece_sink "ws_send takes" ws_close "\<lambda>s ps. wk_sent s = ps" for takes
  by unfold_locales (auto simp: ws_send_def ws_close_def split: if_splits)

text \<open>What a TCP connection carries after some parts, with and without the records of FakeTLS.\<close>

definition tcp_carries :: "bool \<Rightarrow> bytes \<Rightarrow> bytes \<Rightarrow> bytes list \<Rightarrow> bool" where
  "tcp_carries faketls before out ps \<longleftrightarrow>
     out = before @ concat (if faketls then map appdata_stream ps else ps)"

lemma tcp_writer_appends: "tcp_writer accepts bs out = Some out' \<Longrightarrow> out' = out @ bs"
  by (auto simp: tcp_writer_def split: option.splits if_splits)

lemma write_tls_appdata_tcp:
  "write_tls_appdata (tcp_writer accepts) w chunk = Inr w' \<Longrightarrow> w' = w @ appdata_stream chunk"
proof (induction chunk arbitrary: w rule: appdata_stream.induct)
  case (1 chunk)
  let ?first = "take TLS_MAX_APPDATA_WRITE chunk" and ?later = "drop TLS_MAX_APPDATA_WRITE chunk"
  have head: "appdata_header (length ?first) = TLS_RECORD_APPLICATION_DATA # TLS_VERSION_12 @ len16 (length ?first)"
    by (rule appdata_header_len16) (simp add: tls_consts)
  show ?case
  proof (cases "chunk = []")
    case False
    then obtain w1 w2 where w: "tcp_writer accepts (appdata_header (length ?first)) w = Some w1"
      "tcp_writer accepts ?first w1 = Some w2" "write_tls_appdata (tcp_writer accepts) w2 ?later = Inr w'"
      using "1.prems" by (subst (asm) write_tls_appdata.simps) (auto simp: Let_def split: option.splits)
    have "w' = w2 @ appdata_stream ?later" by (rule "1.IH" [OF False refl w(3)])
    then show ?thesis
      using False tcp_writer_appends [OF w(1)] tcp_writer_appends [OF w(2)] head
      by (subst appdata_stream.simps) (simp add: Let_def)
  qed (use "1.prems" in \<open>simp add: write_tls_appdata.simps\<close>)
qed

interpretation remote_out: piece_sink "remote_write faketls (tcp_writer accepts)" id "tcp_carries faketls before"
  for faketls accepts before
  by unfold_locales
    (auto simp: remote_write_def tcp_carries_def split: if_splits sum.splits
      dest!: tcp_writer_appends write_tls_appdata_tcp)

section \<open>What one direction sends\<close>

text \<open>The parts of a whole sequence of decrypted reads.\<close>

definition pieces ::
    "keystream \<Rightarrow> nat \<Rightarrow> MsgSplitter option \<Rightarrow> bytes list \<Rightarrow> AesCtr256 \<Rightarrow>
     (bytes list \<times> MsgSplitter option \<times> AesCtr256) option" where
  "pieces ks W splitter plains enc =
     (case splitter of
        Some s \<Rightarrow>
          (case split_reads ks W s plains enc of
             Some (Ret (parts, s, enc)) \<Rightarrow> Some (parts, Some s, enc)
           | _ \<Rightarrow> None)
      | None \<Rightarrow> Some (each_message (apply_keystream ks) enc plains, None,
                  snd (apply_keystream ks enc (concat plains))))"

lemma split_reads_snoc:
  "split_reads ks W s (cs @ [c]) enc =
     (case split_reads ks W s cs enc of
        Some (Ret (parts, s, enc)) \<Rightarrow>
          (case split_and_encrypt ks W s c enc of
             Some (Ret (parts', s, enc)) \<Rightarrow> Some (Ret (parts @ parts', s, enc))
           | other \<Rightarrow> other)
      | other \<Rightarrow> other)"
  by (induction cs arbitrary: s enc) (auto split: option.splits exec.splits prod.splits)

context xor_cipher
begin

lemma each_message_snoc:
  "each_message ap c (ms @ [m]) = each_message ap c ms @ [fst (ap (snd (ap c (concat ms))) m)]"
  by (induction ms arbitrary: c) (simp_all add: ap_snd_append)

lemma concat_each_message: "concat (each_message ap c ms) = fst (ap c (concat ms))"
  by (induction ms arbitrary: c) (simp_all add: ap_fst_append)

lemma each_message_append:
  "each_message ap c (ms @ ns) = each_message ap c ms @ each_message ap (snd (ap c (concat ms))) ns"
  by (induction ms arbitrary: c) (simp_all add: ap_snd_append)

lemma length_each_message: "length (each_message ap c ms) = length ms"
  by (induction ms arbitrary: c) simp_all

lemma each_message_involution: "each_message ap c (each_message ap c ms) = ms"
  by (induction ms arbitrary: c) (simp_all add: ap_decrypts)

end

lemma pieces_Nil [simp]: "pieces ks W splitter [] enc = Some ([], splitter, enc)"
  by (simp add: pieces_def split: option.splits)

lemma pieces_snoc:
  assumes "pieces ks W splitter cs enc = Some (parts, splitter', enc')"
    and "encrypt_chunk ks W splitter' c enc' = Some (parts', splitter'', enc'')"
  shows "pieces ks W splitter (cs @ [c]) enc = Some (parts @ parts', splitter'', enc'')"
  using assms
  by (auto simp: pieces_def encrypt_chunk_def split_reads_snoc ctr.each_message_snoc ctr.ap_snd_append
      split: option.splits exec.splits prod.splits)

text \<open>A splitter as \<open>bridge_ws\<close> starts it, or none.\<close>

definition fresh :: "MsgSplitter option \<Rightarrow> bool" where
  "fresh splitter \<longleftrightarrow> (\<forall>s. splitter = Some s \<longrightarrow> s = new_splitter (sp_proto s))"

lemma pieces_stream:
  assumes "fresh splitter" and "32 \<le> W"
  shows "\<exists>parts splitter'.
    pieces ks W splitter plains enc = Some (parts, splitter', snd (apply_keystream ks enc (concat plains))) \<and>
    concat (parts @ flush_parts splitter') = fst (apply_keystream ks enc (concat plains))"
proof (cases splitter)
  case None
  then show ?thesis
    by (simp add: pieces_def ctr.concat_each_message flush_parts_def)
next
  case (Some s)
  then have "s = new_splitter (sp_proto s)" using assms(1) by (simp add: fresh_def)
  then have s: "in_state s [] False" "sp_packet s = []"
    using assembling_new [of "sp_proto s"] by (auto simp: in_state_def) (metis assembling_new assembling_packet_Nil)
  obtain outs s' where "split_reads ks W s plains enc = Some (Ret (outs, s', snd (apply_keystream ks enc (concat plains))))"
    "concat outs @ sp_packet s' = sp_packet s @ fst (apply_keystream ks enc (concat plains))"
    using split_reads_stream [OF s(1) assms(2), of ks plains enc] by blast
  then show ?thesis
    using Some s(2) by (simp add: pieces_def flush_parts_def concat_flush)
qed

lemma pieces_packets:
  assumes "32 \<le> W" and "frames proto (concat plains) = (packets, incomplete, False)"
  shows "\<exists>parts s'.
    pieces ks W (Some (new_splitter proto)) plains enc =
      Some (parts, Some s', snd (apply_keystream ks enc (concat plains))) \<and>
    each_message (apply_keystream ks) enc parts = packets \<and>
    each_message (apply_keystream ks) enc (parts @ flush_parts (Some s')) =
      packets @ (if incomplete = [] then [] else [incomplete])"
proof -
  have proto: "sp_proto (new_splitter proto) = proto" "sp_packet (new_splitter proto) = []"
    by (simp_all add: new_splitter_def)
  obtain outs s where run: "split_reads ks W (new_splitter proto) plains enc =
      Some (Ret (outs, s, snd (apply_keystream ks enc (concat plains))))"
    and s: "map length outs = map length packets" "assembling s incomplete"
      "concat outs @ sp_packet s = fst (apply_keystream ks enc (concat plains))"
    using split_reads_frames [OF assembling_new assms(1), of proto plains packets incomplete ks enc]
      assms(2) by (auto simp: splits_as_def in_state_def proto)
  let ?ps = "packets @ (if incomplete = [] then [] else [incomplete])"
  have whole: "concat plains = concat packets @ incomplete" using frames_concat [OF assms(2)] by simp
  have "map length (outs @ fst (flush_splitter s)) = map length ?ps"
    using s assembling_packet_Nil [OF s(2)] by (auto simp: flush_splitter_def assembling_def)
  then have all: "each_message (apply_keystream ks) enc (outs @ fst (flush_splitter s)) = ?ps"
    using s(3) whole by (intro ctr.each_message_cut) (simp_all add: concat_flush)
  moreover have "each_message (apply_keystream ks) enc outs = packets"
    using all map_eq_imp_length_eq [OF s(1)]
    by (simp add: ctr.each_message_append append_eq_append_conv ctr.length_each_message split: if_splits)
  ultimately show ?thesis
    using run by (simp add: pieces_def flush_parts_def)
qed

text \<open>A direction in which nothing is refused.\<close>

definition never_refuses :: "(bytes \<Rightarrow> 's \<Rightarrow> 's option) \<Rightarrow> bool" where
  "never_refuses send \<longleftrightarrow> (\<forall>part s. send part s \<noteq> None)"

text \<open>
  The state of a direction that started as \<open>p0\<close> with the messages \<open>opening\<close>, has read \<open>reads\<close>,
  made \<open>parts\<close> of them, got \<open>sent\<close> through and has \<open>later\<close> before it.
\<close>

definition pump_at ::
    "keystream \<Rightarrow> nat \<Rightarrow> ('r \<Rightarrow> bytes) \<Rightarrow> (bytes \<Rightarrow> 's \<Rightarrow> 's option) \<Rightarrow> ('s \<Rightarrow> bytes list \<Rightarrow> bool) \<Rightarrow>
     ('r, 's) pump \<Rightarrow> bytes list \<Rightarrow> bytes list \<Rightarrow> bytes list \<Rightarrow> bytes list \<Rightarrow> bytes \<Rightarrow>
     ('r, 's) pump \<Rightarrow> bool" where
  "pump_at ks W rest send holds p0 opening reads parts sent later p \<longleftrightarrow>
     rest (pm_source p0) = concat reads @ later \<and>
     pm_dec p = snd (apply_keystream ks (pm_dec p0) (concat reads)) \<and>
     pieces ks W (pm_splitter p0) (each_message (apply_keystream ks) (pm_dec p0) reads) (pm_enc p0) =
       Some (parts, pm_splitter p, pm_enc p) \<and>
     holds (pm_sink p) sent \<and>
     (case pm_phase p of
        Reading \<Rightarrow>
          later = rest (pm_source p) \<and> sent = opening @ parts \<and>
          pm_bytes p = word_of_nat (length (concat reads))
      | Sending ps n \<Rightarrow>
          later = rest (pm_source p) \<and> sent @ ps = opening @ parts \<and>
          pm_bytes p + word_of_nat n = word_of_nat (length (concat reads))
      | Flushing ps \<Rightarrow>
          later = [] \<and> pm_bytes p = word_of_nat (length (concat reads)) \<and>
          ((\<exists>flushed. sent = opening @ parts @ flushed \<and> flushed @ ps = flush_parts (pm_splitter p)) \<or>
           \<not> never_refuses send \<and> ps = [] \<and> sent = opening @ parts)
      | Ended \<Rightarrow>
          \<not> never_refuses send \<and> prefix sent (opening @ parts) \<or>
          later = [] \<and> pm_bytes p = word_of_nat (length (concat reads)) \<and>
          sent = opening @ parts @ flush_parts (pm_splitter p))"

definition pump_inv ::
    "keystream \<Rightarrow> nat \<Rightarrow> ('r \<Rightarrow> bytes) \<Rightarrow> (bytes \<Rightarrow> 's \<Rightarrow> 's option) \<Rightarrow> ('s \<Rightarrow> bytes list \<Rightarrow> bool) \<Rightarrow>
     ('r, 's) pump \<Rightarrow> bytes list \<Rightarrow> ('r, 's) pump \<Rightarrow> bool" where
  "pump_inv ks W rest send holds p0 opening p \<longleftrightarrow>
     (\<exists>reads parts sent later. pump_at ks W rest send holds p0 opening reads parts sent later p)"

lemma pump_invI:
  "pump_at ks W rest send holds p0 opening reads parts sent later p \<Longrightarrow>
   pump_inv ks W rest send holds p0 opening p"
  by (auto simp: pump_inv_def)

definition pumps ::
    "keystream \<Rightarrow> nat \<Rightarrow> ('r \<Rightarrow> bytes option \<times> 'r) \<Rightarrow> (bytes \<Rightarrow> 's \<Rightarrow> 's option) \<Rightarrow> ('s \<Rightarrow> 's) \<Rightarrow>
     ('r, 's) pump \<Rightarrow> ('r, 's) pump \<Rightarrow> bool" where
  "pumps ks W read send close p p' \<longleftrightarrow> pm_phase p \<noteq> Ended \<and> pump_step ks W read send close p = Some p'"

text \<open>What decreases in every step that does not read.\<close>

definition pump_weight :: "('r, 's) pump \<Rightarrow> nat" where
  "pump_weight p = (case pm_phase p of Sending _ _ \<Rightarrow> 3 | Reading \<Rightarrow> 2 | Flushing _ \<Rightarrow> 1 | Ended \<Rightarrow> 0)"

definition pump_parts :: "('r, 's) pump \<Rightarrow> nat" where
  "pump_parts p = (case pm_phase p of Sending ps _ \<Rightarrow> length ps | Flushing ps \<Rightarrow> length ps | _ \<Rightarrow> 0)"

locale pump = byte_source read rest left + piece_sink send close holds
  for read :: "'r \<Rightarrow> bytes option \<times> 'r" and rest left
    and send :: "bytes \<Rightarrow> 's \<Rightarrow> 's option" and close holds
begin

lemma start_inv:
  assumes "holds sink []"
  shows "pump_inv ks W rest send holds (start_pump r d e sp sink opening) opening
           (start_pump r d e sp sink opening)"
  using assms
  by (intro pump_invI [where reads = "[]" and parts = "[]" and sent = "[]" and later = "rest r"])
    (simp add: pump_at_def start_pump_def)

lemma read_inv:
  assumes inv: "pump_inv ks W rest send holds p0 opening p" and phase: "pm_phase p = Reading"
    and step: "pump_step ks W read send close p = Some p'"
  shows "pump_inv ks W rest send holds p0 opening p'"
proof -
  obtain reads parts sent later where I: "pump_at ks W rest send holds p0 opening reads parts sent later p"
    using inv by (auto simp: pump_inv_def)
  note I = I [unfolded pump_at_def phase pump_phase.case]
  obtain chunk source where read: "read (pm_source p) = (chunk, source)" by (cases "read (pm_source p)")
  show ?thesis
  proof (cases chunk)
    case None
    then have "p' = p\<lparr>pm_source := source, pm_phase := Flushing (flush_parts (pm_splitter p))\<rparr>"
      using step phase read by (simp add: pump_step_def)
    then show ?thesis
      using I None read_None read
      by (intro pump_invI [where reads = reads and parts = parts and sent = sent and later = "[]"])
        (auto simp: pump_at_def)
  next
    case (Some c)
    let ?plain = "fst (apply_keystream ks (pm_dec p) c)"
    obtain parts' splitter enc where enc: "encrypt_chunk ks W (pm_splitter p) ?plain (pm_enc p) =
        Some (parts', splitter, enc)"
      and p': "p' = p\<lparr>pm_source := source, pm_dec := snd (apply_keystream ks (pm_dec p) c), pm_enc := enc,
                pm_splitter := splitter, pm_phase := Sending parts' (length c)\<rparr>"
      using step phase read Some
      by (auto simp: pump_step_def split: prod.splits option.splits)
    have "pieces ks W (pm_splitter p0) (each_message (apply_keystream ks) (pm_dec p0) (reads @ [c])) (pm_enc p0) =
        Some (parts @ parts', splitter, enc)"
      using pieces_snoc [OF _ enc] I by (simp add: ctr.each_message_snoc)
    moreover have "rest (pm_source p) = c @ rest source"
      using read_Some read Some by simp
    ultimately show ?thesis
      using I p'
      by (intro pump_invI [where reads = "reads @ [c]" and parts = "parts @ parts'" and sent = sent
            and later = "rest source"]) (auto simp: pump_at_def ctr.ap_snd_append)
  qed
qed

lemma send_inv:
  assumes inv: "pump_inv ks W rest send holds p0 opening p" and phase: "pm_phase p = Sending ps n"
    and step: "pump_step ks W read send close p = Some p'"
  shows "pump_inv ks W rest send holds p0 opening p'"
proof -
  obtain reads parts sent later where I: "pump_at ks W rest send holds p0 opening reads parts sent later p"
    using inv by (auto simp: pump_inv_def)
  note I = I [unfolded pump_at_def phase pump_phase.case]
  show ?thesis
  proof (cases ps)
    case Nil
    then have "p' = p\<lparr>pm_bytes := pm_bytes p + word_of_nat n, pm_phase := Reading\<rparr>"
      using step phase by (simp add: pump_step_def counter_add_def)
    with Nil I show ?thesis
      by (intro pump_invI [where reads = reads and parts = parts and sent = sent and later = later])
        (auto simp: pump_at_def)
  next
    case (Cons part ps')
    show ?thesis
    proof (cases "send part (pm_sink p)")
      case None
      then have "p' = p\<lparr>pm_phase := Ended\<rparr>" "\<not> never_refuses send"
        using step phase Cons by (auto simp: pump_step_def never_refuses_def)
      moreover have "prefix sent (opening @ parts)"
        using I by (metis prefixI)
      ultimately show ?thesis
        using I by (intro pump_invI [where reads = reads and parts = parts and sent = sent and later = later])
          (simp add: pump_at_def)
    next
      case (Some sink)
      then have "p' = p\<lparr>pm_sink := sink, pm_phase := Sending ps' n\<rparr>"
        using step phase Cons by (simp add: pump_step_def)
      moreover have "holds sink (sent @ [part])"
        using send_holds Some I by blast
      ultimately show ?thesis
        using I Cons
        by (intro pump_invI [where reads = reads and parts = parts and sent = "sent @ [part]" and later = later])
          (simp add: pump_at_def)
    qed
  qed
qed

lemma flush_parts_one: "xs @ part # ps = flush_parts splitter \<Longrightarrow> xs = [] \<and> ps = []"
  by (auto simp: flush_parts_def flush_splitter_def append_eq_Cons_conv split: option.splits if_splits)

lemma flush_inv:
  assumes inv: "pump_inv ks W rest send holds p0 opening p" and phase: "pm_phase p = Flushing ps"
    and step: "pump_step ks W read send close p = Some p'"
  shows "pump_inv ks W rest send holds p0 opening p'"
proof -
  obtain reads parts sent later where I: "pump_at ks W rest send holds p0 opening reads parts sent later p"
    using inv by (auto simp: pump_inv_def)
  note I = I [unfolded pump_at_def phase pump_phase.case]
  show ?thesis
  proof (cases ps)
    case Nil
    then have "p' = p\<lparr>pm_sink := close (pm_sink p), pm_phase := Ended\<rparr>"
      using step phase by (simp add: pump_step_def)
    with Nil I close_holds show ?thesis
      by (intro pump_invI [where reads = reads and parts = parts and sent = sent and later = later])
        (auto simp: pump_at_def)
  next
    case (Cons part ps')
    then obtain flushed where flushed: "sent = opening @ parts @ flushed"
      "flushed @ part # ps' = flush_parts (pm_splitter p)" using I by auto
    then have one: "sent = opening @ parts" "ps' = []" "flush_parts (pm_splitter p) = [part]"
      using flush_parts_one [OF flushed(2)] by simp_all
    show ?thesis
    proof (cases "send part (pm_sink p)")
      case None
      then have "p' = p\<lparr>pm_phase := Flushing []\<rparr>" "\<not> never_refuses send"
        using step phase Cons one by (auto simp: pump_step_def never_refuses_def)
      then show ?thesis
        using I one
        by (intro pump_invI [where reads = reads and parts = parts and sent = sent and later = later])
          (auto simp: pump_at_def)
    next
      case (Some sink)
      then have "p' = p\<lparr>pm_sink := sink, pm_phase := Flushing []\<rparr>"
        using step phase Cons one by (simp add: pump_step_def)
      moreover have "holds sink (sent @ [part])" using send_holds Some I by blast
      ultimately show ?thesis
        using I one
        by (intro pump_invI [where reads = reads and parts = parts and sent = "sent @ [part]" and later = later])
          (auto simp: pump_at_def)
    qed
  qed
qed

lemma step_inv:
  assumes "pump_inv ks W rest send holds p0 opening p" and "pumps ks W read send close p p'"
  shows "pump_inv ks W rest send holds p0 opening p'"
proof -
  have step: "pump_step ks W read send close p = Some p'" "pm_phase p \<noteq> Ended"
    using assms(2) by (simp_all add: pumps_def)
  show ?thesis
  proof (cases "pm_phase p")
    case Reading
    then show ?thesis using read_inv [OF assms(1) _ step(1)] by simp
  next
    case (Sending ps n)
    then show ?thesis using send_inv [OF assms(1) _ step(1)] by simp
  next
    case (Flushing ps)
    then show ?thesis using flush_inv [OF assms(1) _ step(1)] by simp
  qed (simp add: step(2))
qed

lemma encrypt_chunk_returns:
  assumes "fresh splitter" and "32 \<le> W" and "pieces ks W splitter plains enc = Some (parts, splitter', enc')"
  shows "encrypt_chunk ks W splitter' c enc' \<noteq> None"
proof (cases splitter)
  case None
  then show ?thesis using assms(3) by (auto simp: pieces_def encrypt_chunk_def split: prod.splits)
next
  case (Some s)
  obtain parts' where "pieces ks W splitter (plains @ [c]) enc = Some parts'"
    using pieces_stream [OF assms(1,2), of ks "plains @ [c]" enc] by blast
  then show ?thesis
    using assms(3) Some
    by (auto simp: pieces_def encrypt_chunk_def split_reads_snoc split: option.splits exec.splits)
qed

lemma step_returns:
  assumes "pump_inv ks W rest send holds p0 opening p" and "fresh (pm_splitter p0)" and "32 \<le> W"
  shows "pump_step ks W read send close p \<noteq> None"
proof -
  obtain plains parts where "pieces ks W (pm_splitter p0) plains (pm_enc p0) = Some (parts, pm_splitter p, pm_enc p)"
    using assms(1) by (auto simp: pump_inv_def pump_at_def)
  note returns = encrypt_chunk_returns [OF assms(2,3) this]
  show ?thesis
    by (auto simp: pump_step_def returns split: pump_phase.splits option.splits prod.splits list.splits)
qed

lemma pump_at_prefix:
  assumes "pump_at ks W rest send holds p0 opening reads parts sent later p"
  shows "prefix sent (opening @ parts) \<or> later = [] \<and> sent = opening @ parts @ flush_parts (pm_splitter p)"
  using assms flush_parts_one
  by (auto simp: pump_at_def prefix_def split: pump_phase.splits) (metis append.right_neutral neq_Nil_conv)+

lemma concat_prefix: "prefix xs ys \<Longrightarrow> prefix (concat xs) (concat ys)"
  by (auto simp: prefix_def)

text \<open>Whatever got through is the beginning of what should.\<close>

lemma sent_stream:
  assumes "pump_inv ks W rest send holds p0 opening p" and "fresh (pm_splitter p0)" and "32 \<le> W"
  shows "\<exists>sent. holds (pm_sink p) sent \<and>
    prefix (concat sent) (concat opening @
      fst (apply_keystream ks (pm_enc p0) (fst (apply_keystream ks (pm_dec p0) (rest (pm_source p0))))))"
proof -
  obtain reads parts sent later where at: "pump_at ks W rest send holds p0 opening reads parts sent later p"
    using assms(1) by (auto simp: pump_inv_def)
  let ?plain = "fst (apply_keystream ks (pm_dec p0) (concat reads))"
  have "prefix sent (opening @ parts @ flush_parts (pm_splitter p))"
    using pump_at_prefix [OF at] prefix_prefix [of sent "opening @ parts"] by auto
  then have "prefix (concat sent) (concat opening @ concat (parts @ flush_parts (pm_splitter p)))"
    using concat_prefix by fastforce
  moreover have "concat (parts @ flush_parts (pm_splitter p)) = fst (apply_keystream ks (pm_enc p0) ?plain)"
    using at pieces_stream [OF assms(2,3), of ks "each_message (apply_keystream ks) (pm_dec p0) reads" "pm_enc p0"]
    by (auto simp: pump_at_def ctr.concat_each_message)
  moreover have "rest (pm_source p0) = concat reads @ later" using at by (simp add: pump_at_def)
  ultimately have "prefix (concat sent) (concat opening @
      fst (apply_keystream ks (pm_enc p0) (fst (apply_keystream ks (pm_dec p0) (rest (pm_source p0))))))"
    using prefix_prefix [of "concat sent" "concat opening @ fst (apply_keystream ks (pm_enc p0) ?plain)"]
    by (simp add: ctr.ap_fst_append)
  then show ?thesis using at by (auto simp: pump_at_def)
qed

lemma ended_stream:
  assumes "pump_inv ks W rest send holds p0 opening p" and "fresh (pm_splitter p0)" and "32 \<le> W"
    and "pm_phase p = Ended" and "never_refuses send"
  shows "\<exists>sent. holds (pm_sink p) sent \<and>
    concat sent = concat opening @
      fst (apply_keystream ks (pm_enc p0) (fst (apply_keystream ks (pm_dec p0) (rest (pm_source p0))))) \<and>
    pm_bytes p = word_of_nat (length (rest (pm_source p0)))"
proof -
  obtain reads parts sent later where at: "pump_at ks W rest send holds p0 opening reads parts sent later p"
    using assms(1) by (auto simp: pump_inv_def)
  have "concat (parts @ flush_parts (pm_splitter p)) =
      fst (apply_keystream ks (pm_enc p0) (fst (apply_keystream ks (pm_dec p0) (concat reads))))"
    using at pieces_stream [OF assms(2,3), of ks "each_message (apply_keystream ks) (pm_dec p0) reads" "pm_enc p0"]
    by (auto simp: pump_at_def ctr.concat_each_message)
  then show ?thesis
    using at assms(4,5) by (auto simp: pump_at_def)
qed

text \<open>The messages of an upload that cuts its data into packets.\<close>

lemma frames_prefix:
  assumes "frames proto (xs @ ys) = (packets, incomplete, False)"
  shows "\<exists>ps r qs. frames proto xs = (ps, r, False) \<and> packets = ps @ qs \<and>
           (ys = [] \<longrightarrow> r = incomplete \<and> qs = [])"
proof -
  obtain ps r d where xs: "frames proto xs = (ps, r, d)" by (cases "frames proto xs") auto
  have "\<not> d" using assms frames_append_disabled [of proto xs ps r ys] xs by auto
  then have "frames proto (xs @ ys) = (let (qs, r', d) = frames proto (r @ ys) in (ps @ qs, r', d))"
    using frames_append xs by simp
  then obtain qs where qs: "packets = ps @ qs" using assms by (cases "frames proto (r @ ys)") auto
  have "r = incomplete \<and> qs = []" if "ys = []" using that assms xs qs by simp
  then show ?thesis using xs \<open>\<not> d\<close> qs by simp
qed

lemma sent_packets:
  assumes "pump_inv ks W rest send holds p0 opening p" and "32 \<le> W"
    and "pm_splitter p0 = Some (new_splitter proto)"
    and "frames proto (fst (apply_keystream ks (pm_dec p0) (rest (pm_source p0)))) = (packets, incomplete, False)"
  shows "\<exists>sent. holds (pm_sink p) sent \<and>
    prefix (each_message (apply_keystream ks) (pm_enc p0) (drop (length opening) sent))
         (packets @ (if incomplete = [] then [] else [incomplete])) \<and>
    prefix (take (length opening) sent) opening"
proof -
  obtain reads parts sent later where at: "pump_at ks W rest send holds p0 opening reads parts sent later p"
    using assms(1) by (auto simp: pump_inv_def)
  let ?plains = "each_message (apply_keystream ks) (pm_dec p0) reads"
  have "rest (pm_source p0) = concat reads @ later" using at by (simp add: pump_at_def)
  then have "frames proto (concat ?plains @
      fst (apply_keystream ks (snd (apply_keystream ks (pm_dec p0) (concat reads))) later)) = (packets, incomplete, False)"
    using assms(4) by (simp add: ctr.concat_each_message ctr.ap_fst_append)
  from frames_prefix [OF this]
  obtain ps r qs where fr: "frames proto (concat ?plains) = (ps, r, False)" "packets = ps @ qs"
    "later = [] \<longrightarrow> r = incomplete \<and> qs = []"
    using ctr.ap_length [of ks _ later] by (metis length_0_conv)
  obtain parts' where P: "pieces ks W (pm_splitter p0) ?plains (pm_enc p0) = Some parts'"
    "each_message (apply_keystream ks) (pm_enc p0) (fst parts') = ps"
    "each_message (apply_keystream ks) (pm_enc p0) (fst parts' @ flush_parts (fst (snd parts'))) =
       ps @ (if r = [] then [] else [r])"
    using pieces_packets [OF assms(2) fr(1), of ks "pm_enc p0"] assms(3) by fastforce
  have parts: "fst parts' = parts" "fst (snd parts') = pm_splitter p"
    using at P(1) by (simp_all add: pump_at_def)
  show ?thesis
  proof (cases "prefix sent (opening @ parts)")
    case True
    then have "prefix (drop (length opening) sent) parts" "prefix (take (length opening) sent) opening"
      by (auto simp: prefix_def append_eq_append_conv2)
    then have "prefix (each_message (apply_keystream ks) (pm_enc p0) (drop (length opening) sent)) ps"
      using P(2) parts by (auto simp: prefix_def ctr.each_message_append)
    then show ?thesis
      using at fr(2) \<open>prefix (take (length opening) sent) opening\<close> unfolding pump_at_def
      by (intro exI [of _ sent]) (auto simp: prefix_def)
  next
    case False
    then have "later = []" "sent = opening @ parts @ flush_parts (pm_splitter p)"
      using pump_at_prefix [OF at] by auto
    then show ?thesis
      using at fr(2,3) P(3) parts unfolding pump_at_def by (intro exI [of _ sent]) auto
  qed
qed

lemma ended_packets:
  assumes "pump_inv ks W rest send holds p0 opening p" and "32 \<le> W"
    and "pm_splitter p0 = Some (new_splitter proto)" and "pm_phase p = Ended" and "never_refuses send"
    and "frames proto (fst (apply_keystream ks (pm_dec p0) (rest (pm_source p0)))) = (packets, incomplete, False)"
  shows "\<exists>messages. holds (pm_sink p) (opening @ messages) \<and>
    each_message (apply_keystream ks) (pm_enc p0) messages =
      packets @ (if incomplete = [] then [] else [incomplete])"
proof -
  obtain reads parts sent where at: "pump_at ks W rest send holds p0 opening reads parts sent [] p"
    "sent = opening @ parts @ flush_parts (pm_splitter p)"
    using assms(1,4,5) by (auto simp: pump_inv_def pump_at_def)
  then have fr: "frames proto (concat (each_message (apply_keystream ks) (pm_dec p0) reads)) = (packets, incomplete, False)"
    using assms(6) by (simp add: pump_at_def ctr.concat_each_message)
  show ?thesis
    using at pieces_packets [OF assms(2) fr, of ks "pm_enc p0"] assms(3)
    by (auto simp: pump_at_def)
qed

lemma step_decreases:
  assumes "pumps ks W read send close p p'"
  shows "(p', p) \<in> measures [\<lambda>p. left (pm_source p), pump_weight, pump_parts]"
proof -
  have step: "pump_step ks W read send close p = Some p'" "pm_phase p \<noteq> Ended"
    using assms by (simp_all add: pumps_def)
  show ?thesis
  proof (cases "pm_phase p")
    case Reading
    then show ?thesis
      using step(1) read_left [of "pm_source p"] read_left_None [of "pm_source p"]
      by (fastforce simp: pump_step_def pump_weight_def split: option.splits prod.splits)
  next
    case (Sending ps n)
    then show ?thesis
      using step(1) by (cases ps) (auto simp: pump_step_def pump_weight_def pump_parts_def split: option.splits)
  next
    case (Flushing ps)
    then show ?thesis
      using step(1) by (cases ps) (auto simp: pump_step_def pump_weight_def pump_parts_def split: option.splits)
  qed (simp add: step(2))
qed

lemma ends:
  assumes "pump_inv ks W rest send holds p0 opening p" and "fresh (pm_splitter p0)" and "32 \<le> W"
  shows "\<exists>p'. (pumps ks W read send close)\<^sup>*\<^sup>* p p' \<and> pm_phase p' = Ended"
  using assms(1)
proof (induction p rule: wf_induct_rule [OF wf_measures [of "[\<lambda>p. left (pm_source p), pump_weight, pump_parts]"]])
  case (1 p)
  show ?case
  proof (cases "pm_phase p = Ended")
    case False
    then obtain q where q: "pumps ks W read send close p q"
      using step_returns [OF 1(2) assms(2,3)] by (auto simp: pumps_def)
    obtain p' where "(pumps ks W read send close)\<^sup>*\<^sup>* q p'" "pm_phase p' = Ended"
      using 1(1) [OF step_decreases [OF q] step_inv [OF 1(2) q]] by blast
    with q show ?thesis by (meson converse_rtranclp_into_rtranclp)
  qed auto
qed

end

section \<open>The two directions\<close>

datatype ClosedBy = Client_closed | Upstream_closed

fun closed_by_str :: "ClosedBy \<Rightarrow> string" where
  "closed_by_str Client_closed = ''client''"
| "closed_by_str Upstream_closed = ''upstream''"

text \<open>
  \<open>br_bytes_up\<close> is the total that the counter of the upload leaves behind when it is dropped,
  at the end of the upload task or when it is aborted.
\<close>

record ('r, 's, 'q, 't) bridge =
  br_up :: "('r, 's) pump"
  br_down :: "('q, 't) pump"
  br_bytes_up :: u64
  br_closed :: "ClosedBy option"

definition start_bridge :: "('r, 's) pump \<Rightarrow> ('q, 't) pump \<Rightarrow> ('r, 's, 'q, 't) bridge" where
  "start_bridge up down = \<lparr>br_up = up, br_down = down, br_bytes_up = 0, br_closed = None\<rparr>"

text \<open>
  The upload is a task of its own and the download is polled beside it: their steps interleave
  in every order until \<open>join_bridge\<close> sees that one of them has ended, which drops the other.
\<close>

inductive bridge_step ::
    "(('r, 's) pump \<Rightarrow> ('r, 's) pump \<Rightarrow> bool) \<Rightarrow> (('q, 't) pump \<Rightarrow> ('q, 't) pump \<Rightarrow> bool) \<Rightarrow>
     ('r, 's, 'q, 't) bridge \<Rightarrow> ('r, 's, 'q, 't) bridge \<Rightarrow> bool" for up down where
  uploads: "br_closed b = None \<Longrightarrow> up (br_up b) p \<Longrightarrow>
    bridge_step up down b
      (b\<lparr>br_up := p, br_bytes_up := (if pm_phase p = Ended then pm_bytes p else br_bytes_up b)\<rparr>)"
| downloads: "br_closed b = None \<Longrightarrow> down (br_down b) p \<Longrightarrow> bridge_step up down b (b\<lparr>br_down := p\<rparr>)"
| upload_first: "br_closed b = None \<Longrightarrow> pm_phase (br_up b) = Ended \<Longrightarrow>
    bridge_step up down b (b\<lparr>br_closed := Some Client_closed\<rparr>)"
| download_first: "br_closed b = None \<Longrightarrow> pm_phase (br_down b) = Ended \<Longrightarrow>
    bridge_step up down b (b\<lparr>br_bytes_up := pm_bytes (br_up b), br_closed := Some Upstream_closed\<rparr>)"

definition session_over :: "('r, 's, 'q, 't) bridge \<Rightarrow> bool" where
  "session_over b \<longleftrightarrow> br_closed b \<noteq> None"

text \<open>Both directions are as they should be, and the books agree with who ended the session.\<close>

definition bridge_inv ::
    "nat \<Rightarrow> bool \<Rightarrow> (('r, 's) pump \<Rightarrow> bool) \<Rightarrow> (('q, 't) pump \<Rightarrow> bool) \<Rightarrow> ('r, 's, 'q, 't) bridge \<Rightarrow> bool" where
  "bridge_inv W ready inv_up inv_down b \<longleftrightarrow>
     32 \<le> W \<and> ready \<and> inv_up (br_up b) \<and> inv_down (br_down b) \<and>
     (pm_phase (br_up b) = Ended \<longrightarrow> br_bytes_up b = pm_bytes (br_up b)) \<and>
     (br_closed b = Some Client_closed \<longrightarrow> pm_phase (br_up b) = Ended) \<and>
     (br_closed b = Some Upstream_closed \<longrightarrow>
        pm_phase (br_down b) = Ended \<and> br_bytes_up b = pm_bytes (br_up b))"

locale bridge_system =
  up: pump read\<^sub>u rest\<^sub>u left\<^sub>u send\<^sub>u close\<^sub>u holds\<^sub>u +
  down: pump read\<^sub>d rest\<^sub>d left\<^sub>d send\<^sub>d close\<^sub>d holds\<^sub>d
  for read\<^sub>u :: "'r \<Rightarrow> bytes option \<times> 'r" and rest\<^sub>u left\<^sub>u
    and send\<^sub>u :: "bytes \<Rightarrow> 's \<Rightarrow> 's option" and close\<^sub>u holds\<^sub>u
    and read\<^sub>d :: "'q \<Rightarrow> bytes option \<times> 'q" and rest\<^sub>d left\<^sub>d
    and send\<^sub>d :: "bytes \<Rightarrow> 't \<Rightarrow> 't option" and close\<^sub>d holds\<^sub>d +
  fixes ks :: keystream and W :: nat
    and p\<^sub>u :: "('r, 's) pump" and p\<^sub>d :: "('q, 't) pump"
    and lead :: "bytes list"
begin

abbreviation step :: "('r, 's, 'q, 't) bridge \<Rightarrow> ('r, 's, 'q, 't) bridge \<Rightarrow> bool" where
  "step \<equiv> bridge_step (pumps ks W read\<^sub>u send\<^sub>u close\<^sub>u) (pumps ks W read\<^sub>d send\<^sub>d close\<^sub>d)"

abbreviation inv :: "('r, 's, 'q, 't) bridge \<Rightarrow> bool" where
  "inv \<equiv> bridge_inv W (fresh (pm_splitter p\<^sub>u) \<and> fresh (pm_splitter p\<^sub>d))
     (pump_inv ks W rest\<^sub>u send\<^sub>u holds\<^sub>u p\<^sub>u lead) (pump_inv ks W rest\<^sub>d send\<^sub>d holds\<^sub>d p\<^sub>d [])"

lemma step_keeps:
  assumes inv: "inv b" and step: "step b b'"
  shows "inv b'"
  using step
proof cases
  case (uploads p)
  have "pump_inv ks W rest\<^sub>u send\<^sub>u holds\<^sub>u p\<^sub>u lead p"
    using up.step_inv [OF _ uploads(3)] inv by (simp add: bridge_inv_def)
  with uploads inv show ?thesis by (simp add: bridge_inv_def)
next
  case (downloads p)
  have "pump_inv ks W rest\<^sub>d send\<^sub>d holds\<^sub>d p\<^sub>d [] p"
    using down.step_inv [OF _ downloads(3)] inv by (simp add: bridge_inv_def)
  with downloads inv show ?thesis by (simp add: bridge_inv_def)
qed (use inv in \<open>auto simp: bridge_inv_def\<close>)

lemma steps_decrease:
  "step b b' \<Longrightarrow> (b', b) \<in> measures [\<lambda>b. if br_closed b = None then 1 else 0,
     \<lambda>b. left\<^sub>u (pm_source (br_up b)), \<lambda>b. pump_weight (br_up b), \<lambda>b. pump_parts (br_up b),
     \<lambda>b. left\<^sub>d (pm_source (br_down b)), \<lambda>b. pump_weight (br_down b), \<lambda>b. pump_parts (br_down b)]"
  by (auto elim!: bridge_step.cases dest!: up.step_decreases down.step_decreases)

lemma can_step:
  assumes "inv b" and "\<not> session_over b"
  shows "\<exists>b'. step b b'"
proof (cases "pm_phase (br_up b) = Ended")
  case True
  then show ?thesis using assms(2) bridge_step.upload_first by (auto simp: session_over_def)
next
  case False
  then obtain p where "pumps ks W read\<^sub>u send\<^sub>u close\<^sub>u (br_up b) p"
    using up.step_returns [of ks W p\<^sub>u lead "br_up b"] assms(1) by (auto simp: bridge_inv_def pumps_def)
  then show ?thesis
    using assms(2) bridge_step.uploads [of b] by (auto simp: session_over_def)
qed

end

sublocale bridge_system \<subseteq> terminating_system step inv session_over
proof unfold_locales
  show "wfP (\<lambda>b' b. inv b \<and> step b b')"
    unfolding wfp_def by (rule wf_subset [OF wf_measures]) (use steps_decrease in blast)
qed (fact step_keeps, fact can_step)

section \<open>The bridges\<close>

text \<open>What the rest of the network does: the messages to come and the sends that succeed.\<close>

record ws_stream =
  st_messages :: "WsMessage list"
  st_takes :: "nat \<Rightarrow> bool"

record WsBridgeParams =
  wb_ws :: ws_stream
  wb_framing :: WsFraming
  wb_relay_init :: bytes
  wb_ciphers :: ConnectionCiphers
  wb_proto :: ProtoTag

text \<open>The client: how it is framed, what was written to it already, and how much it will take.\<close>

record client =
  cl_reader :: ClientReader
  cl_writer :: ClientWriter
  cl_out :: bytes
  cl_accepts :: "nat option"

definition client_send :: "client \<Rightarrow> bytes \<Rightarrow> bytes \<Rightarrow> bytes option" where
  "client_send c = client_write_all (cl_writer c) (tcp_writer (cl_accepts c))"

type_synonym ws_bridge = "(ClientReader, ws_sink, WsMessage list, bytes) bridge"
type_synonym tcp_bridge = "(ClientReader, bytes, tcp_reader, bytes) bridge"

definition ws_upload :: "WsBridgeParams \<Rightarrow> client \<Rightarrow> (ClientReader, ws_sink) pump" where
  "ws_upload params c =
     start_pump (cl_reader c) (clt_dec (wb_ciphers params)) (tg_enc (wb_ciphers params))
       (if wb_framing params = Packets then Some (new_splitter (wb_proto params)) else None)
       \<lparr>wk_sent = [], wk_closed = False\<rparr> [wb_relay_init params]"

definition ws_download :: "WsBridgeParams \<Rightarrow> client \<Rightarrow> (WsMessage list, bytes) pump" where
  "ws_download params c =
     start_pump (st_messages (wb_ws params)) (tg_dec (wb_ciphers params)) (clt_enc (wb_ciphers params))
       None (cl_out c) []"

definition bridge_ws :: "keystream \<Rightarrow> nat \<Rightarrow> WsBridgeParams \<Rightarrow> client \<Rightarrow> ws_bridge \<Rightarrow> ws_bridge \<Rightarrow> bool" where
  "bridge_ws ks W params c =
     bridge_step (pumps ks W client_source (ws_send (st_takes (wb_ws params))) ws_close)
       (pumps ks W ws_next (client_send c) id)"

text \<open>A TCP connection to an upstream proxy or to Telegram, with what was written to it already.\<close>

record tcp_peer =
  tp_reader :: tcp_reader
  tp_out :: bytes
  tp_accepts :: "nat option"

record RelayParams =
  rp_remote :: tcp_peer
  rp_ciphers :: ConnectionCiphers
  rp_faketls :: bool

definition relay_upload :: "RelayParams \<Rightarrow> client \<Rightarrow> (ClientReader, bytes) pump" where
  "relay_upload params c =
     start_pump (cl_reader c) (clt_dec (rp_ciphers params)) (tg_enc (rp_ciphers params)) None
       (tp_out (rp_remote params)) []"

definition relay_download :: "RelayParams \<Rightarrow> client \<Rightarrow> (tcp_reader, bytes) pump" where
  "relay_download params c =
     start_pump (tp_reader (rp_remote params)) (tg_dec (rp_ciphers params)) (clt_enc (rp_ciphers params))
       None (cl_out c) []"

definition bridge_relay :: "keystream \<Rightarrow> nat \<Rightarrow> RelayParams \<Rightarrow> client \<Rightarrow> tcp_bridge \<Rightarrow> tcp_bridge \<Rightarrow> bool" where
  "bridge_relay ks W params c =
     bridge_step
       (pumps ks W client_source
          (remote_write (rp_faketls params) (tcp_writer (tp_accepts (rp_remote params)))) id)
       (pumps ks W (remote_read (rp_faketls params)) (client_send c) id)"

text \<open>
  The TCP fallback connects first and sends the relay init before its loops start, which are
  those of an upstream proxy without FakeTLS.
\<close>

definition bridge_tcp_params ::
    "'a net \<Rightarrow> str \<Rightarrow> nat \<Rightarrow> bytes \<Rightarrow> ConnectionCiphers \<Rightarrow> 'a ws_state_scheme \<Rightarrow>
     RelayParams option \<times> 'a ws_state_scheme" where
  "bridge_tcp_params env dst connect_timeout relay_init ciphers s =
     (let (ans, s) = dial_net env (TcpDial dst 443 connect_timeout) s
      in case na_tcp ans of
           TcpOk \<Rightarrow>
             (case tcp_writer (na_accepts ans) relay_init [] of
                None \<Rightarrow> (None, s)
              | Some out \<Rightarrow>
                  (Some \<lparr>rp_remote = \<lparr>tp_reader = [na_reply ans], tp_out = out, tp_accepts = na_accepts ans\<rparr>,
                         rp_ciphers = ciphers, rp_faketls = False\<rparr>, s))
         | _ \<Rightarrow> (None, s))"

definition bridge_tcp :: "keystream \<Rightarrow> nat \<Rightarrow> RelayParams \<Rightarrow> client \<Rightarrow> tcp_bridge \<Rightarrow> tcp_bridge \<Rightarrow> bool" where
  "bridge_tcp ks W params c =
     bridge_step (pumps ks W client_source (tcp_writer (tp_accepts (rp_remote params))) id)
       (pumps ks W (\<lambda>r. nonempty (tcp_read RELAY_BUF_SIZE r)) (client_send c) id)"

lemma bridge_tcp_relay: "\<not> rp_faketls params \<Longrightarrow> bridge_tcp ks W params c = bridge_relay ks W params c"
proof -
  assume "\<not> rp_faketls params"
  moreover have "remote_write False w = w" for w :: "bytes writer" by (simp add: remote_write_def fun_eq_iff)
  moreover have "remote_read False = (\<lambda>r. nonempty (tcp_read RELAY_BUF_SIZE r))"
    by (simp add: remote_read_def fun_eq_iff)
  ultimately show ?thesis by (simp add: bridge_tcp_def bridge_relay_def)
qed

lemma client_send_remote:
  "client_send c = remote_write (cl_writer c = CwFakeTls) (tcp_writer (cl_accepts c))"
  by (cases "cl_writer c")
    (auto simp: client_send_def client_write_all_def remote_write_def fun_eq_iff split: sum.splits)

interpretation client_out: piece_sink "client_send c" id "tcp_carries (cl_writer c = CwFakeTls) (cl_out c)"
  for c
  unfolding client_send_remote by unfold_locales

interpretation ws_br: bridge_system client_source client_rest client_left
    "ws_send takes" ws_close "\<lambda>s ps. wk_sent s = ps"
    ws_next ws_rest length "client_send c" id "tcp_carries (cl_writer c = CwFakeTls) (cl_out c)"
    ks W p\<^sub>u p\<^sub>d lead
  for takes c ks W p\<^sub>u p\<^sub>d lead
  by unfold_locales

interpretation tcp_br: bridge_system client_source client_rest client_left
    "remote_write faketls (tcp_writer accepts)" id "tcp_carries faketls before"
    "remote_read faketls" "remote_rest faketls" "remote_left faketls"
    "client_send c" id "tcp_carries (cl_writer c = CwFakeTls) (cl_out c)"
    ks W p\<^sub>u p\<^sub>d lead
  for faketls accepts before c ks W p\<^sub>u p\<^sub>d lead
  by unfold_locales

section \<open>Properties\<close>

text \<open>One stream, decrypted with one cipher and encrypted with another.\<close>

definition recrypt :: "keystream \<Rightarrow> AesCtr256 \<Rightarrow> AesCtr256 \<Rightarrow> bytes \<Rightarrow> bytes" where
  "recrypt ks dec enc bs = fst (apply_keystream ks enc (fst (apply_keystream ks dec bs)))"

lemma start_pump_fields [simp]:
  "pm_source (start_pump r d e sp sink lead) = r" "pm_dec (start_pump r d e sp sink lead) = d"
  "pm_enc (start_pump r d e sp sink lead) = e" "pm_splitter (start_pump r d e sp sink lead) = sp"
  "pm_sink (start_pump r d e sp sink lead) = sink" "pm_phase (start_pump r d e sp sink lead) = Sending lead 0"
  by (simp_all add: start_pump_def)

lemma fresh_new [simp]: "fresh None" "fresh (Some (new_splitter proto))"
  by (simp_all add: fresh_def new_splitter_def)

lemma never_refuses_ws: "\<forall>i. takes i \<Longrightarrow> never_refuses (ws_send takes)"
  by (simp add: never_refuses_def ws_send_def)

lemma never_refuses_tcp: "never_refuses (remote_write faketls (tcp_writer None))"
  by (simp add: never_refuses_def remote_write_def write_appdata_stream) (simp add: vec_writer_def)

lemma never_refuses_client: "cl_accepts c = None \<Longrightarrow> never_refuses (client_send c)"
  unfolding client_send_remote using never_refuses_tcp by simp

lemma fresh_upload [simp]: "fresh (pm_splitter (ws_upload params c))"
  by (simp add: ws_upload_def)

lemma ws_bridge_inv:
  assumes "32 \<le> W"
    and "(bridge_ws ks W params c)\<^sup>*\<^sup>* (start_bridge (ws_upload params c) (ws_download params c)) b"
  shows "bridge_inv W (fresh (pm_splitter (ws_upload params c)) \<and> fresh (pm_splitter (ws_download params c)))
    (pump_inv ks W client_rest (ws_send (st_takes (wb_ws params))) (\<lambda>s ps. wk_sent s = ps)
       (ws_upload params c) [wb_relay_init params])
    (pump_inv ks W ws_rest (client_send c) (tcp_carries (cl_writer c = CwFakeTls) (cl_out c))
       (ws_download params c) []) b"
proof (rule ws_br.inv_reach [OF assms(2) [unfolded bridge_ws_def]])
  have "pump_inv ks W client_rest (ws_send (st_takes (wb_ws params))) (\<lambda>s ps. wk_sent s = ps)
      (ws_upload params c) [wb_relay_init params] (ws_upload params c)"
    unfolding ws_upload_def by (rule ws_br.up.start_inv) simp
  moreover have "pump_inv ks W ws_rest (client_send c) (tcp_carries (cl_writer c = CwFakeTls) (cl_out c))
      (ws_download params c) [] (ws_download params c)"
    unfolding ws_download_def by (rule ws_br.down.start_inv) (simp add: tcp_carries_def)
  ultimately show "bridge_inv W (fresh (pm_splitter (ws_upload params c)) \<and> fresh (pm_splitter (ws_download params c)))
    (pump_inv ks W client_rest (ws_send (st_takes (wb_ws params))) (\<lambda>s ps. wk_sent s = ps)
       (ws_upload params c) [wb_relay_init params])
    (pump_inv ks W ws_rest (client_send c) (tcp_carries (cl_writer c = CwFakeTls) (cl_out c))
       (ws_download params c) []) (start_bridge (ws_upload params c) (ws_download params c))"
    using assms(1) by (simp add: bridge_inv_def start_bridge_def ws_upload_def ws_download_def)
qed

lemma relay_bridge_inv:
  assumes "32 \<le> W"
    and "(bridge_relay ks W params c)\<^sup>*\<^sup>* (start_bridge (relay_upload params c) (relay_download params c)) b"
  shows "bridge_inv W (fresh (pm_splitter (relay_upload params c)) \<and> fresh (pm_splitter (relay_download params c)))
    (pump_inv ks W client_rest (remote_write (rp_faketls params) (tcp_writer (tp_accepts (rp_remote params))))
       (tcp_carries (rp_faketls params) (tp_out (rp_remote params))) (relay_upload params c) [])
    (pump_inv ks W (remote_rest (rp_faketls params)) (client_send c)
       (tcp_carries (cl_writer c = CwFakeTls) (cl_out c)) (relay_download params c) []) b"
proof (rule tcp_br.inv_reach [OF assms(2) [unfolded bridge_relay_def]])
  have "pump_inv ks W client_rest (remote_write (rp_faketls params) (tcp_writer (tp_accepts (rp_remote params))))
      (tcp_carries (rp_faketls params) (tp_out (rp_remote params))) (relay_upload params c) [] (relay_upload params c)"
    unfolding relay_upload_def by (rule tcp_br.up.start_inv) (simp add: tcp_carries_def)
  moreover have "pump_inv ks W (remote_rest (rp_faketls params)) (client_send c)
      (tcp_carries (cl_writer c = CwFakeTls) (cl_out c)) (relay_download params c) [] (relay_download params c)"
    unfolding relay_download_def by (rule tcp_br.down.start_inv) (simp add: tcp_carries_def)
  ultimately show "bridge_inv W (fresh (pm_splitter (relay_upload params c)) \<and> fresh (pm_splitter (relay_download params c)))
    (pump_inv ks W client_rest (remote_write (rp_faketls params) (tcp_writer (tp_accepts (rp_remote params))))
       (tcp_carries (rp_faketls params) (tp_out (rp_remote params))) (relay_upload params c) [])
    (pump_inv ks W (remote_rest (rp_faketls params)) (client_send c)
       (tcp_carries (cl_writer c = CwFakeTls) (cl_out c)) (relay_download params c) [])
    (start_bridge (relay_upload params c) (relay_download params c))"
    using assms(1) by (simp add: bridge_inv_def start_bridge_def relay_upload_def relay_download_def)
qed

text \<open>What a WebSocket bridge should carry in each direction.\<close>

definition ws_uploaded :: "keystream \<Rightarrow> WsBridgeParams \<Rightarrow> client \<Rightarrow> bytes" where
  "ws_uploaded ks params c =
     recrypt ks (clt_dec (wb_ciphers params)) (tg_enc (wb_ciphers params))
       (client_stream CLIENT_READ_BUF_SIZE (cl_reader c))"

definition ws_downloaded :: "keystream \<Rightarrow> WsBridgeParams \<Rightarrow> bytes" where
  "ws_downloaded ks params =
     recrypt ks (tg_dec (wb_ciphers params)) (clt_enc (wb_ciphers params)) (ws_rest (st_messages (wb_ws params)))"

definition relay_uploaded :: "keystream \<Rightarrow> RelayParams \<Rightarrow> client \<Rightarrow> bytes" where
  "relay_uploaded ks params c =
     recrypt ks (clt_dec (rp_ciphers params)) (tg_enc (rp_ciphers params))
       (client_stream CLIENT_READ_BUF_SIZE (cl_reader c))"

definition relay_downloaded :: "keystream \<Rightarrow> RelayParams \<Rightarrow> bytes" where
  "relay_downloaded ks params =
     recrypt ks (tg_dec (rp_ciphers params)) (clt_enc (rp_ciphers params))
       (remote_rest (rp_faketls params) (tp_reader (rp_remote params)))"

text \<open>The client got these messages after what had been written to it before.\<close>

definition client_got :: "client \<Rightarrow> bytes \<Rightarrow> bytes list \<Rightarrow> bool" where
  "client_got c out ms \<longleftrightarrow> tcp_carries (cl_writer c = CwFakeTls) (cl_out c) out ms"

lemma ws_bridge_streams:
  assumes "32 \<le> W"
    and "(bridge_ws ks W params c)\<^sup>*\<^sup>* (start_bridge (ws_upload params c) (ws_download params c)) b"
  shows "prefix (concat (wk_sent (pm_sink (br_up b)))) (wb_relay_init params @ ws_uploaded ks params c) \<and>
    (\<exists>ms. client_got c (pm_sink (br_down b)) ms \<and> prefix (concat ms) (ws_downloaded ks params)) \<and>
    (br_closed b = Some Client_closed \<and> (\<forall>i. st_takes (wb_ws params) i) \<longrightarrow>
       concat (wk_sent (pm_sink (br_up b))) = wb_relay_init params @ ws_uploaded ks params c \<and>
       br_bytes_up b = word_of_nat (length (client_stream CLIENT_READ_BUF_SIZE (cl_reader c)))) \<and>
    (br_closed b = Some Upstream_closed \<and> cl_accepts c = None \<longrightarrow>
       (\<exists>ms. client_got c (pm_sink (br_down b)) ms \<and> concat ms = ws_downloaded ks params))"
  (is "?up \<and> ?down \<and> (?client \<longrightarrow> ?all_up) \<and> (?upstream \<longrightarrow> ?all_down)")
proof -
  note inv = ws_bridge_inv [OF assms, unfolded bridge_inv_def]
  note defs = ws_uploaded_def ws_downloaded_def recrypt_def client_rest_def client_got_def
    ws_upload_def ws_download_def
  have ready: "fresh (pm_splitter (ws_upload params c))" "fresh (pm_splitter (ws_download params c))"
    using inv by auto
  have ?up
    using ws_br.up.sent_stream [OF _ ready(1) assms(1)] inv by (fastforce simp: defs)
  moreover have ?down
    using ws_br.down.sent_stream [OF _ ready(2) assms(1)] inv by (fastforce simp: defs)
  moreover have ?all_up if ?client
    using ws_br.up.ended_stream [OF _ ready(1) assms(1)] inv that never_refuses_ws by (fastforce simp: defs)
  moreover have ?all_down if ?upstream
    using ws_br.down.ended_stream [OF _ ready(2) assms(1)] inv that never_refuses_client by (fastforce simp: defs)
  ultimately show ?thesis by blast
qed

text \<open>
  C3: a WebSocket bridge is transparent, whatever the interleaving of its two directions, the cuts
  of the reads and the sends that fail. At every moment what Telegram has got is a prefix of the
  relay init followed by the client's data, decrypted and encrypted again as one stream; what the
  client has got is a prefix of Telegram's data, framed as the client expects it. If the session
  ends on the client's side and no send is refused, Telegram has got all of it and the logged count
  is its length; if it ends on the other side and the client takes everything, the client has got
  all of it.
\<close>

theorem bridge_ws_transparent:
  assumes "32 \<le> W"
    and "(bridge_ws ks W params c)\<^sup>*\<^sup>* (start_bridge (ws_upload params c) (ws_download params c)) b"
  shows "prefix (concat (wk_sent (pm_sink (br_up b)))) (wb_relay_init params @ ws_uploaded ks params c) \<and>
    (\<exists>ms. client_got c (pm_sink (br_down b)) ms \<and> prefix (concat ms) (ws_downloaded ks params)) \<and>
    (br_closed b = Some Client_closed \<and> (\<forall>i. st_takes (wb_ws params) i) \<longrightarrow>
       concat (wk_sent (pm_sink (br_up b))) = wb_relay_init params @ ws_uploaded ks params c \<and>
       br_bytes_up b = word_of_nat (length (client_stream CLIENT_READ_BUF_SIZE (cl_reader c)))) \<and>
    (br_closed b = Some Upstream_closed \<and> cl_accepts c = None \<longrightarrow>
       (\<exists>ms. client_got c (pm_sink (br_down b)) ms \<and> concat ms = ws_downloaded ks params))"
  by (rule ws_bridge_streams [OF assms])

section \<open>Sample sessions\<close>

text \<open>A run in which the upload takes all the steps.\<close>

lemma upload_reach:
  "up\<^sup>*\<^sup>* p p' \<Longrightarrow> \<exists>n. (bridge_step up down)\<^sup>*\<^sup>* (start_bridge p q) ((start_bridge p' q)\<lparr>br_bytes_up := n\<rparr>)"
proof (induction rule: rtranclp_induct)
  case base
  have "start_bridge p q = (start_bridge p q)\<lparr>br_bytes_up := 0\<rparr>" by (simp add: start_bridge_def)
  then show ?case by (metis rtranclp.rtrancl_refl)
next
  case (step p1 p2)
  then obtain n where "(bridge_step up down)\<^sup>*\<^sup>* (start_bridge p q) ((start_bridge p1 q)\<lparr>br_bytes_up := n\<rparr>)"
    by blast
  moreover have "bridge_step up down ((start_bridge p1 q)\<lparr>br_bytes_up := n\<rparr>)
      ((start_bridge p2 q)\<lparr>br_bytes_up := if pm_phase p2 = Ended then pm_bytes p2 else n\<rparr>)"
    using bridge_step.uploads [of "(start_bridge p1 q)\<lparr>br_bytes_up := n\<rparr>" up p2 down] step(2)
    by (auto simp: start_bridge_def)
  ultimately show ?case by (meson rtranclp.rtrancl_into_rtrancl)
qed

lemma upload_session:
  assumes "up\<^sup>*\<^sup>* p p'" and "pm_phase p' = Ended"
  shows "\<exists>b. (bridge_step up down)\<^sup>*\<^sup>* (start_bridge p q) b \<and> br_closed b = Some Client_closed"
proof -
  obtain m where m: "(bridge_step up down)\<^sup>*\<^sup>* (start_bridge p q) ((start_bridge p' q)\<lparr>br_bytes_up := m\<rparr>)"
    using upload_reach [OF assms(1)] by blast
  have "bridge_step up down ((start_bridge p' q)\<lparr>br_bytes_up := m\<rparr>)
      ((start_bridge p' q)\<lparr>br_bytes_up := m, br_closed := Some Client_closed\<rparr>)"
    using bridge_step.upload_first [of "(start_bridge p' q)\<lparr>br_bytes_up := m\<rparr>"] assms(2)
    by (simp add: start_bridge_def)
  with m show ?thesis by (intro exI conjI, rule rtranclp.rtrancl_into_rtrancl) auto
qed

lemma ws_upload_session:
  assumes "32 \<le> W"
  obtains b where
    "(bridge_ws ks W params c)\<^sup>*\<^sup>* (start_bridge (ws_upload params c) (ws_download params c)) b"
    and "br_closed b = Some Client_closed"
proof -
  have "pump_inv ks W client_rest (ws_send (st_takes (wb_ws params))) (\<lambda>s ps. wk_sent s = ps)
      (ws_upload params c) [wb_relay_init params] (ws_upload params c)"
    unfolding ws_upload_def by (rule ws_br.up.start_inv) simp
  from ws_br.up.ends [OF this _ assms] obtain p' where
    p': "(pumps ks W client_source (ws_send (st_takes (wb_ws params))) ws_close)\<^sup>*\<^sup>* (ws_upload params c) p'"
    "pm_phase p' = Ended" by auto
  show thesis
    using that upload_session [OF p'] unfolding bridge_ws_def by blast
qed

definition sample_client :: client where
  "sample_client = \<lparr>cl_reader = CrPlain [[5, 6], [7]], cl_writer = CwPlain, cl_out = [], cl_accepts = None\<rparr>"

definition sample_packet_client :: client where
  "sample_packet_client = sample_client\<lparr>cl_reader :=
     CrPlain [fst (apply_keystream sample_ks sample_cipher [1, 2, 3, 4, 5, 2, 6])]\<rparr>"

definition sample_ciphers :: ConnectionCiphers where
  "sample_ciphers = \<lparr>clt_dec = sample_cipher, clt_enc = sample_cipher, tg_enc = sample_cipher, tg_dec = sample_cipher\<rparr>"

definition sample_ws_params :: "WsFraming \<Rightarrow> WsBridgeParams" where
  "sample_ws_params framing =
     \<lparr>wb_ws = \<lparr>st_messages = [Binary [1], Ping [], Binary [2]], st_takes = (\<lambda>_. True)\<rparr>,
      wb_framing = framing, wb_relay_init = [9, 9], wb_ciphers = sample_ciphers, wb_proto = Abridged\<rparr>"

lemmas sample_defs = sample_client_def sample_ciphers_def sample_ws_params_def sample_cipher_def sample_ks_def

theorem bridge_ws_transparent_witness:
  "\<exists>b. (bridge_ws sample_ks 64 (sample_ws_params Tunnel) sample_client)\<^sup>*\<^sup>*
      (start_bridge (ws_upload (sample_ws_params Tunnel) sample_client)
         (ws_download (sample_ws_params Tunnel) sample_client)) b \<and>
    br_closed b = Some Client_closed \<and>
    concat (wk_sent (pm_sink (br_up b))) = [9, 9, 5, 6, 7] \<and> br_bytes_up b = 3"
proof -
  let ?params = "sample_ws_params Tunnel"
  obtain b where b: "(bridge_ws sample_ks 64 ?params sample_client)\<^sup>*\<^sup>*
      (start_bridge (ws_upload ?params sample_client) (ws_download ?params sample_client)) b"
    "br_closed b = Some Client_closed"
    by (rule ws_upload_session [of 64]) auto
  have "wb_relay_init ?params @ ws_uploaded sample_ks ?params sample_client = [9, 9, 5, 6, 7]"
    "word_of_nat (length (client_stream CLIENT_READ_BUF_SIZE (cl_reader sample_client))) = (3 :: u64)"
    by (simp_all add: sample_defs ws_uploaded_def recrypt_def apply_keystream_def)
  then show ?thesis
    using bridge_ws_transparent [OF _ b(1)] b by (auto simp: sample_ws_params_def)
qed

lemma ws_packets_sent:
  assumes "32 \<le> W" and "wb_framing params = Packets"
    and "(bridge_ws ks W params c)\<^sup>*\<^sup>* (start_bridge (ws_upload params c) (ws_download params c)) b"
    and "frames (wb_proto params)
           (fst (apply_keystream ks (clt_dec (wb_ciphers params))
                   (client_stream CLIENT_READ_BUF_SIZE (cl_reader c)))) = (packets, incomplete, False)"
  defines "ps \<equiv> packets @ (if incomplete = [] then [] else [incomplete])"
    and "sent \<equiv> wk_sent (pm_sink (br_up b))"
  shows "prefix (each_message (apply_keystream ks) (tg_enc (wb_ciphers params)) (drop 1 sent)) ps"
    and "prefix (take 1 sent) [wb_relay_init params]"
    and "br_closed b = Some Client_closed \<Longrightarrow> \<forall>i. st_takes (wb_ws params) i \<Longrightarrow>
      \<exists>messages. sent = wb_relay_init params # messages \<and>
        each_message (apply_keystream ks) (tg_enc (wb_ciphers params)) messages = ps"
proof -
  note inv = ws_bridge_inv [OF assms(1,3), unfolded bridge_inv_def]
  then have up: "pump_inv ks W client_rest (ws_send (st_takes (wb_ws params))) (\<lambda>s ps. wk_sent s = ps)
       (ws_upload params c) [wb_relay_init params] (br_up b)" by blast
  have sp: "pm_splitter (ws_upload params c) = Some (new_splitter (wb_proto params))"
    using assms(2) by (simp add: ws_upload_def)
  have fr: "frames (wb_proto params) (fst (apply_keystream ks (pm_dec (ws_upload params c))
      (client_rest (pm_source (ws_upload params c))))) = (packets, incomplete, False)"
    using assms(4) by (simp add: ws_upload_def client_rest_def)
  have enc: "pm_enc (ws_upload params c) = tg_enc (wb_ciphers params)" by (simp add: ws_upload_def)
  show "prefix (each_message (apply_keystream ks) (tg_enc (wb_ciphers params)) (drop 1 sent)) ps"
    "prefix (take 1 sent) [wb_relay_init params]"
    using ws_br.up.sent_packets [OF up assms(1) sp fr] enc by (auto simp: ps_def sent_def)
  assume over: "br_closed b = Some Client_closed" "\<forall>i. st_takes (wb_ws params) i"
  then have "pm_phase (br_up b) = Ended" using inv by blast
  then show "\<exists>messages. sent = wb_relay_init params # messages \<and>
      each_message (apply_keystream ks) (tg_enc (wb_ciphers params)) messages = ps"
    using ws_br.up.ended_packets [OF up assms(1) sp _ never_refuses_ws [OF over(2)] fr] enc
    unfolding ps_def sent_def by auto
qed

text \<open>
  C2: over a WebSocket to Telegram every message is one packet, under every interleaving and however the
  client's bytes are cut into reads. For a client whose plaintext is a sequence of packets and
  perhaps an incomplete one at the end, the messages after the relay init decrypt, one by one and in
  order, to these packets; if the session ends on the client's side and no send is refused, all of
  them were sent, the incomplete one last.
\<close>

theorem bridge_ws_packets:
  assumes "32 \<le> W" and "wb_framing params = Packets"
    and "(bridge_ws ks W params c)\<^sup>*\<^sup>* (start_bridge (ws_upload params c) (ws_download params c)) b"
    and "frames (wb_proto params)
           (fst (apply_keystream ks (clt_dec (wb_ciphers params))
                   (client_stream CLIENT_READ_BUF_SIZE (cl_reader c)))) = (packets, incomplete, False)"
  shows "wk_sent (pm_sink (br_up b)) = [] \<or>
    (\<exists>messages. wk_sent (pm_sink (br_up b)) = wb_relay_init params # messages \<and>
       prefix (each_message (apply_keystream ks) (tg_enc (wb_ciphers params)) messages)
         (packets @ (if incomplete = [] then [] else [incomplete])) \<and>
       (br_closed b = Some Client_closed \<and> (\<forall>i. st_takes (wb_ws params) i) \<longrightarrow>
          each_message (apply_keystream ks) (tg_enc (wb_ciphers params)) messages =
            packets @ (if incomplete = [] then [] else [incomplete])))"
proof (cases "wk_sent (pm_sink (br_up b))")
  case (Cons m ms)
  then show ?thesis using ws_packets_sent [OF assms] by auto
qed simp

theorem bridge_ws_packets_witness:
  "\<exists>b messages. (bridge_ws sample_ks 64 (sample_ws_params Packets) sample_packet_client)\<^sup>*\<^sup>*
      (start_bridge (ws_upload (sample_ws_params Packets) sample_packet_client)
         (ws_download (sample_ws_params Packets) sample_packet_client)) b \<and>
    wk_sent (pm_sink (br_up b)) = [9, 9] # messages \<and>
    each_message (apply_keystream sample_ks) sample_cipher messages = [[1, 2, 3, 4, 5], [2, 6]]"
proof -
  let ?params = "sample_ws_params Packets"
  obtain b where b: "(bridge_ws sample_ks 64 ?params sample_packet_client)\<^sup>*\<^sup>*
      (start_bridge (ws_upload ?params sample_packet_client) (ws_download ?params sample_packet_client)) b"
    "br_closed b = Some Client_closed"
    by (rule ws_upload_session [of 64]) auto
  have "frames Abridged [1, 2, 3, 4, 5, 2, 6] = ([[1, 2, 3, 4, 5]], [2, 6], False)"
    by code_simp
  moreover have "fst (apply_keystream sample_ks sample_cipher [1, 2, 3, 4, 5, 2, 6]) \<noteq> []"
    by (simp add: apply_keystream_def)
  ultimately have fr: "frames (wb_proto ?params) (fst (apply_keystream sample_ks (clt_dec (wb_ciphers ?params))
      (client_stream CLIENT_READ_BUF_SIZE (cl_reader sample_packet_client)))) = ([[1, 2, 3, 4, 5]], [2, 6], False)"
    by (simp add: sample_packet_client_def sample_client_def sample_ws_params_def sample_ciphers_def
        ctr.ap_involution)
  have "wk_sent (pm_sink (br_up b)) \<noteq> []"
    using ws_packets_sent(3) [OF _ _ b(1) fr b(2)] by (auto simp: sample_ws_params_def)
  then show ?thesis
    using bridge_ws_packets [OF _ _ b(1) fr] b by (auto simp: sample_ws_params_def sample_ciphers_def)
qed

text \<open>
  C13: the bridges to an upstream proxy, with and without FakeTLS, and to Telegram over TCP are
  transparent in the same way: under every interleaving each side has got, in its own framing, a
  prefix of the other side's data, decrypted and encrypted again as one stream, and all of it when
  the session ends on the side the data comes from and nothing is refused.
\<close>

theorem bridge_relay_transparent:
  assumes "32 \<le> W"
    and "step = bridge_relay ks W params c \<or> step = bridge_tcp ks W params c \<and> \<not> rp_faketls params"
    and "step\<^sup>*\<^sup>* (start_bridge (relay_upload params c) (relay_download params c)) b"
  shows "(\<exists>ms. tcp_carries (rp_faketls params) (tp_out (rp_remote params)) (pm_sink (br_up b)) ms \<and>
            prefix (concat ms) (relay_uploaded ks params c) \<and>
            (br_closed b = Some Client_closed \<and> tp_accepts (rp_remote params) = None \<longrightarrow>
               concat ms = relay_uploaded ks params c \<and>
               br_bytes_up b = word_of_nat (length (client_stream CLIENT_READ_BUF_SIZE (cl_reader c))))) \<and>
    (\<exists>ms. client_got c (pm_sink (br_down b)) ms \<and> prefix (concat ms) (relay_downloaded ks params) \<and>
       (br_closed b = Some Upstream_closed \<and> cl_accepts c = None \<longrightarrow> concat ms = relay_downloaded ks params))"
  (is "?up \<and> ?down")
proof -
  have "step = bridge_relay ks W params c" using assms(2) bridge_tcp_relay by blast
  note inv = relay_bridge_inv [OF assms(1) assms(3) [unfolded this], unfolded bridge_inv_def]
  note defs = relay_uploaded_def relay_downloaded_def recrypt_def client_rest_def client_got_def
    relay_upload_def relay_download_def
  have ready: "fresh (pm_splitter (relay_upload params c))" "fresh (pm_splitter (relay_download params c))"
    using inv by auto
  have ?up
  proof (cases "br_closed b = Some Client_closed \<and> tp_accepts (rp_remote params) = None")
    case True
    then show ?thesis
      using tcp_br.up.ended_stream [OF _ ready(1) assms(1)] inv never_refuses_tcp by (fastforce simp: defs)
  next
    case False
    then show ?thesis
      using tcp_br.up.sent_stream [OF _ ready(1) assms(1)] inv by (fastforce simp: defs)
  qed
  moreover have ?down
  proof (cases "br_closed b = Some Upstream_closed \<and> cl_accepts c = None")
    case True
    then show ?thesis
      using tcp_br.down.ended_stream [OF _ ready(2) assms(1)] inv never_refuses_client by (fastforce simp: defs)
  next
    case False
    then show ?thesis
      using tcp_br.down.sent_stream [OF _ ready(2) assms(1)] inv by (fastforce simp: defs)
  qed
  ultimately show ?thesis by blast
qed

definition sample_relay :: RelayParams where
  "sample_relay =
     \<lparr>rp_remote = \<lparr>tp_reader = [appdata_stream [1, 2]], tp_out = [8], tp_accepts = None\<rparr>,
      rp_ciphers = sample_ciphers, rp_faketls = True\<rparr>"

lemma relay_upload_session:
  assumes "32 \<le> W"
  obtains b where
    "(bridge_relay ks W params c)\<^sup>*\<^sup>* (start_bridge (relay_upload params c) (relay_download params c)) b"
    and "br_closed b = Some Client_closed"
proof -
  have "pump_inv ks W client_rest (remote_write (rp_faketls params) (tcp_writer (tp_accepts (rp_remote params))))
      (tcp_carries (rp_faketls params) (tp_out (rp_remote params))) (relay_upload params c) [] (relay_upload params c)"
    unfolding relay_upload_def by (rule tcp_br.up.start_inv) (simp add: tcp_carries_def)
  from tcp_br.up.ends [OF this _ assms] obtain p' where
    p': "(pumps ks W client_source (remote_write (rp_faketls params) (tcp_writer (tp_accepts (rp_remote params)))) id)\<^sup>*\<^sup>*
      (relay_upload params c) p'" "pm_phase p' = Ended" by (auto simp: relay_upload_def)
  show thesis
    using that upload_session [OF p'] unfolding bridge_relay_def by blast
qed

theorem bridge_relay_transparent_witness:
  "\<exists>b ms. (bridge_relay sample_ks 64 sample_relay sample_client)\<^sup>*\<^sup>*
      (start_bridge (relay_upload sample_relay sample_client) (relay_download sample_relay sample_client)) b \<and>
    br_closed b = Some Client_closed \<and>
    pm_sink (br_up b) = [8] @ concat (map appdata_stream ms) \<and> concat ms = [5, 6, 7] \<and> br_bytes_up b = 3"
proof -
  obtain b where b: "(bridge_relay sample_ks 64 sample_relay sample_client)\<^sup>*\<^sup>*
      (start_bridge (relay_upload sample_relay sample_client) (relay_download sample_relay sample_client)) b"
    "br_closed b = Some Client_closed"
    by (rule relay_upload_session [of 64]) auto
  have "relay_uploaded sample_ks sample_relay sample_client = [5, 6, 7]"
    "word_of_nat (length (client_stream CLIENT_READ_BUF_SIZE (cl_reader sample_client))) = (3 :: u64)"
    by (simp_all add: sample_defs sample_relay_def relay_uploaded_def recrypt_def apply_keystream_def)
  then show ?thesis
    using bridge_relay_transparent [OF _ disjI1 [OF refl] b(1)] b
    by (fastforce simp: sample_relay_def tcp_carries_def)
qed



end
