(* ===== verification/Session.thy ===== *)
theory Session
  imports Bridge
begin

text \<open>
  One client connection from the first byte to the bridge, after \<open>handle_client_with_runtime\<close>,
  \<open>select_bridge\<close> and \<open>bridge_selected\<close> of \<^verbatim>\<open>src/proxy.rs\<close>: the inbound handshake, the
  relay init and the ciphers, the routing and the choice of the bridge.

  \<open>None\<close> is a task that panics or does not return; it does not happen for acceptable random
  bytes, as is shown below.
\<close>

text \<open>
  What happens outside: the client's bytes and how many it takes, whether its handshake arrives within the
  timeout, the random bytes, and the peers of the connections that routing may open.
\<close>

record session_env =
  se_reader :: tcp_reader
  se_accepts :: "nat option"
  se_timely :: bool
  se_hello_random :: rng
  se_init_random :: rng
  se_ws :: "nat \<Rightarrow> ws_stream"
  se_upstream_accepts :: "nat option"

datatype session =
    No_handshake
  | Drained
  | Unrouted
  | Bridge_ws WsBridgeParams client
  | Bridge_relay RelayParams client
  | Bridge_tcp RelayParams client
  | Tcp_failed

text \<open>The data centre index that the handshake carried, from its sign and magnitude; it wraps as in a release build.\<close>

definition client_dc_idx :: "HandshakeInfo \<Rightarrow> i16" where
  "client_dc_idx info = (if hs_is_media info then - ucast (hs_dc_id info) else ucast (hs_dc_id info))"

record BridgeDispatch =
  bd_relay_init :: bytes
  bd_ciphers :: ConnectionCiphers
  bd_proto :: ProtoTag
  bd_tcp_connect_timeout :: nat

definition bridge_selected ::
    "'a net \<Rightarrow> session_env \<Rightarrow> client \<Rightarrow> Upstream \<Rightarrow> BridgeDispatch \<Rightarrow> 'a ws_state_scheme \<Rightarrow>
     session \<times> 'a ws_state_scheme" where
  "bridge_selected net env c upstream params s =
     (case upstream of
        UpWs ws framing \<Rightarrow>
          (Bridge_ws \<lparr>wb_ws = se_ws env ws, wb_framing = framing, wb_relay_init = bd_relay_init params,
                      wb_ciphers = bd_ciphers params, wb_proto = bd_proto params\<rparr> c, s)
      | UpMtproto conn \<Rightarrow>
          (Bridge_relay
             \<lparr>rp_remote = \<lparr>tp_reader = [uc_reader conn], tp_out = uc_writer conn,
                           tp_accepts = se_upstream_accepts env\<rparr>,
              rp_ciphers = (bd_ciphers params)\<lparr>tg_enc := uc_enc conn, tg_dec := uc_dec conn\<rparr>,
              rp_faketls = uc_faketls conn\<rparr> c, s)
      | UpTcp dst \<Rightarrow>
          (case bridge_tcp_params net dst (bd_tcp_connect_timeout params) (bd_relay_init params)
                  (bd_ciphers params) s of
             (None, s) \<Rightarrow> (Tcp_failed, s)
           | (Some relay, s) \<Rightarrow> (Bridge_tcp relay c, s)))"

definition select_bridge ::
    "route_world \<Rightarrow> Route \<Rightarrow> str option \<Rightarrow> session_env \<Rightarrow> client \<Rightarrow> BridgeDispatch \<Rightarrow> route_state \<Rightarrow>
     (session \<times> route_state) option" where
  "select_bridge wd ro target_ip env c params s = do {
     (upstream, s) \<leftarrow> select_upstream wd ro target_ip s;
     Some (case upstream of
             None \<Rightarrow> (Unrouted, s)
           | Some upstream \<Rightarrow> bridge_selected (wd_net wd) env c upstream params s)
   }"

definition session_route :: "Config \<Rightarrow> Runtime \<Rightarrow> HandshakeInfo \<Rightarrow> Route" where
  "session_route config runtime info =
     \<lparr>ro_config = config, ro_runtime = runtime, ro_timeouts = timeouts_from_config config,
      ro_dc = unat (hs_dc_id info), ro_is_media = hs_is_media info, ro_dc_idx = client_dc_idx info,
      ro_proto = hs_proto info\<rparr>"

definition session_client :: "bytes option \<Rightarrow> session_env \<Rightarrow> ClientReader \<Rightarrow> bytes \<Rightarrow> client" where
  "session_client faketls_domain env reader out =
     \<lparr>cl_reader = reader, cl_writer = (if faketls_domain \<noteq> None then CwFakeTls else CwPlain),
      cl_out = out, cl_accepts = se_accepts env\<rparr>"

text \<open>Steps 3 to 6: everything after the handshake was parsed.\<close>

definition start_session ::
    "route_world \<Rightarrow> Config \<Rightarrow> Runtime \<Rightarrow> session_env \<Rightarrow> client \<Rightarrow> HandshakeInfo \<Rightarrow> bytes \<Rightarrow> route_state \<Rightarrow>
     (session \<times> route_state) option" where
  "start_session wd config runtime env c info secret s =
     (case generate_relay_init (wd_ks wd) (se_init_random env) (hs_proto info) (client_dc_idx info) of
        Some (Ret (relay_init, g)) \<Rightarrow>
          (case build_connection_ciphers (wd_sha wd) (wd_ks wd) (hs_prekey_and_iv info) secret relay_init of
             Ret ciphers \<Rightarrow>
               (let ro = session_route config runtime info
                in select_bridge wd ro (dc_target_ip config (unat (hs_dc_id info))) env c
                     \<lparr>bd_relay_init = relay_init, bd_ciphers = ciphers, bd_proto = hs_proto info,
                      bd_tcp_connect_timeout = to_tcp_fallback (ro_timeouts ro)\<rparr> s)
           | Panic \<Rightarrow> None)
      | _ \<Rightarrow> None)"

definition handle_client_with_runtime ::
    "hex_decoder \<Rightarrow> route_world \<Rightarrow> Config \<Rightarrow> Runtime \<Rightarrow> session_env \<Rightarrow> route_state \<Rightarrow>
     (session \<times> route_state) option" where
  "handle_client_with_runtime hexd wd config runtime env s =
     (case normalized_secrets hexd config of
        Panic \<Rightarrow> None
      | Ret secrets \<Rightarrow>
          (let inbound_faketls_domain = listen_faketls_domain hexd config
           in if \<not> se_timely env then Some (No_handshake, s)
              else
                (case read_inbound_handshake (wd_mac wd) (se_hello_random env) (tcp_writer (se_accepts env))
                        secrets inbound_faketls_domain (se_reader env) [] of
                   Panic \<Rightarrow> None
                 | Ret None \<Rightarrow> Some (No_handshake, s)
                 | Ret (Some ((handshake_buf, reader), out)) \<Rightarrow>
                     (case parse_any (wd_sha wd) (wd_ks wd) handshake_buf secrets of
                        Panic \<Rightarrow> None
                      | Ret None \<Rightarrow> Some (Drained, s)
                      | Ret (Some (info, secret)) \<Rightarrow>
                          start_session wd config runtime env
                            (session_client inbound_faketls_domain env reader out) info secret s))))"

text \<open>The entry point without a runtime of its own connects directly.\<close>

definition handle_client ::
    "hex_decoder \<Rightarrow> route_world \<Rightarrow> Config \<Rightarrow> session_env \<Rightarrow> route_state \<Rightarrow> (session \<times> route_state) option" where
  "handle_client hexd wd config env s =
     handle_client_with_runtime hexd wd config (runtime_new (\<lambda>_ _. True)) env s"

section \<open>The opening bytes\<close>

lemma find_hello_no_panic: "find_hello hmac rec secrets \<noteq> Panic"
proof (induction secrets)
  case (Cons secret secrets)
  then show ?case
    using parse_hello_no_panic [of hmac rec secret]
    by (cases "parse_faketls_client_hello hmac rec secret") (auto split: option.splits)
qed simp

lemma collect_init_shape:
  "collect_init filled reader = Some (buf, pending, reader') \<Longrightarrow> length filled \<le> 64 \<Longrightarrow>
   length buf = 64 \<and> pd_offset pending \<le> length (pd_data pending)"
proof (induction filled reader rule: collect_init.induct)
  case (1 filled reader)
  show ?case
  proof (cases "64 \<le> length filled")
    case True
    then show ?thesis
      using "1.prems" by (auto simp: collect_init.simps [of filled reader] pending_default_def)
  next
    case False
    then obtain rec r where rec: "read_tls_record_bytes reader max_record = Inr (Some rec, r)"
      using "1.prems"(1) by (auto simp: collect_init.simps [of filled reader] split: sum.splits option.splits)
    let ?n = "min (length rec - 5) (64 - length filled)"
    consider (ccs) "rec ! 0 = TLS_RECORD_CHANGE_CIPHER_SPEC"
      | (bad) "rec ! 0 \<noteq> TLS_RECORD_CHANGE_CIPHER_SPEC" "rec ! 0 \<noteq> TLS_RECORD_APPLICATION_DATA \<or> length rec - 5 = 0"
      | (data) "rec ! 0 \<noteq> TLS_RECORD_CHANGE_CIPHER_SPEC" "\<not> (rec ! 0 \<noteq> TLS_RECORD_APPLICATION_DATA \<or> length rec - 5 = 0)"
      by argo
    then show ?thesis
    proof cases
      case ccs
      then show ?thesis
        using "1.IH"(1) [OF False rec refl refl] "1.prems" False rec by (simp add: collect_init.simps [of filled reader])
    next
      case bad
      then show ?thesis using "1.prems" False rec by (auto simp: collect_init.simps [of filled reader])
    next
      case data
      show ?thesis
      proof (cases "?n = length rec - 5")
        case True
        have "collect_init (filled @ slice_of rec 5 (5 + ?n)) r = Some (buf, pending, reader')"
          using "1.prems"(1) False rec data True by (simp add: collect_init.simps [of filled reader] Let_def)
        moreover have "length (filled @ slice_of rec 5 (5 + ?n)) \<le> 64"
          using True False by (auto simp: slice_of_def)
        ultimately show ?thesis
          using "1.IH"(2) [OF False rec refl refl refl data refl refl] True by blast
      next
        case part: False
        then have "?n = 64 - length filled" "64 - length filled < length rec - 5" by (simp_all add: min_def split: if_splits)
        then show ?thesis
          using "1.prems"(1) False rec data
          by (auto simp: collect_init.simps [of filled reader] Let_def from_record_def)
      qed
    qed
  qed
qed

lemma read_inbound_no_panic: "read_inbound_handshake hmac g w secrets domain reader out \<noteq> Panic"
  using find_hello_no_panic
  by (auto simp: read_inbound_handshake_def accept_inbound_faketls_def exec_bind_eq_Panic
      split: option.splits sum.splits prod.splits if_splits)

text \<open>How a client is framed, read and written alike.\<close>

definition client_wf :: "bytes option \<Rightarrow> client \<Rightarrow> bool" where
  "client_wf domain c \<longleftrightarrow>
     (cl_writer c = CwFakeTls) = (domain \<noteq> None) \<and>
     (case cl_reader c of
        CrPlain _ \<Rightarrow> domain = None
      | CrFakeTls _ pending \<Rightarrow> domain \<noteq> None \<and> pd_offset pending \<le> length (pd_data pending))"

lemma accept_collects:
  "accept_inbound_faketls hmac g w secrets d reader out = Ret (Some (result, out')) \<Longrightarrow>
   \<exists>rest. collect_init [] rest = Some result"
  by (auto simp: accept_inbound_faketls_def exec_bind_eq_Ret split_def Let_def
      split: option.split_asm sum.split_asm if_split_asm prod.split_asm)

lemma read_inbound_shape:
  assumes "read_inbound_handshake hmac g w secrets domain reader out = Ret (Some ((buf, r), out'))"
  shows "length buf = 64" and "client_wf domain (session_client domain env r out')"
proof -
  have "length buf = 64 \<and> client_wf domain (session_client domain env r out')"
  proof (cases domain)
    case None
    then show ?thesis
      using assms
      by (auto simp: read_inbound_handshake_def tcp_read_exact_def client_wf_def session_client_def split: if_splits)
  next
    case (Some d)
    then obtain pending reader' rest where "collect_init [] rest = Some (buf, pending, reader')"
      and r: "r = CrFakeTls reader' pending"
      using assms by (auto simp: read_inbound_handshake_def exec_bind_eq_Ret dest!: accept_collects)
    then show ?thesis
      using collect_init_shape [of "[]" rest] Some by (simp add: client_wf_def session_client_def)
  qed
  then show "length buf = 64" "client_wf domain (session_client domain env r out')" by simp_all
qed

definition cipher_wf :: "nat \<Rightarrow> AesCtr256 \<Rightarrow> bool" where
  "cipher_wf pos c \<longleftrightarrow> length (cipher_key c) = 32 \<and> length (cipher_iv c) = 16 \<and> cipher_pos c = pos"

text \<open>What a bridge is given: sizes of keys and initialisation vectors, positions in the keystreams, the relay init.\<close>

fun session_wf :: "bytes option \<Rightarrow> session \<Rightarrow> bool" where
  "session_wf domain (Bridge_ws params c) =
     (client_wf domain c \<and> length (wb_relay_init params) = 64 \<and>
      cipher_wf 64 (clt_dec (wb_ciphers params)) \<and> cipher_wf 0 (clt_enc (wb_ciphers params)) \<and>
      cipher_wf 64 (tg_enc (wb_ciphers params)) \<and> cipher_wf 0 (tg_dec (wb_ciphers params)))"
| "session_wf domain (Bridge_relay params c) =
     (client_wf domain c \<and> cipher_wf 64 (clt_dec (rp_ciphers params)) \<and> cipher_wf 0 (clt_enc (rp_ciphers params)))"
| "session_wf domain (Bridge_tcp params c) =
     (client_wf domain c \<and> length (tp_out (rp_remote params)) = 64 \<and> \<not> rp_faketls params \<and>
      cipher_wf 64 (clt_dec (rp_ciphers params)) \<and> cipher_wf 0 (clt_enc (rp_ciphers params)) \<and>
      cipher_wf 64 (tg_enc (rp_ciphers params)) \<and> cipher_wf 0 (tg_dec (rp_ciphers params)))"
| "session_wf domain _ = True"

lemma parse_any_returns:
  assumes "digest_len sha 32" and "length h = 64"
  shows "parse_any sha ks h secrets \<noteq> Panic \<and>
    (parse_any sha ks h secrets = Ret (Some (info, secret)) \<longrightarrow> length (hs_prekey_and_iv info) = 48)"
proof (induction secrets)
  case (Cons s secrets)
  then show ?case
    using assms(2) by (auto simp: parse_handshake_peer_reads [OF assms] split: option.splits)
qed simp

lemma bridge_tcp_params_shape:
  "bridge_tcp_params net dst timeout init ciphers s = (Some relay, s') \<Longrightarrow>
   tp_out (rp_remote relay) = init \<and> rp_ciphers relay = ciphers \<and> \<not> rp_faketls relay"
  by (auto simp: bridge_tcp_params_def tcp_writer_def Let_def
      split: prod.splits tcp_result.splits option.splits if_splits)

lemma bridge_selected_wf:
  assumes "length (bd_relay_init params) = 64" and "client_wf domain c"
    and "cipher_wf 64 (clt_dec (bd_ciphers params))" and "cipher_wf 0 (clt_enc (bd_ciphers params))"
    and "cipher_wf 64 (tg_enc (bd_ciphers params))" and "cipher_wf 0 (tg_dec (bd_ciphers params))"
  shows "session_wf domain (fst (bridge_selected net env c u params s))"
proof (cases u)
  case (UpTcp dst)
  then show ?thesis
    using assms
    by (auto simp: bridge_selected_def split: prod.split option.split dest!: bridge_tcp_params_shape)
qed (use assms in \<open>simp_all add: bridge_selected_def\<close>)

lemma start_session_wf:
  assumes "fair_world wd" and "draws_accepted (se_init_random env)" and "length (hs_prekey_and_iv info) = 48"
    and "client_wf domain c"
  shows "\<exists>result s'. start_session wd config runtime env c info secret s = Some (result, s') \<and> session_wf domain result"
proof -
  have sha: "digest_len (wd_sha wd) 32" using assms(1) by (simp add: fair_world_def)
  obtain init g where init: "generate_relay_init (wd_ks wd) (se_init_random env) (hs_proto info) (client_dc_idx info) =
      Some (Ret (init, g))" "length init = 64"
    using generate_relay_init_spec [OF assms(2)] by blast
  let ?ciphers = "\<lparr>clt_dec = \<lparr>cipher_key = wd_sha wd (take 32 (hs_prekey_and_iv info) @ secret),
        cipher_iv = drop 32 (hs_prekey_and_iv info), cipher_pos = 64\<rparr>,
      clt_enc = \<lparr>cipher_key = wd_sha wd (take 32 (rev (hs_prekey_and_iv info)) @ secret),
        cipher_iv = drop 32 (rev (hs_prekey_and_iv info)), cipher_pos = 0\<rparr>,
      tg_enc = \<lparr>cipher_key = slice_of init 8 40, cipher_iv = slice_of init 40 56, cipher_pos = 64\<rparr>,
      tg_dec = \<lparr>cipher_key = take 32 (rev (slice_of init 8 56)), cipher_iv = drop 32 (rev (slice_of init 8 56)),
        cipher_pos = 0\<rparr>\<rparr>"
  note ciphers = build_connection_ciphers_spec [OF sha assms(3) init(2), of "wd_ks wd" secret]
  let ?ro = "session_route config runtime info" and ?ip = "dc_target_ip config (unat (hs_dc_id info))"
  obtain upstream s' where up: "select_upstream wd ?ro ?ip s = Some (upstream, s')"
    using climbed_select [OF assms(1)] unfolding climbed_def by blast
  have len: "length (wd_sha wd m) = 32" for m using sha by (simp add: digest_len_def)
  show ?thesis
  proof (cases upstream)
    case None
    then show ?thesis
      using up init ciphers by (simp add: start_session_def select_bridge_def)
  next
    case (Some u)
    let ?dispatch = "\<lparr>bd_relay_init = init, bd_ciphers = ?ciphers, bd_proto = hs_proto info,
      bd_tcp_connect_timeout = to_tcp_fallback (ro_timeouts ?ro)\<rparr>"
    have run: "start_session wd config runtime env c info secret s =
        Some (bridge_selected (wd_net wd) env c u ?dispatch s')"
      using up init(1) ciphers Some by (simp add: start_session_def select_bridge_def)
    have wf: "cipher_wf 64 (clt_dec ?ciphers)" "cipher_wf 0 (clt_enc ?ciphers)"
      "cipher_wf 64 (tg_enc ?ciphers)" "cipher_wf 0 (tg_dec ?ciphers)"
      using len assms(3) init(2) by (simp_all add: cipher_wf_def)
    have "session_wf domain (fst (bridge_selected (wd_net wd) env c u ?dispatch s'))"
      using bridge_selected_wf [of ?dispatch] wf init(2) assms(4) by simp
    then show ?thesis using run by (metis prod.collapse)
  qed
qed

section \<open>Properties\<close>

lemma ucast_unsigned_abs: "(ucast (ucast (unsigned_abs16 dc) :: u32) :: i16) = unsigned_abs16 dc"
  by (rule bit_word_eqI) (simp add: bit_simps)

text \<open>
  C11: the handling of a client never panics and hands well-formed parts to the bridge, whatever bytes
  the client sends, whatever the network answers and whatever the upstream. The client is read and written with the same framing, the
  one that is configured; unread bytes of a FakeTLS record lie within it; the relay init has
  sixty-four bytes; keys have thirty-two bytes and initialisation vectors sixteen; the ciphers that
  continue after an opening packet start at its end and the others at zero. The index sent to the
  backend is the one the client sent, for each of the 65536 values.
\<close>

theorem session_well_typed:
  assumes "fair_world wd" and "draws_accepted (se_init_random env)" and "normalized_secrets hexd config = Ret secrets"
  shows "\<exists>result s'. handle_client_with_runtime hexd wd config runtime env s = Some (result, s') \<and>
           session_wf (listen_faketls_domain hexd config) result \<and>
           client_dc_idx \<lparr>hs_dc_id = ucast (unsigned_abs16 dc), hs_is_media = (sint dc < 0),
                          hs_proto = t, hs_prekey_and_iv = pki\<rparr> = dc"
proof -
  have sha: "digest_len (wd_sha wd) 32" using assms(1) by (simp add: fair_world_def)
  have idx: "client_dc_idx \<lparr>hs_dc_id = ucast (unsigned_abs16 dc), hs_is_media = (sint dc < 0),
      hs_proto = t, hs_prekey_and_iv = pki\<rparr> = dc"
    using ucast_unsigned_abs [of dc] by (simp add: client_dc_idx_def unsigned_abs16_def split: if_splits)
  let ?read = "read_inbound_handshake (wd_mac wd) (se_hello_random env) (tcp_writer (se_accepts env)) secrets
      (listen_faketls_domain hexd config) (se_reader env) []"
  show ?thesis
  proof (cases "se_timely env \<and> ?read \<noteq> Ret None")
    case False
    then have "handle_client_with_runtime hexd wd config runtime env s = Some (No_handshake, s)"
      using assms(3) by (auto simp: handle_client_with_runtime_def Let_def)
    then show ?thesis using idx by simp
  next
    case True
    then obtain buf reader out where read: "?read = Ret (Some ((buf, reader), out))"
      using read_inbound_no_panic by (cases ?read) force+
    note shape = read_inbound_shape(1) [OF read] read_inbound_shape(2) [OF read, of env]
    have "parse_any (wd_sha wd) (wd_ks wd) buf secrets \<noteq> Panic"
      using parse_any_returns [OF sha shape(1)] by blast
    then obtain found where found: "parse_any (wd_sha wd) (wd_ks wd) buf secrets = Ret found"
      by (cases "parse_any (wd_sha wd) (wd_ks wd) buf secrets") auto
    show ?thesis
    proof (cases found)
      case None
      then show ?thesis using assms(3) True read found idx by (simp add: handle_client_with_runtime_def)
    next
      case (Some pair)
      then obtain info secret where pair: "pair = (info, secret)" "length (hs_prekey_and_iv info) = 48"
        using parse_any_returns [OF sha shape(1)] found by (cases pair) blast
      then show ?thesis
        using start_session_wf [OF assms(1,2) pair(2) shape(2)] assms(3) True read found Some idx
        by (simp add: handle_client_with_runtime_def)
    qed
  qed
qed

definition sample_env :: "bytes \<Rightarrow> session_env" where
  "sample_env sent =
     \<lparr>se_reader = [sent], se_accepts = None, se_timely = True, se_hello_random = (\<lambda>_. 9),
      se_init_random = (\<lambda>_. 1), se_ws = (\<lambda>_. \<lparr>st_messages = [], st_takes = (\<lambda>_. True)\<rparr>),
      se_upstream_accepts = None\<rparr>"

definition sample_session_config :: Config where
  "sample_session_config =
     sample_config\<lparr>cfg_normalized_secrets := Some [[1, 2]], cfg_normalized_listen_faketls_domain := Some None\<rparr>"

theorem session_well_typed_witness:
  "\<exists>result s'. handle_client_with_runtime sample_hexd (sample_world sample_refusing) sample_session_config
        (runtime_new (\<lambda>_ _. True)) (sample_env (replicate 70 3)) sample_route_state = Some (result, s') \<and>
     session_wf None result \<and>
     client_dc_idx \<lparr>hs_dc_id = ucast (unsigned_abs16 0x8000), hs_is_media = (sint (0x8000 :: i16) < 0),
                    hs_proto = Abridged, hs_prekey_and_iv = []\<rparr> = 0x8000"
proof -
  have "draws_accepted (se_init_random (sample_env (replicate 70 3)))"
    using sample_draws_accepted by (simp add: sample_env_def)
  moreover have "normalized_secrets sample_hexd sample_session_config = Ret [[1, 2]]"
    by (simp add: sample_session_config_def normalized_secrets_def)
  moreover have "listen_faketls_domain sample_hexd sample_session_config = None"
    by (simp add: sample_session_config_def listen_faketls_domain_def)
  ultimately show ?thesis
    using session_well_typed [OF sample_fair, of "sample_env (replicate 70 3)" sample_hexd sample_session_config
        "[[1, 2]]" "runtime_new (\<lambda>_ _. True)" sample_route_state "0x8000" Abridged "[]"] by simp
qed

end
